(* ===== verification/Prelude.thy ===== *)
theory Prelude
  imports Main "HOL-Library.Word"
begin

text \<open>
  The part of Go that every component of qpool uses, and the lemmas the components share.

  Go's \<^verbatim>\<open>int\<close>, \<^verbatim>\<open>int64\<close> and \<^verbatim>\<open>time.Duration\<close> are 64-bit two's complement numbers. They are
  modelled as \<^typ>\<open>int\<close>, with \<open>wrap64\<close> written at every operation that can leave the range;
  the unsigned counters of the source are machine words (\<open>u32\<close>, \<open>u64\<close>), whose arithmetic
  wraps by itself. Integer division in Go truncates towards zero (\<open>quot64\<close>, \<open>rem64\<close>).
  A nanosecond clock reading (\<^verbatim>\<open>time.Now().UnixNano()\<close>) is an argument of the operation that
  reads it.
\<close>

named_theorems go_defs \<open>definitions of the Go primitives\<close>
named_theorems cas_defs \<open>definitions of the bodies of compare-and-swap loops\<close>
named_theorems inv_intros \<open>preservation of the component invariants\<close>

type_synonym u32 = "32 word"
type_synonym u64 = "64 word"

section \<open>64-bit signed integers\<close>

definition in64 :: "int \<Rightarrow> bool" where
  "in64 x \<longleftrightarrow> - (2 ^ 63) \<le> x \<and> x < 2 ^ 63"

definition wrap64 :: "int \<Rightarrow> int" where
  "wrap64 x = signed_take_bit 63 x"

definition in32 :: "int \<Rightarrow> bool" where
  "in32 x \<longleftrightarrow> - (2 ^ 31) \<le> x \<and> x < 2 ^ 31"

definition wrap32 :: "int \<Rightarrow> int" where
  "wrap32 x = signed_take_bit 31 x"

definition quot64 :: "int \<Rightarrow> int \<Rightarrow> int" where
  "quot64 a b = sgn a * sgn b * (\<bar>a\<bar> div \<bar>b\<bar>)"

definition rem64 :: "int \<Rightarrow> int \<Rightarrow> int" where
  "rem64 a b = a - b * quot64 a b"

lemma wrap64_in64 [simp]: "in64 (wrap64 x)"
  using signed_take_bit_int_greater_eq_minus_exp [of 63 x] signed_take_bit_int_less_exp [of 63 x]
  by (simp add: in64_def wrap64_def)

lemma wrap64_id [simp]: "in64 x \<Longrightarrow> wrap64 x = x"
  by (simp add: in64_def wrap64_def signed_take_bit_int_eq_self_iff)

lemma wrap32_in32 [simp]: "in32 (wrap32 x)"
  using signed_take_bit_int_greater_eq_minus_exp [of 31 x] signed_take_bit_int_less_exp [of 31 x]
  by (simp add: in32_def wrap32_def)

lemma wrap32_id [simp]: "in32 x \<Longrightarrow> wrap32 x = x"
  by (simp add: in32_def wrap32_def signed_take_bit_int_eq_self_iff)

lemma in64_small: "0 \<le> x \<Longrightarrow> x < 2 ^ 63 \<Longrightarrow> in64 x"
  by (simp add: in64_def)

lemma in64_between: "in64 a \<Longrightarrow> in64 b \<Longrightarrow> a \<le> x \<Longrightarrow> x \<le> b \<Longrightarrow> in64 x"
  by (simp add: in64_def)

lemma in64_0 [simp]: "in64 0" and in64_1 [simp]: "in64 1"
  by (simp_all add: in64_def)

lemma quot64_nonneg: "0 \<le> a \<Longrightarrow> 0 < b \<Longrightarrow> quot64 a b = a div b"
  by (cases "a = 0") (auto simp: quot64_def)

lemma rem64_nonneg: "0 \<le> a \<Longrightarrow> 0 < b \<Longrightarrow> rem64 a b = a mod b"
  by (simp add: rem64_def quot64_nonneg minus_mult_div_eq_mod)

lemma rem64_bounds: "0 \<le> a \<Longrightarrow> 0 < b \<Longrightarrow> 0 \<le> rem64 a b \<and> rem64 a b < b"
  by (simp add: rem64_nonneg)

section \<open>Durations\<close>

definition nanosecond :: int where "nanosecond = 1"
definition microsecond :: int where "microsecond = 1000"
definition millisecond :: int where "millisecond = 1000000"
definition second :: int where "second = 1000000000"
definition minute :: int where "minute = 60000000000"

lemmas duration_defs [go_defs] =
  nanosecond_def microsecond_def millisecond_def second_def minute_def

text \<open>\<^verbatim>\<open>t.Sub(u)\<close>, and so \<^verbatim>\<open>time.Since(u)\<close> at the time \<open>t\<close>, saturates.\<close>

definition since :: "int \<Rightarrow> int \<Rightarrow> int" where
  "since t u = max (- (2 ^ 63)) (min (2 ^ 63 - 1) (t - u))"

section \<open>Lists\<close>

text \<open>The list operations to which the linked structures of the source are refined.\<close>

fun remove_first :: "('a \<Rightarrow> bool) \<Rightarrow> 'a list \<Rightarrow> 'a list" where
  "remove_first P [] = []"
| "remove_first P (x # xs) = (if P x then xs else x # remove_first P xs)"

lemma set_remove_first_subset: "set (remove_first P xs) \<subseteq> set xs"
  by (induction xs) auto

lemma distinct_remove_first: "distinct xs \<Longrightarrow> distinct (remove_first P xs)"
  by (induction xs) (use set_remove_first_subset in fastforce)+

lemma distinct_map_remove_first:
  "distinct (map f xs) \<Longrightarrow> distinct (map f (remove_first P xs))"
  by (induction xs) (use set_remove_first_subset in fastforce)+

lemma remove_first_none: "(\<And>x. x \<in> set xs \<Longrightarrow> \<not> P x) \<Longrightarrow> remove_first P xs = xs"
  by (induction xs) auto

lemma remove_first_append:
  "remove_first P (xs @ ys) =
     (if \<exists>x\<in>set xs. P x then remove_first P xs @ ys else xs @ remove_first P ys)"
  by (induction xs) auto

lemma set_remove_first_key:
  "distinct (map f xs) \<Longrightarrow> set (remove_first (\<lambda>x. f x = k) xs) = {x \<in> set xs. f x \<noteq> k}"
  by (induction xs) (auto simp: image_iff)

lemma length_remove_first:
  "length (remove_first P xs) = (if \<exists>x\<in>set xs. P x then length xs - 1 else length xs)"
proof (induction xs)
  case (Cons x xs)
  then show ?case by (cases xs) auto
qed simp

lemma find_Some_in: "List.find P xs = Some x \<Longrightarrow> x \<in> set xs \<and> P x"
  by (auto simp: find_Some_iff)

lemma find_None_notin: "List.find P xs = None \<longleftrightarrow> (\<forall>x\<in>set xs. \<not> P x)"
  by (auto simp: find_None_iff)

lemma find_append_none:
  "(\<And>x. x \<in> set xs \<Longrightarrow> \<not> P x) \<Longrightarrow> List.find P (xs @ ys) = List.find P ys"
  by (induction xs) auto

end
