(* ===== verification/Ring_Buffer.thy ===== *)
theory Ring_Buffer
  imports Prelude
begin

unbundle bit_operations_syntax

text \<open>
  \<^verbatim>\<open>ring_buffer.go\<close>: the power-of-two slot store that the job queue indexes with disruptor
  sequence numbers. The capacity search shifts a 64-bit \<^verbatim>\<open>int\<close>, so it is modelled on machine
  words and may fail to end; \<open>None\<close> is the loop that never returns.
\<close>

record 'a RingBuffer =
  rb_slots :: "'a list"
  rb_mask :: u64

text \<open>The loop of \<^verbatim>\<open>next\<close>: \<^verbatim>\<open>for power < value { power <<= 1 }\<close>, comparing signed values.\<close>

partial_function (option) next_loop :: "u64 \<Rightarrow> u64 \<Rightarrow> u64 option" where
  "next_loop v pw =
     (if sint pw < sint v then next_loop v (push_bit 1 pw) else Some pw)"

definition next_pow :: "u64 \<Rightarrow> u64 option" where
  "next_pow v = (if sint v \<le> 1 then Some 1 else next_loop v 1)"

text \<open>\<^verbatim>\<open>NewRingBuffer\<close>: \<open>zero\<close> is the zero value of the slot type, which \<^verbatim>\<open>make\<close> fills in.\<close>

definition NewRingBuffer :: "'a \<Rightarrow> u64 \<Rightarrow> 'a RingBuffer option" where
  "NewRingBuffer zero capacity =
     (case next_pow (if sint capacity \<le> 1 then 1 else capacity) of
        None \<Rightarrow> None
      | Some c \<Rightarrow> Some \<lparr>rb_slots = replicate (unat c) zero, rb_mask = c - 1\<rparr>)"

definition Capacity :: "'a RingBuffer \<Rightarrow> nat" where
  "Capacity buffer = length (rb_slots buffer)"

text \<open>\<^verbatim>\<open>Slot\<close> returns the address of a slot: here its index, \<open>None\<close> for an index out of range (a panic).\<close>

definition Slot :: "'a RingBuffer \<Rightarrow> u64 \<Rightarrow> nat option" where
  "Slot buffer sequence =
     (let i = unat (sequence AND rb_mask buffer)
      in if i < length (rb_slots buffer) then Some i else None)"

lemma sint_pow2: "k \<le> 62 \<Longrightarrow> sint ((2::u64) ^ k) = 2 ^ k"
proof -
  assume k: "k \<le> 62"
  have "(2::int) ^ k < 2 ^ 63" using k by (intro power_strict_increasing) auto
  then have "signed_take_bit 63 ((2::int) ^ k) = 2 ^ k"
    by (simp add: signed_take_bit_int_eq_self_iff order_trans [of _ 0])
  moreover have "(2::u64) ^ k = word_of_int (2 ^ k)" by simp
  ultimately show ?thesis by (simp only: sint_sbintrunc' size_word.rep_eq) simp
qed

lemma next_loop_double:
  "next_loop v (2 ^ k) =
     (if sint ((2::u64) ^ k) < sint v then next_loop v (2 ^ Suc k) else Some (2 ^ k))"
  by (subst next_loop.simps) (simp add: push_bit_eq_mult mult.commute)

lemma next_loop_stops:
  assumes "k \<le> n" "n \<le> 62" "sint v \<le> 2 ^ n" "\<And>j. k \<le> j \<Longrightarrow> j < n \<Longrightarrow> 2 ^ j < sint v"
  shows "next_loop v (2 ^ k) = Some (2 ^ n)"
  using assms
proof (induction k rule: inc_induct)
  case base
  then show ?case by (subst next_loop_double) (simp add: sint_pow2)
next
  case (step k)
  then have "next_loop v (2 ^ Suc k) = Some (2 ^ n)" by auto
  with step show ?case by (subst next_loop_double) (simp add: sint_pow2 del: power_Suc)
qed

lemma next_loop_zero_diverges:
  assumes "0 < sint v"
  shows "next_loop v 0 = None"
proof (cases "next_loop v 0")
  case (Some r)
  have "0 < sint v \<longrightarrow> (0::u64) \<noteq> 0"
  proof (rule next_loop.raw_induct [where P = "\<lambda>v pw r. 0 < sint v \<longrightarrow> pw \<noteq> 0", OF _ Some])
    fix f and v pw r :: u64
    assume IH: "\<And>v pw r. f v pw = Some r \<Longrightarrow> 0 < sint v \<longrightarrow> pw \<noteq> 0"
      and eq: "(if sint pw < sint v then f v (push_bit 1 pw) else Some pw) = Some r"
    show "0 < sint v \<longrightarrow> pw \<noteq> 0"
      using IH [of v "push_bit 1 pw" r] eq by (auto split: if_splits)
  qed
  with assms show ?thesis by simp
qed simp

lemma next_loop_overflow_diverges:
  assumes "2 ^ 62 < sint v" "k \<le> 62"
  shows "next_loop v (2 ^ k) = None"
  using assms(2)
proof (induction k rule: inc_induct)
  case base
  have v: "0 < sint v" using assms(1) by simp
  have top: "(2::u64) ^ Suc 63 = 0" by (rule exp_eq_zero_iff [THEN iffD2]) simp
  have "next_loop v (2 ^ Suc 62) = None"
    using v next_loop_zero_diverges [OF v] next_loop_double [of v 63]
    by (simp only: top) simp
  with assms(1) show ?case
    by (subst next_loop_double) (simp add: sint_pow2 del: power_Suc)
next
  case (step k)
  have "(2::int) ^ k \<le> 2 ^ 62" using step by (intro power_increasing) auto
  with step assms(1) show ?case
    by (subst next_loop_double) (simp add: sint_pow2 del: power_Suc)
qed

lemma next_pow_least:
  assumes "sint v \<le> 2 ^ 62"
  shows "\<exists>n \<le> 62. next_pow v = Some (2 ^ n) \<and> sint v \<le> 2 ^ n \<and> (\<forall>m. sint v \<le> 2 ^ m \<longrightarrow> n \<le> m)"
proof (cases "sint v \<le> 1")
  case True
  then show ?thesis by (intro exI [of _ 0]) (simp add: next_pow_def)
next
  case False
  define n where "n = (LEAST m. sint v \<le> 2 ^ m)"
  have le: "sint v \<le> 2 ^ n" unfolding n_def using assms by (rule LeastI)
  have least: "\<And>m. sint v \<le> 2 ^ m \<Longrightarrow> n \<le> m" unfolding n_def by (rule Least_le)
  have n62: "n \<le> 62" by (rule least [OF assms])
  have below: "\<And>j. 0 \<le> j \<Longrightarrow> j < n \<Longrightarrow> 2 ^ j < sint v"
    using least not_le by (meson linorder_not_less)
  have "next_loop v (2 ^ 0) = Some (2 ^ n)"
    using next_loop_stops [of 0 n v] n62 le below by simp
  with False le least n62 show ?thesis by (auto simp: next_pow_def)
qed

lemma next_pow_diverges: "2 ^ 62 < sint v \<Longrightarrow> next_pow v = None"
  using next_loop_overflow_diverges [of v 0] by (simp add: next_pow_def)

lemma unat_pow2: "k \<le> 62 \<Longrightarrow> unat ((2::u64) ^ k) = 2 ^ k"
proof -
  assume k: "k \<le> 62"
  have "(2::u64) ^ k = of_nat (2 ^ k)" by simp
  then show ?thesis using k by (simp only: unsigned_of_nat) (simp add: take_bit_nat_eq_self)
qed

text \<open>Every buffer that \<^verbatim>\<open>NewRingBuffer\<close> returns has \<open>2 ^ n\<close> slots and the mask \<open>2 ^ n - 1\<close>.\<close>

lemma NewRingBuffer_shape:
  assumes "NewRingBuffer zero c = Some b"
  obtains n where "n \<le> 62" "rb_slots b = replicate (2 ^ n) zero" "rb_mask b = mask n"
    "sint c \<le> 2 ^ n"
proof -
  define c' where "c' = (if sint c \<le> 1 then 1 else c)"
  have eq: "next_pow c' \<noteq> None" "b = \<lparr>rb_slots = replicate (unat (the (next_pow c'))) zero, rb_mask = the (next_pow c') - 1\<rparr>"
    using assms by (auto simp: NewRingBuffer_def c'_def split: option.splits)
  then have "sint c' \<le> 2 ^ 62" using next_pow_diverges by (meson not_le)
  from next_pow_least [OF this] obtain n where n: "n \<le> 62" "next_pow c' = Some (2 ^ n)" "sint c' \<le> 2 ^ n"
    by blast
  have "sint c \<le> 2 ^ n"
  proof (cases "sint c \<le> 1")
    case True
    then show ?thesis by (simp add: order_trans [of _ 1])
  next
    case False
    with n(3) show ?thesis by (simp add: c'_def)
  qed
  with n eq that [of n] show thesis by (simp add: unat_pow2 mask_eq_exp_minus_1)
qed

lemma Slot_mod:
  assumes "length (rb_slots b) = 2 ^ n" "rb_mask b = mask n" "n \<le> 62"
  shows "Slot b s = Some (nat (sint s mod 2 ^ n))"
proof -
  have "uint (s AND mask n) = take_bit n (uint s)"
    by (simp add: take_bit_eq_mask [symmetric] unsigned_take_bit_eq)
  also have "\<dots> = take_bit n (sint s)"
    using assms(3) by (simp add: uint_sint take_bit_take_bit min_def)
  finally have u: "uint (s AND mask n) = sint s mod 2 ^ n" by (simp add: take_bit_eq_mod)
  then have "unat (s AND mask n) = nat (sint s mod 2 ^ n)" by (simp flip: nat_uint_eq)
  moreover have "nat (sint s mod 2 ^ n) < 2 ^ n"
    by (simp add: nat_less_iff)
  ultimately show ?thesis using assms(1,2) by (simp add: Slot_def Let_def)
qed

text \<open>The capacity search of \<^verbatim>\<open>RingBuffer.next\<close> returns, with the least power of two that is
  at least its argument, exactly when the argument is at most \<open>2 ^ 62\<close>; above that the shifted
  value becomes zero and the loop never ends.\<close>

theorem next_pow_spec:
  "(case next_pow v of
      None \<Rightarrow> 2 ^ 62 < sint v
    | Some p \<Rightarrow> sint v \<le> 2 ^ 62 \<and> (\<exists>n \<le> 62. p = 2 ^ n \<and> sint v \<le> 2 ^ n \<and> (\<forall>m. sint v \<le> 2 ^ m \<longrightarrow> n \<le> m)))"
proof (cases "sint v \<le> 2 ^ 62")
  case True
  from next_pow_least [OF True] obtain n where "n \<le> 62" "next_pow v = Some (2 ^ n)"
    "sint v \<le> 2 ^ n" "\<forall>m. sint v \<le> 2 ^ m \<longrightarrow> n \<le> m" by blast
  with True show ?thesis by (simp only: option.case) blast
next
  case False
  then show ?thesis by (simp add: next_pow_diverges)
qed

theorem next_pow_spec_witness: "next_pow 5 = Some 8"
proof (cases "next_pow (5 :: u64)")
  case (Some p)
  then obtain n where n: "p = 2 ^ n" "(5::int) \<le> 2 ^ n" "n \<le> 3"
    using next_pow_spec [of 5] by auto
  then have "n = 3" by (cases "n \<le> 2") (use power_increasing [of n 2 "2::int"] in auto)
  then show ?thesis using Some n(1) by simp
qed (use next_pow_spec [of 5] in simp)

text \<open>\<^verbatim>\<open>Slot\<close> of a buffer that \<^verbatim>\<open>NewRingBuffer\<close> returned never indexes out of range: every
  sequence number, negative ones included, selects the slot of its residue modulo the capacity.\<close>

theorem Slot_total:
  assumes "NewRingBuffer zero c = Some b"
  shows "Slot b s = Some (nat (sint s mod int (Capacity b))) \<and> sint c \<le> int (Capacity b) \<and> 0 < Capacity b"
proof -
  obtain n where n: "n \<le> 62" "rb_slots b = replicate (2 ^ n) zero" "rb_mask b = mask n" "sint c \<le> 2 ^ n"
    using NewRingBuffer_shape [OF assms] by blast
  then show ?thesis using Slot_mod [of b n s] by (simp add: Capacity_def)
qed

theorem Slot_total_witness:
  "NewRingBuffer (0::nat) 3 = Some \<lparr>rb_slots = replicate 4 0, rb_mask = 3\<rparr> \<and>
   Slot \<lparr>rb_slots = replicate 4 (0::nat), rb_mask = 3\<rparr> 6 = Some 2"
proof -
  have loop: "next_loop 3 1 = Some 4" 
    using next_loop_stops [of 0 2 3] by (fastforce simp: less_Suc_eq numeral_2_eq_2)
  have b: "NewRingBuffer (0::nat) 3 = Some \<lparr>rb_slots = replicate 4 0, rb_mask = 3\<rparr>"
    by (simp add: NewRingBuffer_def next_pow_def loop)
  then show ?thesis using Slot_total [OF b, of 6] by (simp add: Capacity_def)
qed

end
