(* ===== verification/Float64.thy ===== *)
theory Float64
  imports Complex_Main Prelude "HOL-Library.Log_Nat"
begin

text \<open>
  Go's \<^verbatim>\<open>float64\<close>: IEEE 754 binary64 with round to nearest, ties to even. A finite value is the
  rational number it denotes; every operation computes the exact rational result and rounds it
  (\<open>rnd\<close>), overflowing to an infinity. The sign of a zero is not represented: no operation of
  the source divides by a zero or looks at the sign of one. The conversion of a value outside
  the \<^verbatim>\<open>int64\<close> range to an integer is implementation-defined in Go; the model has the value the
  amd64 conversion instruction gives.
\<close>

datatype f64 = NaN | PInf | NInf | Fin rat

definition pow2 :: "int \<Rightarrow> rat" where
  "pow2 e = (if 0 \<le> e then 2 ^ nat e else 1 / 2 ^ nat (- e))"

text \<open>The exponent of a positive rational: \<open>pow2 (expo x) \<le> x < pow2 (expo x + 1)\<close>.\<close>

definition expo :: "rat \<Rightarrow> int" where
  "expo x = (let (p, q) = quotient_of x; k = bitlen p - bitlen q
             in if pow2 k \<le> x then k else k - 1)"

text \<open>Rounding to the nearest integer, ties to even.\<close>

definition rne :: "rat \<Rightarrow> int" where
  "rne x = (let f = \<lfloor>x\<rfloor>; d = x - of_int f
            in if d < 1 / 2 then f else if 1 / 2 < d then f + 1 else if even f then f else f + 1)"

definition ulp_exp :: "rat \<Rightarrow> int" where
  "ulp_exp x = max (- 1074) (expo x - 52)"

definition round_pos :: "rat \<Rightarrow> rat" where
  "round_pos x = of_int (rne (x / pow2 (ulp_exp x))) * pow2 (ulp_exp x)"

definition round53 :: "rat \<Rightarrow> rat" where
  "round53 x = (if x = 0 then 0 else if 0 < x then round_pos x else - round_pos (- x))"

definition rnd :: "rat \<Rightarrow> f64" where
  "rnd x = (let r = round53 x
            in if 2 ^ 1024 \<le> r then PInf else if r \<le> - (2 ^ 1024) then NInf else Fin r)"

section \<open>Operations\<close>

definition f_of_int :: "int \<Rightarrow> f64" where
  "f_of_int n = rnd (of_int n)"

fun f_lt :: "f64 \<Rightarrow> f64 \<Rightarrow> bool" where
  "f_lt NaN y = False"
| "f_lt x NaN = False"
| "f_lt PInf y = False"
| "f_lt x NInf = False"
| "f_lt NInf y = True"
| "f_lt x PInf = True"
| "f_lt (Fin a) (Fin b) = (a < b)"

fun f_le :: "f64 \<Rightarrow> f64 \<Rightarrow> bool" where
  "f_le NaN y = False"
| "f_le x NaN = False"
| "f_le NInf y = True"
| "f_le x PInf = True"
| "f_le PInf y = False"
| "f_le x NInf = False"
| "f_le (Fin a) (Fin b) = (a \<le> b)"

fun f_neg :: "f64 \<Rightarrow> f64" where
  "f_neg NaN = NaN"
| "f_neg PInf = NInf"
| "f_neg NInf = PInf"
| "f_neg (Fin a) = Fin (- a)"

fun f_add :: "f64 \<Rightarrow> f64 \<Rightarrow> f64" where
  "f_add NaN y = NaN"
| "f_add x NaN = NaN"
| "f_add PInf NInf = NaN"
| "f_add NInf PInf = NaN"
| "f_add PInf y = PInf"
| "f_add x PInf = PInf"
| "f_add NInf y = NInf"
| "f_add x NInf = NInf"
| "f_add (Fin a) (Fin b) = rnd (a + b)"

definition f_sub :: "f64 \<Rightarrow> f64 \<Rightarrow> f64" where
  "f_sub x y = f_add x (f_neg y)"

definition signed_inf :: "rat \<Rightarrow> f64" where
  "signed_inf s = (if s = 0 then NaN else if 0 < s then PInf else NInf)"

fun f_mul :: "f64 \<Rightarrow> f64 \<Rightarrow> f64" where
  "f_mul NaN y = NaN"
| "f_mul x NaN = NaN"
| "f_mul (Fin a) (Fin b) = rnd (a * b)"
| "f_mul (Fin a) PInf = signed_inf a"
| "f_mul (Fin a) NInf = signed_inf (- a)"
| "f_mul PInf (Fin b) = signed_inf b"
| "f_mul NInf (Fin b) = signed_inf (- b)"
| "f_mul PInf PInf = PInf"
| "f_mul NInf NInf = PInf"
| "f_mul PInf NInf = NInf"
| "f_mul NInf PInf = NInf"

fun f_div :: "f64 \<Rightarrow> f64 \<Rightarrow> f64" where
  "f_div NaN y = NaN"
| "f_div x NaN = NaN"
| "f_div (Fin a) (Fin b) = (if b = 0 then signed_inf a else rnd (a / b))"
| "f_div (Fin a) y = Fin 0"
| "f_div PInf (Fin b) = (if 0 \<le> b then PInf else NInf)"
| "f_div NInf (Fin b) = (if 0 \<le> b then NInf else PInf)"
| "f_div x y = NaN"

text \<open>The built-in \<^verbatim>\<open>max\<close> and \<^verbatim>\<open>min\<close> propagate NaN.\<close>

definition f_max :: "f64 \<Rightarrow> f64 \<Rightarrow> f64" where
  "f_max x y = (if x = NaN \<or> y = NaN then NaN else if f_le x y then y else x)"

definition f_min :: "f64 \<Rightarrow> f64 \<Rightarrow> f64" where
  "f_min x y = (if x = NaN \<or> y = NaN then NaN else if f_le x y then x else y)"

text \<open>\<^verbatim>\<open>math.Max\<close> and \<^verbatim>\<open>math.Min\<close>: an infinity of their own side wins over NaN.\<close>

definition math_Max :: "f64 \<Rightarrow> f64 \<Rightarrow> f64" where
  "math_Max x y = (if x = PInf \<or> y = PInf then PInf else f_max x y)"

definition math_Min :: "f64 \<Rightarrow> f64 \<Rightarrow> f64" where
  "math_Min x y = (if x = NInf \<or> y = NInf then NInf else f_min x y)"

fun math_Ceil :: "f64 \<Rightarrow> f64" where
  "math_Ceil (Fin a) = Fin (of_int \<lceil>a\<rceil>)"
| "math_Ceil x = x"

text \<open>\<^verbatim>\<open>int(x)\<close>: truncation towards zero.\<close>

fun f_to_int :: "f64 \<Rightarrow> int" where
  "f_to_int (Fin a) =
     (let n = (if 0 \<le> a then \<lfloor>a\<rfloor> else \<lceil>a\<rceil>) in if in64 n then n else - (2 ^ 63))"
| "f_to_int x = - (2 ^ 63)"

section \<open>Rounding\<close>

lemma pow2_powi: "pow2 e = 2 powi e"
  by (simp add: pow2_def power_int_def field_simps power_one_over)

lemma pow2_pos [simp]: "0 < pow2 e"
  by (simp add: pow2_def)

lemma pow2_neq0 [simp]: "pow2 e \<noteq> 0"
  using pow2_pos [of e] by linarith

lemma pow2_add: "pow2 (a + b) = pow2 a * pow2 b"
  by (simp add: pow2_powi power_int_add)

lemma pow2_diff: "pow2 (a - b) = pow2 a / pow2 b"
  by (simp add: pow2_powi power_int_diff)

lemma pow2_nat: "0 \<le> e \<Longrightarrow> pow2 e = of_int (2 ^ nat e)"
  by (simp add: pow2_def)

lemma pow2_mono: "a \<le> b \<Longrightarrow> pow2 a \<le> pow2 b"
  by (simp add: pow2_powi power_int_increasing)

lemma pow2_less: "a < b \<Longrightarrow> pow2 a < pow2 b"
  by (simp add: pow2_powi power_int_strict_increasing)

lemma pow2_less_iff: "pow2 a < pow2 b \<longleftrightarrow> a < b"
  by (meson not_le pow2_less pow2_mono)

lemma rne_int [simp]: "rne (of_int n) = n"
  by (simp add: rne_def)

lemma rne_cases: "rne x = \<lfloor>x\<rfloor> \<and> x - of_int \<lfloor>x\<rfloor> \<le> 1 / 2 \<or> rne x = \<lfloor>x\<rfloor> + 1 \<and> 1 / 2 \<le> x - of_int \<lfloor>x\<rfloor>"
  by (auto simp: rne_def Let_def)

lemma rne_mono: "x \<le> y \<Longrightarrow> rne x \<le> rne y"
proof -
  assume xy: "x \<le> y"
  then have f: "\<lfloor>x\<rfloor> \<le> \<lfloor>y\<rfloor>" by (rule floor_mono)
  show ?thesis
  proof (cases "\<lfloor>x\<rfloor> = \<lfloor>y\<rfloor>")
    case True
    then show ?thesis using xy by (auto simp: rne_def Let_def)
  next
    case False
    then have "\<lfloor>x\<rfloor> + 1 \<le> \<lfloor>y\<rfloor>" using f by simp
    then show ?thesis using rne_cases [of x] rne_cases [of y] by linarith
  qed
qed

lemma expo_bounds:
  assumes "0 < x"
  shows "pow2 (expo x) \<le> x" "x < pow2 (expo x + 1)"
proof -
  obtain p q where pq: "quotient_of x = (p, q)" by (cases "quotient_of x")
  have q: "0 < q" using pq by (rule quotient_of_denom_pos)
  have x: "x = of_int p / of_int q" using pq by (rule quotient_of_div)
  have p: "0 < p" using assms x q by (simp add: zero_less_divide_iff)
  define a b where "a = bitlen p" and "b = bitlen q"
  have ab: "0 < a" "0 < b" 
    using p q bitlen_nonneg [of p] bitlen_nonneg [of q] bitlen_eq_zero_iff [of p] bitlen_eq_zero_iff [of q]
    by (simp_all add: a_def b_def order_less_le)
  have pb: "pow2 (a - 1) \<le> of_int p" "of_int p < pow2 a"
    using bitlen_bounds [OF p] ab by (simp_all add: pow2_nat a_def flip: of_int_le_iff of_int_less_iff)
  have qb: "pow2 (b - 1) \<le> of_int q" "of_int q < pow2 b"
    using bitlen_bounds [OF q] ab by (simp_all add: pow2_nat b_def flip: of_int_le_iff of_int_less_iff)
  have "pow2 (a - 1 - b) \<le> x"
    unfolding x pow2_diff [of "a - 1" b] using pb(1) qb(2) q p
    by (intro frac_le) (auto simp: less_imp_le)
  then have lo: "pow2 (a - b - 1) \<le> x" by (simp add: algebra_simps)
  have "x < pow2 (a - (b - 1))"
    unfolding x pow2_diff [of a "b - 1"] using pb qb q p by (intro frac_less) auto
  then have hi: "x < pow2 (a - b + 1)" by (simp add: algebra_simps)
  have e: "expo x = (if pow2 (a - b) \<le> x then a - b else a - b - 1)"
    by (simp add: expo_def pq a_def b_def)
  show "pow2 (expo x) \<le> x" "x < pow2 (expo x + 1)"
    using lo hi by (auto simp: e)
qed

lemma expo_mono: "0 < x \<Longrightarrow> x \<le> y \<Longrightarrow> expo x \<le> expo y"
  using expo_bounds [of x] expo_bounds [of y] pow2_less_iff [of "expo x" "expo y + 1"] by linarith

lemma expo_less: "0 < x \<Longrightarrow> x < pow2 k \<Longrightarrow> expo x < k"
  using expo_bounds(1) [of x] pow2_less_iff [of "expo x" k] by linarith

text \<open>Scaling to an integral multiple of a unit: rounding there is rounding of integers.\<close>

lemma rne_ge_int: "of_int n \<le> x \<Longrightarrow> n \<le> rne x"
  using rne_mono [of "of_int n" x] by simp

lemma rne_le_int: "x \<le> of_int n \<Longrightarrow> rne x \<le> n"
  using rne_mono [of x "of_int n"] by simp

lemma round_pos_le_pow2:
  assumes "x \<le> pow2 k" "ulp_exp x \<le> k"
  shows "round_pos x \<le> pow2 k"
proof -
  have k: "pow2 (k - ulp_exp x) = of_int (2 ^ nat (k - ulp_exp x))"
    using assms(2) by (simp add: pow2_nat)
  have "x / pow2 (ulp_exp x) \<le> of_int (2 ^ nat (k - ulp_exp x))"
    unfolding k [symmetric] pow2_diff using assms(1) by (simp add: divide_right_mono less_imp_le)
  then have "rne (x / pow2 (ulp_exp x)) \<le> 2 ^ nat (k - ulp_exp x)" by (rule rne_le_int)
  then have "of_int (rne (x / pow2 (ulp_exp x))) \<le> pow2 (k - ulp_exp x)"
    unfolding k by (simp only: of_int_le_iff)
  then show ?thesis by (simp add: round_pos_def pow2_diff pos_le_divide_eq)
qed

lemma round_pos_ge_pow2:
  assumes "pow2 k \<le> x" "ulp_exp x \<le> k"
  shows "pow2 k \<le> round_pos x"
proof -
  have k: "pow2 (k - ulp_exp x) = of_int (2 ^ nat (k - ulp_exp x))"
    using assms(2) by (simp add: pow2_nat)
  have "of_int (2 ^ nat (k - ulp_exp x)) \<le> x / pow2 (ulp_exp x)"
    unfolding k [symmetric] pow2_diff using assms(1) by (simp add: divide_right_mono less_imp_le)
  then have "2 ^ nat (k - ulp_exp x) \<le> rne (x / pow2 (ulp_exp x))" by (rule rne_ge_int)
  then have "pow2 (k - ulp_exp x) \<le> of_int (rne (x / pow2 (ulp_exp x)))"
    unfolding k by (simp only: of_int_le_iff)
  then show ?thesis by (simp add: round_pos_def pow2_diff pos_divide_le_eq)
qed

lemma round_pos_mono:
  assumes "0 < x" "x \<le> y"
  shows "round_pos x \<le> round_pos y"
proof (cases "ulp_exp x = ulp_exp y")
  case True
  have "rne (x / pow2 (ulp_exp y)) \<le> rne (y / pow2 (ulp_exp y))"
    using assms by (intro rne_mono divide_right_mono) (auto simp: less_imp_le)
  then show ?thesis unfolding round_pos_def True by (intro mult_right_mono) (auto simp: less_imp_le)
next
  case False
  have m: "expo x \<le> expo y" using assms by (rule expo_mono)
  have u: "ulp_exp y = expo y - 52" "ulp_exp x \<le> expo y" "expo x < expo y"
    using False m by (auto simp: ulp_exp_def max_def split: if_splits)
  have "pow2 (expo x + 1) \<le> pow2 (expo y)" using u(3) by (intro pow2_mono) simp
  then have "x \<le> pow2 (expo y)" using expo_bounds(2) [OF assms(1)] by linarith
  then have "round_pos x \<le> pow2 (expo y)" using u(2) by (rule round_pos_le_pow2)
  also have "\<dots> \<le> round_pos y"
    using expo_bounds(1) [of y] assms u(1) by (intro round_pos_ge_pow2) auto
  finally show ?thesis .
qed

lemma round_pos_nonneg: "0 < x \<Longrightarrow> 0 \<le> round_pos x"
proof -
  assume "0 < x"
  then have "of_int 0 \<le> x / pow2 (ulp_exp x)" by (simp add: less_imp_le)
  then have "0 \<le> rne (x / pow2 (ulp_exp x))" by (rule rne_ge_int)
  then show ?thesis by (simp add: round_pos_def less_imp_le)
qed

lemma round53_mono: "x \<le> y \<Longrightarrow> round53 x \<le> round53 y"
proof -
  assume xy: "x \<le> y"
  consider "0 < x" | "x = 0 \<or> y = 0 \<or> x < 0 \<and> 0 < y" | "y < 0" using xy by linarith
  then show ?thesis
  proof cases
    case 1
    then show ?thesis using xy by (simp add: round53_def round_pos_mono)
  next
    case 2
    then show ?thesis using xy round_pos_nonneg [of y] round_pos_nonneg [of "- x"]
      by (auto simp: round53_def)
  next
    case 3
    then show ?thesis using xy round_pos_mono [of "- y" "- x"] by (simp add: round53_def)
  qed
qed

text \<open>A multiple of a power of two with at most 53 significant bits is represented exactly.\<close>

lemma round_pos_exact_lt:
  assumes "0 < m" "m < 2 ^ 53" "- 1074 \<le> e" "x = of_int m * pow2 e"
  shows "round_pos x = x"
proof -
  have "of_int m < pow2 53" using assms(2) by (simp add: pow2_def)
  then have "x < pow2 (53 + e)" using assms(4) by (simp add: pow2_add)
  moreover have x: "0 < x" using assms(1,4) by simp
  ultimately have "expo x < 53 + e" by (intro expo_less)
  then have u: "ulp_exp x \<le> e" using assms(3) by (simp add: ulp_exp_def)
  then have "pow2 (e - ulp_exp x) = of_int (2 ^ nat (e - ulp_exp x))" by (simp add: pow2_nat)
  then have "x / pow2 (ulp_exp x) = of_int (m * 2 ^ nat (e - ulp_exp x))"
    unfolding assms(4) pow2_diff by (simp add: times_divide_eq_right [symmetric] del: times_divide_eq_right)
  then have "of_int (rne (x / pow2 (ulp_exp x))) = x / pow2 (ulp_exp x)" by (simp only: rne_int)
  then show ?thesis by (simp add: round_pos_def)
qed

lemma round_pos_exact:
  assumes "0 < m" "m \<le> 2 ^ 53" "- 1074 \<le> e"
  shows "round_pos (of_int m * pow2 e) = of_int m * pow2 e"
proof (cases "m = 2 ^ 53")
  case True
  have "pow2 (e + 1) = pow2 e * 2" by (simp only: pow2_add) (simp add: pow2_def)
  then show ?thesis
    using round_pos_exact_lt [of "2 ^ 52" "e + 1"] assms(3) True by simp
next
  case False
  then show ?thesis using round_pos_exact_lt [of m e] assms by simp
qed

lemma round53_int: "\<bar>n\<bar> \<le> 2 ^ 53 \<Longrightarrow> round53 (of_int n) = of_int n"
  using round_pos_exact [of n 0] round_pos_exact [of "- n" 0]
  by (cases "n = 0") (auto simp: round53_def pow2_def)

lemma round53_0 [simp]: "round53 0 = 0"
  by (simp add: round53_def)

lemma round53_1 [simp]: "round53 1 = 1"
  using round53_int [of 1] by simp

lemma round53_nonneg: "0 \<le> x \<Longrightarrow> 0 \<le> round53 x"
  using round53_mono [of 0 x] by simp

lemma round53_le_1: "x \<le> 1 \<Longrightarrow> round53 x \<le> 1"
  using round53_mono [of x 1] by simp

text \<open>Magnitudes up to \<open>2 ^ 1000\<close>, far above every quotient of 64-bit integers, never overflow.\<close>

lemma round53_bound:
  assumes "\<bar>x\<bar> \<le> 2 ^ k"
  shows "\<bar>round53 x\<bar> \<le> 2 ^ k"
proof -
  have e: "(2::rat) ^ k = of_int 1 * pow2 (int k)" by (simp add: pow2_def)
  have p: "round_pos (2 ^ k) = 2 ^ k"
    unfolding e by (rule round_pos_exact) simp_all
  have top: "round53 (2 ^ k) = 2 ^ k" "round53 (- (2 ^ k)) = - (2 ^ k)"
    by (simp_all add: round53_def p)
  have "- (2 ^ k) \<le> x" "x \<le> 2 ^ k" using assms by linarith+
  from this(1) [THEN round53_mono] this(2) [THEN round53_mono] show ?thesis
    unfolding top by linarith
qed

lemmas round53_big = round53_bound [where k = 1000]

lemma rnd_Fin:
  assumes "\<bar>x\<bar> \<le> 2 ^ 1000"
  shows "rnd x = Fin (round53 x)"
proof -
  have lt: "(2::rat) ^ 1000 < 2 ^ 1024" by (rule power_strict_increasing) simp_all
  have "\<bar>round53 x\<bar> < 2 ^ 1024"
    using round53_big [OF assms] lt by (rule le_less_trans)
  then have "\<not> 2 ^ 1024 \<le> round53 x" "\<not> round53 x \<le> - (2 ^ 1024)" by linarith+
  then show ?thesis unfolding rnd_def Let_def by (simp only: if_False)
qed

lemma int_le_big:
  assumes "\<bar>n\<bar> \<le> 2 ^ 64"
  shows "\<bar>of_int n :: rat\<bar> \<le> 2 ^ 1000"
proof -
  have "\<bar>of_int n :: rat\<bar> \<le> of_int (2 ^ 64)" unfolding of_int_abs [symmetric] of_int_le_iff by (rule assms)
  also have "\<dots> \<le> (2::rat) ^ 1000" unfolding of_int_power of_int_numeral by (rule power_increasing) simp_all
  finally show ?thesis .
qed

lemma f_of_int_small: "\<bar>n\<bar> \<le> 2 ^ 53 \<Longrightarrow> f_of_int n = Fin (of_int n)"
  using rnd_Fin [OF int_le_big, of n] round53_int [of n] by (simp add: f_of_int_def)

lemma f_of_int_Fin: "in64 n \<Longrightarrow> f_of_int n = Fin (round53 (of_int n))"
  using rnd_Fin [OF int_le_big, of n] by (simp add: f_of_int_def in64_def abs_le_iff)

lemma f_le_refl: "x \<noteq> NaN \<Longrightarrow> f_le x x"
  by (cases x) auto

lemma round53_ge_1: "1 \<le> x \<Longrightarrow> 1 \<le> round53 x"
  using round53_mono [of 1 x] by simp

text \<open>The quotient of two converted integers, and arithmetic on numbers of moderate size.\<close>

lemma pow2_64_big: "x \<le> 2 ^ 70 \<Longrightarrow> x \<le> (2::rat) ^ 1000"
  by (erule order_trans) (rule power_increasing, simp_all)

lemma int_abs_le_64: "in64 n \<Longrightarrow> \<bar>of_int n :: rat\<bar> \<le> 2 ^ 64"
proof -
  assume "in64 n"
  then have "\<bar>n\<bar> \<le> 2 ^ 64" by (simp add: in64_def abs_le_iff)
  then have "of_int \<bar>n\<bar> \<le> (of_int (2 ^ 64) :: rat)" by (simp only: of_int_le_iff)
  then show ?thesis by simp
qed

lemma round53_int_abs: "in64 n \<Longrightarrow> \<bar>round53 (of_int n)\<bar> \<le> 2 ^ 64"
  by (rule round53_bound) (rule int_abs_le_64)

definition ratio :: "int \<Rightarrow> int \<Rightarrow> rat" where
  "ratio a b = round53 (round53 (of_int a) / round53 (of_int b))"

lemma ratio_arg_abs:
  assumes "in64 a" "in64 b" "0 < b"
  shows "\<bar>round53 (of_int a) / round53 (of_int b)\<bar> \<le> 2 ^ 64"
proof -
  have b: "1 \<le> round53 (of_int b)" using assms(3) by (intro round53_ge_1) simp
  have "\<bar>round53 (of_int a) / round53 (of_int b)\<bar> = \<bar>round53 (of_int a)\<bar> / round53 (of_int b)"
    using b by (simp add: abs_divide)
  also have "\<dots> \<le> \<bar>round53 (of_int a)\<bar> / 1" using b by (intro divide_left_mono) auto
  also have "\<dots> \<le> 2 ^ 64" using round53_int_abs [OF assms(1)] by simp
  finally show ?thesis .
qed

lemma ratio_abs: "in64 a \<Longrightarrow> in64 b \<Longrightarrow> 0 < b \<Longrightarrow> \<bar>ratio a b\<bar> \<le> 2 ^ 64"
  unfolding ratio_def by (intro round53_bound ratio_arg_abs)

lemma f_div_ints: "in64 a \<Longrightarrow> in64 b \<Longrightarrow> 0 < b \<Longrightarrow> f_div (f_of_int a) (f_of_int b) = Fin (ratio a b)"
proof -
  assume ab: "in64 a" "in64 b" "0 < b"
  have b: "1 \<le> round53 (of_int b)" using ab by (intro round53_ge_1) simp
  have "\<bar>round53 (of_int a) / round53 (of_int b)\<bar> \<le> 2 ^ 1000"
  proof (rule pow2_64_big)
    have "(2::rat) ^ 64 \<le> 2 ^ 70" by (rule power_increasing) simp_all
    then show "\<bar>round53 (of_int a) / round53 (of_int b)\<bar> \<le> 2 ^ 70"
      using ratio_arg_abs [OF ab] by linarith
  qed
  then show ?thesis using ab b by (simp add: f_of_int_Fin ratio_def rnd_Fin)
qed

lemma ratio_mono: "a \<le> a' \<Longrightarrow> 0 < b \<Longrightarrow> ratio a b \<le> ratio a' b"
proof -
  assume "a \<le> a'" "0 < b"
  then have "0 < round53 (of_int b)" using round53_ge_1 [of "of_int b"] by simp
  moreover have "round53 (of_int a) \<le> round53 (of_int a')"
    using \<open>a \<le> a'\<close> by (intro round53_mono) simp
  ultimately show ?thesis unfolding ratio_def by (intro round53_mono [of "_ / _"] divide_right_mono) auto
qed

text \<open>Comparing a rounded quotient with an integer is exact as long as the product of divisor
  and bound has at most 52 bits.\<close>

lemma round53_frac:
  assumes "0 \<le> m" "m \<le> 2 ^ 53" "k \<le> 1074"
  shows "round53 (of_int m / 2 ^ k) = of_int m / 2 ^ k"
proof (cases "m = 0")
  case False
  have "of_int m / 2 ^ k = of_int m * pow2 (- int k)" by (simp add: pow2_def)
  then show ?thesis using round_pos_exact [of m "- int k"] assms False
    by (simp add: round53_def)
qed simp

lemma ceil_log2: "0 < w \<Longrightarrow> \<exists>k. w \<le> 2 ^ k \<and> (2::int) ^ k < 2 * w"
proof -
  assume w: "0 < w"
  define k where "k = (LEAST k. w \<le> 2 ^ k)"
  have ex: "w \<le> 2 ^ nat w" using of_nat_less_two_power [of "nat w", where 'a = int] w by simp
  have k: "w \<le> 2 ^ k" unfolding k_def using ex by (rule LeastI)
  have "(2::int) ^ k < 2 * w"
  proof (cases k)
    case (Suc j)
    then have "\<not> w \<le> 2 ^ j" using not_less_Least [of j "\<lambda>k. w \<le> 2 ^ k"] by (simp add: k_def)
    then show ?thesis by (simp add: Suc)
  qed (use w in simp)
  with k show ?thesis by blast
qed

lemma ratio_ge_int:
  assumes "0 \<le> q" "q \<le> 2 ^ 53" "0 < w" "0 \<le> c" "w \<le> 2 ^ 52" "c * w \<le> 2 ^ 52"
  shows "of_int c \<le> ratio q w \<longleftrightarrow> c * w \<le> q"
proof -
  have exact: "round53 (of_int q) = of_int q" "round53 (of_int w) = of_int w"
    using assms by (auto intro: round53_int)
  show ?thesis
  proof
    assume "c * w \<le> q"
    then have "(of_int (c * w) :: rat) \<le> of_int q" by (simp only: of_int_le_iff)
    then have "(of_int c :: rat) \<le> of_int q / of_int w" using assms(3) by (simp add: pos_le_divide_eq)
    then have "round53 (of_int c) \<le> ratio q w" unfolding ratio_def exact by (rule round53_mono)
    moreover have "c * 1 \<le> c * w" using assms by (intro mult_left_mono) auto
    then have "round53 (of_int c) = of_int c" using assms by (intro round53_int) auto
    ultimately show "of_int c \<le> ratio q w" by simp
  next
    assume le: "of_int c \<le> ratio q w"
    show "c * w \<le> q"
    proof (rule ccontr)
      assume "\<not> c * w \<le> q"
      then have q: "q \<le> c * w - 1" and c: "0 < c" using assms by (auto simp: not_le zero_less_mult_iff intro: ccontr)
      obtain k where k: "w \<le> 2 ^ k" "(2::int) ^ k < 2 * w" using ceil_log2 [OF assms(3)] by blast
      define m where "m = c * 2 ^ k - 1"
      have "(2::int) ^ k < 2 ^ 53" using k(2) assms(5) by (simp add: order_less_le_trans)
      then have "k < 53" by (rule power_less_imp_less_exp [rotated]) simp
      then have k1: "k \<le> 1074" by simp
      have "c * 2 ^ k < c * (2 * w)" using k(2) c by (rule mult_strict_left_mono)
      then have m1: "c * 2 ^ k < 2 * (c * w)" by (simp only: mult.left_commute)
      have "0 < c * 2 ^ k" using c by simp
      then have m: "0 \<le> m" "m \<le> 2 ^ 53"
        using m1 assms(6) unfolding m_def power_Suc [of 2 52, simplified] by linarith+
      have w0: "(0::rat) < of_int w" and p0: "(0::rat) < 2 ^ k" using assms(3) by simp_all
      have "q * 2 ^ k \<le> (c * w - 1) * 2 ^ k" using q by (rule mult_right_mono) simp
      also have "\<dots> \<le> m * w" using k(1) by (simp add: m_def algebra_simps)
      finally have "(of_int (q * 2 ^ k) :: rat) \<le> of_int (m * w)" by (simp only: of_int_le_iff)
      then have "(of_int q :: rat) / of_int w \<le> of_int m / 2 ^ k"
        using w0 p0 by (simp add: divide_le_eq le_divide_eq mult.commute)
      then have "ratio q w \<le> round53 (of_int m / 2 ^ k)" unfolding ratio_def exact by (rule round53_mono)
      also have "\<dots> = of_int m / 2 ^ k" using m k1 by (intro round53_frac)
      also have "\<dots> < of_int c" using p0 by (simp add: divide_less_eq m_def)
      finally show False using le by simp
    qed
  qed
qed

end
