(* ===== verification/Regulator.thy ===== *)
theory Regulator
  imports Float64
begin

text \<open>
  \<^verbatim>\<open>regulator.go\<close>: the snapshot of the pool's counters and the interface of admission control,
  with the use the pool makes of it (the two loops over \<^verbatim>\<open>config.Regulators\<close> of \<^verbatim>\<open>Schedule\<close>,
  the renormalisation loop of the scaler). What an implementation reads from outside
  the process (the clock, the memory statistics of the runtime) is the argument \<open>env\<close>.
\<close>

record MetricReading =
  WorkerCount :: int
  BusyWorkers :: int
  JobQueueSize :: int
  AverageJobLatency :: int
  P95JobLatency :: int
  P99JobLatency :: int
  JobSuccessRate :: f64
  ResourceUtilization :: f64
  TotalJobs :: int
  FailedJobs :: int
  SchedulingFailures :: int
  RateLimitHits :: int
  ThrottledJobs :: int

record env =
  now_ns :: int
  mem_Sys :: u64
  mem_Alloc :: u64

text \<open>The integer fields of a reading are 64-bit values.\<close>

definition reading_ok :: "MetricReading \<Rightarrow> bool" where
  "reading_ok r \<longleftrightarrow> in64 (WorkerCount r) \<and> in64 (BusyWorkers r) \<and> in64 (JobQueueSize r) \<and>
     in64 (AverageJobLatency r) \<and> in64 (TotalJobs r) \<and> in64 (FailedJobs r)"

text \<open>The interface as a dictionary of operations on the regulator's state.\<close>

record 's regulator_ops =
  Observe :: "env \<Rightarrow> MetricReading \<Rightarrow> 's \<Rightarrow> 's"
  Limit :: "env \<Rightarrow> 's \<Rightarrow> bool \<times> 's"
  Renormalize :: "env \<Rightarrow> 's \<Rightarrow> 's"

definition NewRegulator :: "'s \<Rightarrow> 's" where
  "NewRegulator r = r"

text \<open>The admission loops of \<^verbatim>\<open>Schedule\<close>: every regulator observes the reading, then they are
  asked in order until one rejects.\<close>

fun limit_all :: "'s regulator_ops \<Rightarrow> env \<Rightarrow> 's list \<Rightarrow> bool \<times> 's list" where
  "limit_all ops e [] = (False, [])"
| "limit_all ops e (r # rs) =
     (let (limited, r') = Limit ops e r
      in if limited then (True, r' # rs)
         else let (l, rs') = limit_all ops e rs in (l, r' # rs'))"

definition admit :: "'s regulator_ops \<Rightarrow> env \<Rightarrow> MetricReading \<Rightarrow> 's list \<Rightarrow> bool \<times> 's list" where
  "admit ops e reading rs = limit_all ops e (map (Observe ops e reading) rs)"

definition renormalize_all :: "'s regulator_ops \<Rightarrow> env \<Rightarrow> 's list \<Rightarrow> 's list" where
  "renormalize_all ops e rs = map (Renormalize ops e) rs"

lemma length_limit_all [simp]: "length (snd (limit_all ops e rs)) = length rs"
  by (induction rs) (auto split: prod.splits)

text \<open>The verdict, and how far the loop got: the regulators after the one that rejects are untouched.\<close>

lemma limit_all_verdict:
  "fst (limit_all ops e rs) \<longleftrightarrow> (\<exists>r\<in>set rs. fst (Limit ops e r))"
  by (induction rs) (auto split: prod.splits)

lemma limit_all_split:
  assumes "\<forall>r\<in>set xs. \<not> fst (Limit ops e r)" "fst (Limit ops e r)"
  shows "limit_all ops e (xs @ r # ys) =
           (True, map (snd \<circ> Limit ops e) xs @ snd (Limit ops e r) # ys)"
  using assms by (induction xs) (simp_all add: case_prod_unfold)

lemma limit_all_none:
  assumes "\<forall>r\<in>set rs. \<not> fst (Limit ops e r)"
  shows "limit_all ops e rs = (False, map (snd \<circ> Limit ops e) rs)"
  using assms by (induction rs) (simp_all add: case_prod_unfold)

text \<open>What the pool relies on: an invariant that the three operations keep.\<close>

locale regulator =
  fixes ops :: "'s regulator_ops" and inv :: "'s \<Rightarrow> bool"
  assumes inv_observe: "inv s \<Longrightarrow> reading_ok reading \<Longrightarrow> inv (Observe ops e reading s)"
    and inv_limit: "inv s \<Longrightarrow> inv (snd (Limit ops e s))"
    and inv_renormalize: "inv s \<Longrightarrow> inv (Renormalize ops e s)"
begin

lemma limit_all_inv: "list_all inv rs \<Longrightarrow> list_all inv (snd (limit_all ops e rs))"
proof (induction rs)
  case (Cons r rs)
  then show ?case using inv_limit [of r e] by (auto split: prod.splits)
qed simp

lemma admit_inv:
  "list_all inv rs \<Longrightarrow> reading_ok reading \<Longrightarrow> list_all inv (snd (admit ops e reading rs))"
  unfolding admit_def by (intro limit_all_inv) (auto simp: list_all_iff inv_observe)

lemma renormalize_all_inv: "list_all inv rs \<Longrightarrow> list_all inv (renormalize_all ops e rs)"
  by (auto simp: renormalize_all_def list_all_iff inv_renormalize)

end

end
