(* ===== verification/Cas_Loop.thy ===== *)
theory Cas_Loop
  imports Prelude
begin

text \<open>
  The atomic cells of the source under any interleaving. Every counter of qpool is an atomic
  variable accessed in one of two ways: a single read-modify-write (\<^verbatim>\<open>Add\<close>, \<^verbatim>\<open>Store\<close>, \<^verbatim>\<open>Swap\<close>) or
  the retry loop
  \<^verbatim>\<open>
    for {
        cur := cell.Load()
        if stop(cur) { return r }
        if cell.CompareAndSwap(cur, next(cur)) { return r' }
    }
  \<close>
  The step relation below runs any number of goroutines over one cell, with the load and the
  compare-and-swap as separate steps. It records each completed operation with its result, in
  the order of its effective step. The locale shows once that every reachable state is the
  state of a run of whole operations in that order, so a property of one uninterrupted
  operation holds under every interleaving; the components interpret it on their own cells.
\<close>

text \<open>The body of a retry loop on the value it loaded: \<open>Inl\<close> returns, \<open>Inr\<close> tries to swap.\<close>

datatype ('s, 'r) access =
    Cas "'s \<Rightarrow> 'r + 's \<times> 'r"
  | Rmw "'s \<Rightarrow> 's \<times> 'r"

text \<open>The access run without interference.\<close>

fun atomically :: "('s, 'r) access \<Rightarrow> 's \<Rightarrow> 's \<times> 'r" where
  "atomically (Cas f) v = (case f v of Inl r \<Rightarrow> (v, r) | Inr (v', r) \<Rightarrow> (v', r))"
| "atomically (Rmw f) v = f v"

datatype ('op, 's) cas_pc = Idle | Started 'op | Loaded 'op 's

record ('op, 's, 'r) cas_sys =
  cell :: 's
  threads :: "nat \<Rightarrow> ('op, 's) cas_pc"
  completed :: "('op \<times> 'r) list"

definition cas_init :: "'s \<Rightarrow> ('op, 's, 'r) cas_sys" where
  "cas_init v = \<lparr>cell = v, threads = (\<lambda>_. Idle), completed = []\<rparr>"

inductive cas_step ::
  "('op \<Rightarrow> ('s, 'r) access) \<Rightarrow> ('op, 's, 'r) cas_sys \<Rightarrow> ('op, 's, 'r) cas_sys \<Rightarrow> bool"
  for code :: "'op \<Rightarrow> ('s, 'r) access" where
  call: "threads s i = Idle \<Longrightarrow>
     cas_step code s (s\<lparr>threads := (threads s)(i := Started op)\<rparr>)"
| rmw: "threads s i = Started op \<Longrightarrow> code op = Rmw f \<Longrightarrow> f (cell s) = (v, r) \<Longrightarrow>
     cas_step code s (s\<lparr>cell := v, threads := (threads s)(i := Idle), completed := completed s @ [(op, r)]\<rparr>)"
| load_return: "threads s i = Started op \<Longrightarrow> code op = Cas f \<Longrightarrow> f (cell s) = Inl r \<Longrightarrow>
     cas_step code s (s\<lparr>threads := (threads s)(i := Idle), completed := completed s @ [(op, r)]\<rparr>)"
| load_try: "threads s i = Started op \<Longrightarrow> code op = Cas f \<Longrightarrow> f (cell s) = Inr x \<Longrightarrow>
     cas_step code s (s\<lparr>threads := (threads s)(i := Loaded op (cell s))\<rparr>)"
| cas_ok: "threads s i = Loaded op v \<Longrightarrow> code op = Cas f \<Longrightarrow> cell s = v \<Longrightarrow> f v = Inr (v', r) \<Longrightarrow>
     cas_step code s (s\<lparr>cell := v', threads := (threads s)(i := Idle), completed := completed s @ [(op, r)]\<rparr>)"
| cas_fail: "threads s i = Loaded op v \<Longrightarrow> cell s \<noteq> v \<Longrightarrow>
     cas_step code s (s\<lparr>threads := (threads s)(i := Started op)\<rparr>)"

inductive cas_reachable ::
  "('op \<Rightarrow> ('s, 'r) access) \<Rightarrow> 's \<Rightarrow> ('op, 's, 'r) cas_sys \<Rightarrow> bool"
  for code :: "'op \<Rightarrow> ('s, 'r) access" and v0 :: 's where
  cas_start: "cas_reachable code v0 (cas_init v0)"
| cas_next: "cas_reachable code v0 s \<Longrightarrow> cas_step code s t \<Longrightarrow> cas_reachable code v0 t"

text \<open>Whole operations, one after the other: the final value, if the results are the recorded ones.\<close>

fun serial_run :: "('op \<Rightarrow> ('s, 'r) access) \<Rightarrow> 's \<Rightarrow> ('op \<times> 'r) list \<Rightarrow> 's option" where
  "serial_run code v [] = Some v"
| "serial_run code v ((op, r) # h) =
     (let (v', r') = atomically (code op) v in if r' = r then serial_run code v' h else None)"

lemma serial_run_append:
  "serial_run code v (h @ h') =
     (case serial_run code v h of None \<Rightarrow> None | Some v' \<Rightarrow> serial_run code v' h')"
  by (induction code v h rule: serial_run.induct) (auto split: prod.splits)

lemma serial_run_snoc:
  "serial_run code v h = Some w \<Longrightarrow> atomically (code op) w = (w', r) \<Longrightarrow>
   serial_run code v (h @ [(op, r)]) = Some w'"
  by (simp add: serial_run_append)

text \<open>An executable scheduler: a schedule names the goroutine that moves next.\<close>

datatype 'op sched = Begin nat 'op | Advance nat

fun cas_move :: "('op \<Rightarrow> ('s, 'r) access) \<Rightarrow> 'op sched \<Rightarrow> ('op, 's, 'r) cas_sys \<Rightarrow> ('op, 's, 'r) cas_sys" where
  "cas_move code (Begin i op) s =
     (case threads s i of Idle \<Rightarrow> s\<lparr>threads := (threads s)(i := Started op)\<rparr> | _ \<Rightarrow> s)"
| "cas_move code (Advance i) s =
     (case threads s i of
        Idle \<Rightarrow> s
      | Started op \<Rightarrow>
          (case code op of
             Rmw f \<Rightarrow> (case f (cell s) of (v, r) \<Rightarrow>
               s\<lparr>cell := v, threads := (threads s)(i := Idle), completed := completed s @ [(op, r)]\<rparr>)
           | Cas f \<Rightarrow> (case f (cell s) of
               Inl r \<Rightarrow> s\<lparr>threads := (threads s)(i := Idle), completed := completed s @ [(op, r)]\<rparr>
             | Inr _ \<Rightarrow> s\<lparr>threads := (threads s)(i := Loaded op (cell s))\<rparr>))
      | Loaded op v \<Rightarrow>
          (if cell s = v
           then case code op of
                  Rmw f \<Rightarrow> s
                | Cas f \<Rightarrow> (case f v of
                    Inl r \<Rightarrow> s
                  | Inr (v', r) \<Rightarrow>
                      s\<lparr>cell := v', threads := (threads s)(i := Idle), completed := completed s @ [(op, r)]\<rparr>)
           else s\<lparr>threads := (threads s)(i := Started op)\<rparr>))"

definition cas_exec :: "('op \<Rightarrow> ('s, 'r) access) \<Rightarrow> 's \<Rightarrow> 'op sched list \<Rightarrow> ('op, 's, 'r) cas_sys" where
  "cas_exec code v0 ms = fold (cas_move code) ms (cas_init v0)"

lemma cas_move_step: "cas_move code m s = s \<or> cas_step code s (cas_move code m s)"
proof (cases m)
  case (Begin i op)
  then show ?thesis by (auto split: cas_pc.splits intro: cas_step.call)
next
  case (Advance i)
  then show ?thesis
    by (auto split: cas_pc.splits access.splits sum.splits prod.splits
        intro: cas_step.rmw cas_step.load_return cas_step.load_try cas_step.cas_ok cas_step.cas_fail)
qed

lemma cas_exec_reachable: "cas_reachable code v0 (cas_exec code v0 ms)"
proof -
  have "cas_reachable code v0 s \<Longrightarrow> cas_reachable code v0 (fold (cas_move code) ms s)" for s
  proof (induction ms arbitrary: s)
    case (Cons m ms)
    have "cas_reachable code v0 (cas_move code m s)"
      using cas_move_step [of code m s] Cons.prems by (auto intro: cas_next)
    then show ?case by (simp add: Cons.IH)
  qed simp
  then show ?thesis by (simp add: cas_exec_def cas_start)
qed

locale cas_object =
  fixes code :: "'op \<Rightarrow> ('s, 'r) access" and v0 :: 's and inv :: "'s \<Rightarrow> bool"
  assumes inv_init: "inv v0"
    and inv_atomic: "inv v \<Longrightarrow> inv (fst (atomically (code op) v))"
begin

lemma linearizable: "cas_reachable code v0 s \<Longrightarrow> serial_run code v0 (completed s) = Some (cell s)"
proof (induction rule: cas_reachable.induct)
  case cas_start
  show ?case by (simp add: cas_init_def)
next
  case (cas_next s t)
  from cas_next.hyps(2) show ?case
    by (cases rule: cas_step.cases) (use cas_next.IH in \<open>auto intro!: serial_run_snoc\<close>)
qed

lemma serial_inv: "inv v \<Longrightarrow> serial_run code v h = Some w \<Longrightarrow> inv w"
proof (induction h arbitrary: v)
  case (Cons x h)
  obtain op r where x: "x = (op, r)" by (cases x)
  obtain v' r' where a: "atomically (code op) v = (v', r')" by (cases "atomically (code op) v")
  from Cons.prems(2) have "serial_run code v' h = Some w" by (simp add: x a split: if_splits)
  moreover from inv_atomic [OF Cons.prems(1), of op] have "inv v'" by (simp add: a)
  ultimately show ?case by (rule Cons.IH [rotated])
qed simp

lemma cell_inv: "cas_reachable code v0 s \<Longrightarrow> inv (cell s)"
  using linearizable serial_inv inv_init by blast

end

end
