(* ===== verification/Metrics.thy ===== *)
theory Metrics
  imports Regulator Cas_Loop
begin

text \<open>
  \<^verbatim>\<open>metrics.go\<close>: the atomic counters of the pool. The first part models every operation run
  without interference, with the widths of the source: \<^verbatim>\<open>atomic.Int64\<close> counters wrap as signed,
  \<^verbatim>\<open>atomic.Uint64\<close> ones are words. The bits of a \<^verbatim>\<open>float64\<close> are stored as the value itself.
  The second part runs the worker counter and the latency maximum under any interleaving.
\<close>

record Metrics =
  workerCount :: int
  busyWorkers :: int
  jobQueueDepth :: int
  schedulingFailures :: int
  jobCount :: int
  failureCount :: int
  totalLatencyNs :: u64
  maxLatencyNs :: u64
  rateLimitHits :: int
  throttledJobs :: int
  lastScaleUnixNano :: int
  resourceUtilBits :: f64

definition NewMetrics :: Metrics where
  "NewMetrics = \<lparr>workerCount = 0, busyWorkers = 0, jobQueueDepth = 0, schedulingFailures = 0,
     jobCount = 0, failureCount = 0, totalLatencyNs = 0, maxLatencyNs = 0, rateLimitHits = 0,
     throttledJobs = 0, lastScaleUnixNano = 0, resourceUtilBits = Fin 0\<rparr>"

definition success_rate :: "int \<Rightarrow> int \<Rightarrow> f64" where
  "success_rate jc fc =
     (if 0 < jc
      then math_Max (Fin 0) (math_Min (Fin 1) (f_div (f_of_int (wrap64 (jc - fc))) (f_of_int jc)))
      else Fin 0)"

definition CollectReading :: "Metrics \<Rightarrow> MetricReading" where
  "CollectReading m =
     (let jc = jobCount m;
          fc = (if failureCount m > jc then jc else failureCount m);
          totalNs = totalLatencyNs m;
          avg = (if 0 < jc then sint (totalNs div word_of_int jc) else 0);
          wc = workerCount m;
          busy = (if busyWorkers m > wc then wc else busyWorkers m);
          busy' = (if busy < 0 then 0 else busy)
      in \<lparr>WorkerCount = wc, BusyWorkers = busy', JobQueueSize = jobQueueDepth m,
          AverageJobLatency = avg, P95JobLatency = 0, P99JobLatency = 0,
          JobSuccessRate = success_rate jc fc, ResourceUtilization = resourceUtilBits m,
          TotalJobs = jc, FailedJobs = fc, SchedulingFailures = schedulingFailures m,
          RateLimitHits = rateLimitHits m, ThrottledJobs = throttledJobs m\<rparr>)"

text \<open>\<^verbatim>\<open>ExportMetrics\<close>: the map as an association list; a value is an integer or a \<^verbatim>\<open>float64\<close>.\<close>

datatype export_value = EInt int | EFloat f64

definition Milliseconds :: "int \<Rightarrow> int" where
  "Milliseconds d = quot64 d millisecond"

definition ExportMetrics :: "Metrics \<Rightarrow> (string \<times> export_value) list" where
  "ExportMetrics m =
     (let r = CollectReading m
      in [(''worker_count'', EInt (WorkerCount r)),
          (''busy_workers'', EInt (BusyWorkers r)),
          (''queue_size'', EInt (JobQueueSize r)),
          (''success_rate'', EFloat (JobSuccessRate r)),
          (''avg_latency_ms'', EInt (Milliseconds (AverageJobLatency r))),
          (''max_latency_ms'', EInt (Milliseconds (sint (maxLatencyNs m)))),
          (''p95_latency_ms'', EInt (Milliseconds (P95JobLatency r))),
          (''p99_latency_ms'', EInt (Milliseconds (P99JobLatency r))),
          (''resource_utilization'', EFloat (ResourceUtilization r)),
          (''last_scale_unix_nano'', EInt (lastScaleUnixNano m))])"

definition decWorkerCount :: "Metrics \<Rightarrow> Metrics" where
  "decWorkerCount m = m\<lparr>workerCount := wrap64 (workerCount m - 1)\<rparr>"

definition incBusyWorker :: "Metrics \<Rightarrow> Metrics" where
  "incBusyWorker m = m\<lparr>busyWorkers := wrap64 (busyWorkers m + 1)\<rparr>"

definition decBusyWorker :: "Metrics \<Rightarrow> Metrics" where
  "decBusyWorker m = m\<lparr>busyWorkers := wrap64 (busyWorkers m - 1)\<rparr>"

text \<open>The body of the loop of \<^verbatim>\<open>tryIncWorkerIfBelow\<close> on the value it loaded.\<close>

definition try_inc_body :: "int \<Rightarrow> int \<Rightarrow> bool + int \<times> bool" where
  "try_inc_body mx cur = (if mx \<le> cur then Inl False else Inr (wrap64 (cur + 1), True))"

definition tryIncWorkerIfBelow :: "int \<Rightarrow> Metrics \<Rightarrow> bool \<times> Metrics" where
  "tryIncWorkerIfBelow mx m =
     (case try_inc_body mx (workerCount m) of
        Inl r \<Rightarrow> (r, m)
      | Inr (v, r) \<Rightarrow> (r, m\<lparr>workerCount := v\<rparr>))"

definition incJobQueued :: "Metrics \<Rightarrow> Metrics" where
  "incJobQueued m = m\<lparr>jobQueueDepth := wrap64 (jobQueueDepth m + 1)\<rparr>"

definition decJobQueued :: "Metrics \<Rightarrow> Metrics" where
  "decJobQueued m = m\<lparr>jobQueueDepth := wrap64 (jobQueueDepth m - 1)\<rparr>"

definition incSchedulingFailure :: "Metrics \<Rightarrow> Metrics" where
  "incSchedulingFailure m = m\<lparr>schedulingFailures := wrap64 (schedulingFailures m + 1)\<rparr>"

definition incThrottled :: "Metrics \<Rightarrow> Metrics" where
  "incThrottled m = m\<lparr>throttledJobs := wrap64 (throttledJobs m + 1)\<rparr>"

text \<open>The body of the loop that keeps the maximal latency.\<close>

definition max_latency_body :: "u64 \<Rightarrow> u64 \<Rightarrow> unit + u64 \<times> unit" where
  "max_latency_body ns cur = (if ns \<le> cur then Inl () else Inr (ns, ()))"

definition latency_ns :: "int \<Rightarrow> u64" where
  "latency_ns latency = word_of_int (if latency < 0 then 0 else latency)"

definition RecordJobOutcome :: "int \<Rightarrow> bool \<Rightarrow> Metrics \<Rightarrow> Metrics" where
  "RecordJobOutcome latency success m =
     (let m1 = m\<lparr>jobCount := wrap64 (jobCount m + 1)\<rparr>;
          m2 = (if success then m1 else m1\<lparr>failureCount := wrap64 (failureCount m1 + 1)\<rparr>);
          ns = latency_ns latency;
          m3 = m2\<lparr>totalLatencyNs := totalLatencyNs m2 + ns\<rparr>
      in case max_latency_body ns (maxLatencyNs m3) of
           Inl _ \<Rightarrow> m3
         | Inr (v, _) \<Rightarrow> m3\<lparr>maxLatencyNs := v\<rparr>)"

definition RecordJobSuccess :: "int \<Rightarrow> Metrics \<Rightarrow> Metrics" where
  "RecordJobSuccess latency m = RecordJobOutcome latency True m"

definition RecordJobFailure :: "Metrics \<Rightarrow> Metrics" where
  "RecordJobFailure m =
     m\<lparr>jobCount := wrap64 (jobCount m + 1), failureCount := wrap64 (failureCount m + 1)\<rparr>"

definition RecordJobExecution :: "int \<Rightarrow> int \<Rightarrow> bool \<Rightarrow> Metrics \<Rightarrow> Metrics" where
  "RecordJobExecution now startTime success m = RecordJobOutcome (since now startTime) success m"

definition SetResourceUtilization :: "f64 \<Rightarrow> Metrics \<Rightarrow> Metrics" where
  "SetResourceUtilization u m =
     m\<lparr>resourceUtilBits :=
        (if u = NaN then Fin 0 else math_Max (Fin 0) (math_Min (Fin 1) u))\<rparr>"

definition NoteLastScale :: "int \<Rightarrow> Metrics \<Rightarrow> Metrics" where
  "NoteLastScale t m = m\<lparr>lastScaleUnixNano := t\<rparr>"

section \<open>Readings\<close>

lemma clamp_unit:
  "x \<noteq> NaN \<Longrightarrow> \<exists>r. math_Max (Fin 0) (math_Min (Fin 1) x) = Fin r \<and> 0 \<le> r \<and> r \<le> 1"
  by (cases x) (auto simp: math_Max_def math_Min_def f_max_def f_min_def)

lemma rnd_not_NaN [simp]: "rnd x \<noteq> NaN"
  by (simp add: rnd_def Let_def)

lemma success_rate_unit:
  assumes "in64 jc"
  shows "\<exists>r. success_rate jc fc = Fin r \<and> 0 \<le> r \<and> r \<le> 1"
proof (cases "0 < jc")
  case True
  have "(1::rat) \<le> round53 (of_int jc)" using True round53_mono [of 1 "of_int jc"] by simp
  then have "f_div (f_of_int (wrap64 (jc - fc))) (f_of_int jc) \<noteq> NaN"
    using assms by (simp add: f_of_int_Fin)
  from clamp_unit [OF this] show ?thesis using True by (simp add: success_rate_def)
qed (simp add: success_rate_def)

definition metrics_wf :: "Metrics \<Rightarrow> bool" where
  "metrics_wf m \<longleftrightarrow> in64 (workerCount m) \<and> in64 (busyWorkers m) \<and> in64 (jobQueueDepth m) \<and>
     in64 (schedulingFailures m) \<and> in64 (jobCount m) \<and> in64 (failureCount m) \<and>
     in64 (rateLimitHits m) \<and> in64 (throttledJobs m) \<and>
     (\<exists>r. resourceUtilBits m = Fin r \<and> 0 \<le> r \<and> r \<le> 1)"

datatype metrics_op =
    OpDecWorker | OpIncBusy | OpDecBusy | OpTryInc int | OpIncQueued | OpDecQueued
  | OpSchedFailure | OpThrottled | OpOutcome int bool | OpFailure | OpSetUtil f64 | OpScale int

fun metrics_apply :: "metrics_op \<Rightarrow> Metrics \<Rightarrow> Metrics" where
  "metrics_apply OpDecWorker m = decWorkerCount m"
| "metrics_apply OpIncBusy m = incBusyWorker m"
| "metrics_apply OpDecBusy m = decBusyWorker m"
| "metrics_apply (OpTryInc mx) m = snd (tryIncWorkerIfBelow mx m)"
| "metrics_apply OpIncQueued m = incJobQueued m"
| "metrics_apply OpDecQueued m = decJobQueued m"
| "metrics_apply OpSchedFailure m = incSchedulingFailure m"
| "metrics_apply OpThrottled m = incThrottled m"
| "metrics_apply (OpOutcome l b) m = RecordJobOutcome l b m"
| "metrics_apply OpFailure m = RecordJobFailure m"
| "metrics_apply (OpSetUtil u) m = SetResourceUtilization u m"
| "metrics_apply (OpScale t) m = NoteLastScale t m"

lemmas metrics_op_defs [go_defs] =
  decWorkerCount_def incBusyWorker_def decBusyWorker_def tryIncWorkerIfBelow_def incJobQueued_def
  decJobQueued_def incSchedulingFailure_def incThrottled_def RecordJobOutcome_def
  RecordJobFailure_def SetResourceUtilization_def NoteLastScale_def try_inc_body_def
  max_latency_body_def

lemma NewMetrics_wf: "metrics_wf NewMetrics"
  by (simp add: metrics_wf_def NewMetrics_def in64_def)

lemma metrics_apply_wf [inv_intros]: "metrics_wf m \<Longrightarrow> metrics_wf (metrics_apply op m)"
  using clamp_unit
  by (cases op) (auto simp: metrics_wf_def metrics_op_defs Let_def)

lemma CollectReading_ok: "metrics_wf m \<Longrightarrow> reading_ok (CollectReading m)"
proof -
  assume "metrics_wf m"
  moreover have "in64 (sint w)" for w :: u64
    using sint_range_size [of w] by (simp add: in64_def size_word.rep_eq)
  ultimately show ?thesis
    by (auto simp: reading_ok_def CollectReading_def metrics_wf_def Let_def in64_between [of 0 "workerCount m"])
qed

text \<open>After any sequence of metric updates the reading handed to the regulators is
  consistent: the success rate is a finite number in \<open>[0, 1]\<close>, the failures do not exceed the
  jobs, the busy workers lie between zero and the worker count (zero when that is negative),
  and the utilisation is in \<open>[0, 1]\<close>.\<close>

theorem CollectReading_consistent:
  "let r = CollectReading (fold metrics_apply ops NewMetrics)
   in (\<exists>q. JobSuccessRate r = Fin q \<and> 0 \<le> q \<and> q \<le> 1) \<and> FailedJobs r \<le> TotalJobs r \<and>
      0 \<le> BusyWorkers r \<and> BusyWorkers r \<le> max 0 (WorkerCount r) \<and>
      (\<exists>q. ResourceUtilization r = Fin q \<and> 0 \<le> q \<and> q \<le> 1)"
proof -
  define m where "m = fold metrics_apply ops NewMetrics"
  have "metrics_wf m" unfolding m_def
    by (rule fold_invariant [where Q = "\<lambda>_. True"]) (auto intro: NewMetrics_wf metrics_apply_wf)
  then have wf: "in64 (jobCount m)" "\<exists>r. resourceUtilBits m = Fin r \<and> 0 \<le> r \<and> r \<le> 1"
    by (auto simp: metrics_wf_def)
  from success_rate_unit [OF wf(1)] wf(2) show ?thesis
    by (auto simp: CollectReading_def Let_def simp flip: m_def)
qed

section \<open>Outcomes of a sequence of jobs\<close>

definition record_all :: "(int \<times> bool) list \<Rightarrow> Metrics \<Rightarrow> Metrics" where
  "record_all os m = fold (\<lambda>(l, b). RecordJobOutcome l b) os m"

lemma record_all_snoc: "record_all (os @ [(l, b)]) m = RecordJobOutcome l b (record_all os m)"
  by (simp add: record_all_def)

lemma uint_word_of_int_small: "0 \<le> x \<Longrightarrow> x < 2 ^ 63 \<Longrightarrow> uint (word_of_int x :: u64) = x"
  by (simp add: uint_word_of_int)

lemma word_of_int_le_iff:
  "0 \<le> x \<Longrightarrow> x < 2 ^ 63 \<Longrightarrow> 0 \<le> y \<Longrightarrow> y < 2 ^ 63 \<Longrightarrow> (word_of_int x :: u64) \<le> word_of_int y \<longleftrightarrow> x \<le> y"
  by (simp add: word_le_def uint_word_of_int_small)

lemma record_all_counts:
  "int (length os) < 2 ^ 63 \<Longrightarrow>
   jobCount (record_all os NewMetrics) = int (length os) \<and>
   failureCount (record_all os NewMetrics) = int (length (filter (\<lambda>(l, b). \<not> b) os))"
proof (induction os rule: rev_induct)
  case Nil
  then show ?case by (simp add: record_all_def NewMetrics_def)
next
  case (snoc x os)
  obtain l b where x: "x = (l, b)" by (cases x)
  have "int (length (filter (\<lambda>(l, b). \<not> b) os)) + 1 < 2 ^ 63"
    using length_filter_le [of "\<lambda>(l, b). \<not> b" os] snoc.prems unfolding length_append list.size by linarith
  with snoc show ?case
    by (auto simp: x record_all_snoc RecordJobOutcome_def max_latency_body_def Let_def in64_def)
qed

lemma record_all_latency:
  "\<forall>(l, b)\<in>set os. l < 2 ^ 63 \<Longrightarrow>
   totalLatencyNs (record_all os NewMetrics) = word_of_int (\<Sum>(l, b)\<leftarrow>os. max 0 l) \<and>
   (\<exists>mx. maxLatencyNs (record_all os NewMetrics) = word_of_int mx \<and> 0 \<le> mx \<and> mx < 2 ^ 63 \<and>
      (\<forall>(l, b)\<in>set os. l \<le> mx) \<and> (mx = 0 \<or> (\<exists>b. (mx, b) \<in> set os)))"
proof (induction os rule: rev_induct)
  case Nil
  then show ?case by (auto simp: record_all_def NewMetrics_def intro!: exI [of _ 0])
next
  case (snoc x os)
  obtain l b where x: "x = (l, b)" by (cases x)
  from snoc obtain mx where mx: "maxLatencyNs (record_all os NewMetrics) = word_of_int mx"
    "0 \<le> mx" "mx < 2 ^ 63" "\<forall>(l, b)\<in>set os. l \<le> mx" "mx = 0 \<or> (\<exists>b. (mx, b) \<in> set os)"
    by auto
  have l: "l < 2 ^ 63" using snoc.prems by (simp add: x)
  have lat: "latency_ns l = word_of_int (max 0 l)" by (simp add: latency_ns_def max_def)
  have le: "(word_of_int (max 0 l) :: u64) \<le> word_of_int mx \<longleftrightarrow> max 0 l \<le> mx"
    using l mx by (intro word_of_int_le_iff) auto
  have total: "totalLatencyNs (record_all (os @ [x]) NewMetrics) = word_of_int (\<Sum>(l, b)\<leftarrow>os @ [x]. max 0 l)"
    using snoc by (auto simp: x record_all_snoc RecordJobOutcome_def max_latency_body_def Let_def lat)
  have new: "maxLatencyNs (record_all (os @ [x]) NewMetrics) = word_of_int (if max 0 l \<le> mx then mx else l)"
    using mx(1,2) le by (auto simp: x record_all_snoc RecordJobOutcome_def max_latency_body_def Let_def lat max_def)
  show ?case
  proof (intro conjI total exI [of _ "if max 0 l \<le> mx then mx else l"] new)
  qed (use mx l in \<open>auto simp: x\<close>)
qed

text \<open>After \<open>n > 0\<close> recorded outcomes the reading reports exactly \<open>n\<close> jobs, the number of
  failed ones and the truncated mean of the latencies (negative ones counting as zero), as long
  as the sum fits into an \<^verbatim>\<open>int64\<close>; and the stored maximum is the largest recorded latency.\<close>

theorem outcomes_reading:
  assumes "os \<noteq> []" "int (length os) < 2 ^ 63" "(\<Sum>(l, b)\<leftarrow>os. max 0 l) < 2 ^ 63"
    "\<forall>(l, b)\<in>set os. l < 2 ^ 63"
  shows "let m = record_all os NewMetrics; r = CollectReading m
         in TotalJobs r = int (length os) \<and>
            FailedJobs r = int (length (filter (\<lambda>(l, b). \<not> b) os)) \<and>
            AverageJobLatency r = (\<Sum>(l, b)\<leftarrow>os. max 0 l) div int (length os) \<and>
            uint (maxLatencyNs m) = (MAX (l, b)\<in>set os. max 0 l)"
proof -
  define m where "m = record_all os NewMetrics"
  define n where "n = int (length os)"
  define t where "t = (\<Sum>(l, b)\<leftarrow>os. max 0 l)"
  have n: "0 < n" "n < 2 ^ 63" using assms by (auto simp: n_def)
  have t: "0 \<le> t" "t < 2 ^ 63" using assms(3) by (auto simp: t_def intro!: sum_list_nonneg)
  have counts: "jobCount m = n" "failureCount m = int (length (filter (\<lambda>(l, b). \<not> b) os))"
    using record_all_counts [OF assms(2)] by (auto simp: m_def n_def)
  have fle: "failureCount m \<le> n" by (simp add: counts n_def length_filter_le)
  obtain mx where mx: "totalLatencyNs m = word_of_int t" "maxLatencyNs m = word_of_int mx"
    "0 \<le> mx" "mx < 2 ^ 63" "\<forall>(l, b)\<in>set os. l \<le> mx" "mx = 0 \<or> (\<exists>b. (mx, b) \<in> set os)"
    using record_all_latency [OF assms(4)] by (auto simp: m_def t_def)
  have "uint (word_of_int t div word_of_int n :: u64) = t div n"
    using n t by (simp add: uint_div uint_word_of_int_small)
  moreover have "t div n \<le> t" using t n by (simp add: div_by_0 zdiv_mono2 [of t 1 n, simplified])
  ultimately have avg: "sint (word_of_int t div word_of_int n :: u64) = t div n"
    using t n by (simp add: sint_uint signed_take_bit_int_eq_self_iff pos_imp_zdiv_nonneg_iff order_trans [of _ 0])
  have "(MAX (l, b)\<in>set os. max 0 l) = mx"
  proof (rule Max_eqI)
    show "mx \<in> (\<lambda>(l, b). max 0 l) ` set os"
      using mx(3,5,6) assms(1) by (cases os) (force simp: image_iff)+
  qed (use mx in auto)
  then show ?thesis
    using counts fle n avg mx(1,2,3,4)
    by (simp add: CollectReading_def Let_def uint_word_of_int_small flip: m_def n_def t_def)
qed

theorem outcomes_reading_witness:
  "(\<Sum>(l, b)\<leftarrow>[(7, True), (-3, False), (4, True)]. max 0 l) < (2::int) ^ 63 \<and>
   AverageJobLatency (CollectReading (record_all [(7, True), (-3, False), (4, True)] NewMetrics)) = 3"
  using outcomes_reading [of "[(7, True), (-3, False), (4, True)]"] by (simp add: Let_def)

text \<open>\<^verbatim>\<open>RecordJobFailure\<close> leaves the total latency but raises the number of jobs by which it is divided, so it lowers the average. The counter of rate limit
  hits is only read: whatever is recorded, it is zero.\<close>

lemma failure_lowers_average:
  "AverageJobLatency (CollectReading (RecordJobSuccess 8 NewMetrics)) = 8"
  "AverageJobLatency (CollectReading (RecordJobFailure (RecordJobSuccess 8 NewMetrics))) = 4"
  by (simp_all add: CollectReading_def RecordJobSuccess_def RecordJobFailure_def RecordJobOutcome_def max_latency_body_def latency_ns_def NewMetrics_def
      in64_def Let_def quot64_def)

lemma rate_limit_hits_zero: "RateLimitHits (CollectReading (fold metrics_apply ops NewMetrics)) = 0"
proof -
  have "rateLimitHits (metrics_apply op m) = rateLimitHits m" for op m by (cases op) (auto simp: metrics_op_defs Let_def split: sum.split)
  then have "rateLimitHits (fold metrics_apply ops m) = rateLimitHits m" for m by (induction ops arbitrary: m) simp_all
  then show ?thesis by (simp add: CollectReading_def Let_def) (simp add: NewMetrics_def)
qed

section \<open>The worker counter under any interleaving\<close>

datatype worker_op = TryInc | DecWorker

fun worker_code :: "int \<Rightarrow> worker_op \<Rightarrow> (int, bool) access" where
  "worker_code mx TryInc = Cas (try_inc_body mx)"
| "worker_code mx DecWorker = Rmw (\<lambda>v. (wrap64 (v - 1), True))"

lemma worker_code_in64:
  "in64 v \<Longrightarrow> in64 (fst (atomically (worker_code mx op) v))"
  by (cases op) (auto simp: try_inc_body_def)

interpretation worker_cell: cas_object "worker_code mx" 0 in64
  by unfold_locales (rule in64_small, simp_all add: worker_code_in64)

abbreviation decs :: "(worker_op \<times> bool) list \<Rightarrow> nat" where
  "decs h \<equiv> length (filter (\<lambda>(op, r). op = DecWorker) h)"

abbreviation incs :: "(worker_op \<times> bool) list \<Rightarrow> nat" where
  "incs h \<equiv> length (filter (\<lambda>(op, r). op = TryInc \<and> r) h)"

lemma worker_serial:
  assumes "serial_run (worker_code mx) v h = Some w" "v \<le> mx" "in64 mx" "- (2 ^ 62) \<le> v - int (decs h)"
  shows "w \<le> mx \<and> w = v + int (incs h) - int (decs h)"
  using assms
proof (induction h arbitrary: v)
  case (Cons x h)
  obtain op r where x: "x = (op, r)" by (cases x)
  show ?case
  proof (cases op)
    case TryInc
    show ?thesis
    proof (cases "mx \<le> v")
      case True
      with Cons TryInc x show ?thesis by (auto simp: try_inc_body_def split: if_splits)
    next
      case False
      then have "in64 (v + 1)" using Cons.prems(3,4) by (simp add: in64_def)
      with False Cons.prems TryInc x Cons.IH [of "v + 1"] show ?thesis
        by (auto simp: try_inc_body_def split: if_splits)
    qed
  next
    case DecWorker
    then have "in64 (v - 1)" using Cons.prems(2,3,4) by (simp add: in64_def x)
    with Cons.prems DecWorker x Cons.IH [of "v - 1"] show ?thesis
      by (auto split: if_splits)
  qed
qed simp

text \<open>However the goroutines that start and retire workers interleave, the worker counter
  never exceeds the maximum that \<^verbatim>\<open>tryIncWorkerIfBelow\<close> is given, and it equals the successful
  increments minus the decrements: no update is lost. (Up to \<open>2 ^ 62\<close> decrements, after which the
  64-bit counter could wrap.)\<close>

theorem worker_count_bounded:
  assumes "cas_reachable (worker_code mx) 0 s" "0 \<le> mx" "in64 mx" "decs (completed s) \<le> 2 ^ 62"
  shows "cell s \<le> mx \<and> cell s = int (incs (completed s)) - int (decs (completed s))"
proof -
  from worker_cell.linearizable [OF assms(1)]
  have "serial_run (worker_code mx) 0 (completed s) = Some (cell s)" .
  moreover have "int (decs (completed s)) \<le> int (2 ^ 62)" using assms(4) unfolding of_nat_le_iff .
  ultimately show ?thesis using worker_serial [of mx 0 "completed s" "cell s"] assms by simp
qed

theorem worker_count_bounded_witness:
  "let s = cas_exec (worker_code 1) 0
             [Begin 0 TryInc, Begin 1 TryInc, Advance 0, Advance 1, Advance 1, Advance 0, Advance 0]
   in cas_reachable (worker_code 1) 0 s \<and> cell s \<le> 1 \<and> completed s = [(TryInc, True), (TryInc, False)]"
proof -
  define s where "s = cas_exec (worker_code 1) 0
     [Begin 0 TryInc, Begin 1 TryInc, Advance 0, Advance 1, Advance 1, Advance 0, Advance 0]"
  have r: "cas_reachable (worker_code 1) 0 s" unfolding s_def by (rule cas_exec_reachable)
  have c: "completed s = [(TryInc, True), (TryInc, False)]"
    by (simp add: s_def cas_exec_def cas_init_def try_inc_body_def in64_def)
  have "cell s \<le> 1 \<and> cell s = int (incs (completed s)) - int (decs (completed s))"
    by (rule worker_count_bounded [OF r]) (simp_all add: c in64_def)
  with r c show ?thesis unfolding Let_def s_def [symmetric] by blast
qed

end
