(* ===== verification/Rate_Limiter.thy ===== *)
theory Rate_Limiter
  imports Regulator Cas_Loop
begin

text \<open>
  \<^verbatim>\<open>ratelimiter.go\<close>: a token bucket. \<open>refillTokens\<close> advances the refill time by whole periods and
  adds one token per period, capped; \<open>RL_Limit\<close> refills and takes a token. The clock readings
  are arguments. The last part runs the token counter under any interleaving of takes
  and refills.
\<close>

record RateLimiter =
  tokens :: int
  maxTokens :: int
  refillRate :: int
  lastRefill :: int

definition NewRateLimiter :: "int \<Rightarrow> int \<Rightarrow> int \<Rightarrow> RateLimiter" where
  "NewRateLimiter now mx rate =
     (let capacity = (if mx < 0 then 0 else mx)
      in \<lparr>tokens = capacity, maxTokens = capacity,
          refillRate = (if rate \<le> 0 then second else rate), lastRefill = now\<rparr>)"

text \<open>The body of the inner loop of \<^verbatim>\<open>refillTokens\<close>: \<^verbatim>\<open>min(cur+periods, maxTokens)\<close>.\<close>

definition refill_body :: "int \<Rightarrow> int \<Rightarrow> int \<Rightarrow> unit + int \<times> unit" where
  "refill_body periods mx cur = Inr (min (wrap64 (cur + periods)) mx, ())"

definition refillTokens :: "int \<Rightarrow> RateLimiter \<Rightarrow> RateLimiter" where
  "refillTokens now rl =
     (let refillNs = (if refillRate rl \<le> 0 then second else refillRate rl);
          elapsed = wrap64 (now - lastRefill rl)
      in if elapsed < refillNs then rl
         else let periods = quot64 elapsed refillNs;
                  nextLast = wrap64 (lastRefill rl + wrap64 (periods * refillNs))
              in case refill_body periods (maxTokens rl) (tokens rl) of
                   Inl _ \<Rightarrow> rl\<lparr>lastRefill := nextLast\<rparr>
                 | Inr (v, _) \<Rightarrow> rl\<lparr>lastRefill := nextLast, tokens := v\<rparr>)"

text \<open>The body of the loop of \<^verbatim>\<open>Limit\<close>: \<open>True\<close> rejects.\<close>

definition take_body :: "int \<Rightarrow> bool + int \<times> bool" where
  "take_body cur = (if cur \<le> 0 then Inl True else Inr (wrap64 (cur - 1), False))"

definition RL_Limit :: "int \<Rightarrow> RateLimiter \<Rightarrow> bool \<times> RateLimiter" where
  "RL_Limit now rl =
     (let rl' = refillTokens now rl
      in case take_body (tokens rl') of
           Inl b \<Rightarrow> (b, rl')
         | Inr (v, b) \<Rightarrow> (b, rl'\<lparr>tokens := v\<rparr>))"

definition RL_Renormalize :: "int \<Rightarrow> RateLimiter \<Rightarrow> RateLimiter" where
  "RL_Renormalize now rl = refillTokens now rl"

definition RL_Observe :: "MetricReading \<Rightarrow> RateLimiter \<Rightarrow> RateLimiter" where
  "RL_Observe reading rl = rl"

definition RateLimiter_ops :: "RateLimiter regulator_ops" where
  "RateLimiter_ops = \<lparr>Observe = (\<lambda>e. RL_Observe), Limit = (\<lambda>e. RL_Limit (now_ns e)),
                      Renormalize = (\<lambda>e. RL_Renormalize (now_ns e))\<rparr>"

section \<open>The bucket invariant\<close>

definition rl_inv :: "RateLimiter \<Rightarrow> bool" where
  "rl_inv rl \<longleftrightarrow> 0 \<le> tokens rl \<and> tokens rl \<le> maxTokens rl \<and> maxTokens rl < 2 ^ 62 \<and>
     0 < refillRate rl \<and> refillRate rl < 2 ^ 63"

lemma NewRateLimiter_inv: "mx < 2 ^ 62 \<Longrightarrow> rate < 2 ^ 63 \<Longrightarrow> rl_inv (NewRateLimiter now mx rate)"
  by (simp add: rl_inv_def NewRateLimiter_def Let_def second_def)

text \<open>\<open>refillTokens\<close> on a bucket whose clock did not run past the 64-bit range.\<close>

lemma refillTokens_eq:
  assumes "rl_inv rl" "lastRefill rl \<le> now" "now - lastRefill rl < 2 ^ 62" "in64 now" "in64 (lastRefill rl)"
  shows "refillTokens now rl =
     (let k = (now - lastRefill rl) div refillRate rl
      in rl\<lparr>lastRefill := lastRefill rl + k * refillRate rl,
           tokens := min (tokens rl + k) (maxTokens rl)\<rparr>)"
proof -
  define d where "d = now - lastRefill rl"
  define r where "r = refillRate rl"
  define k where "k = d div r"
  have d: "0 \<le> d" "d < 2 ^ 62" "in64 d" using assms by (auto simp: d_def in64_def)
  have r: "0 < r" using assms by (simp add: rl_inv_def r_def)
  have k: "0 \<le> k" "k \<le> d" "k * r \<le> d" "in64 (k * r)" "in64 (lastRefill rl + k * r)" "in64 (tokens rl + k)"
  proof -
    show k0: "0 \<le> k" using d r by (simp add: k_def pos_imp_zdiv_nonneg_iff)
    show kr: "k * r \<le> d" 
      using pos_mod_sign [OF r, of d] div_mult_mod_eq [of d r] unfolding k_def by linarith
    show "k \<le> d" using k0 kr r by (meson dual_order.trans mult_left_le mult_le_cancel_left1 not_le zero_less_one int_one_le_iff_zero_less)
    have kr0: "0 \<le> k * r" using k0 r by simp
    have t: "0 \<le> tokens rl" "tokens rl < 2 ^ 62" using assms(1) by (auto simp: rl_inv_def)
    show "in64 (k * r)" by (rule in64_between [OF in64_0 d(3) kr0 kr])
    show "in64 (lastRefill rl + k * r)"
      using kr kr0 unfolding d_def by (intro in64_between [OF assms(5,4)]; linarith)
    show "in64 (tokens rl + k)" using k0 \<open>k \<le> d\<close> d(2) t by (simp add: in64_def)
  qed
  show ?thesis
  proof (cases "d < r")
    case True
    then have "k = 0" using d by (simp add: k_def)
    then show ?thesis using True r d assms(1)
      by (simp add: refillTokens_def Let_def rl_inv_def flip: d_def r_def k_def)
  next
    case False
    then show ?thesis using r d k
      by (simp add: refillTokens_def Let_def refill_body_def quot64_nonneg flip: d_def r_def k_def)
  qed
qed

text \<open>Without any hypothesis on the clock the bucket never holds more than its capacity.\<close>

definition rl_safe :: "RateLimiter \<Rightarrow> bool" where
  "rl_safe rl \<longleftrightarrow> tokens rl \<le> maxTokens rl \<and> in64 (tokens rl) \<and> in64 (maxTokens rl)"

lemma min_wrap_in64: "in64 m \<Longrightarrow> in64 (min (wrap64 x) m)"
  by (simp add: min_def)

lemma refillTokens_safe: "rl_safe rl \<Longrightarrow> rl_safe (refillTokens now rl)"
  by (auto simp: rl_safe_def refillTokens_def Let_def refill_body_def min_wrap_in64)

lemma take_safe:
  "0 < cur \<Longrightarrow> cur \<le> m \<Longrightarrow> in64 cur \<Longrightarrow> wrap64 (cur - 1) = cur - 1 \<and> cur - 1 \<le> m \<and> in64 (cur - 1)"
proof -
  assume "0 < cur" "cur \<le> m" "in64 cur"
  then have "in64 (cur - 1)" by (simp add: in64_def)
  with \<open>cur \<le> m\<close> show ?thesis by simp
qed

lemma RL_Limit_safe: "rl_safe rl \<Longrightarrow> rl_safe (snd (RL_Limit now rl))"
  using refillTokens_safe [of rl now] take_safe [of "tokens (refillTokens now rl)"]
  by (auto simp: RL_Limit_def Let_def take_body_def rl_safe_def)

interpretation rate_limiter: regulator RateLimiter_ops rl_safe
  by unfold_locales
     (simp_all add: RateLimiter_ops_def RL_Observe_def RL_Renormalize_def refillTokens_safe RL_Limit_safe)

section \<open>The token bucket bound\<close>

text \<open>A run of the limiter: \<open>True\<close> is a call of \<^verbatim>\<open>Limit\<close>, \<open>False\<close> one of \<^verbatim>\<open>Renormalize\<close>, each with the clock
  reading it makes. The result counts the calls of \<^verbatim>\<open>Limit\<close> that admitted.\<close>

fun rl_run :: "(bool \<times> int) list \<Rightarrow> RateLimiter \<Rightarrow> nat \<times> RateLimiter" where
  "rl_run [] rl = (0, rl)"
| "rl_run ((True, t) # es) rl =
     (let (limited, rl') = RL_Limit t rl; (n, rl'') = rl_run es rl'
      in (if limited then n else Suc n, rl''))"
| "rl_run ((False, t) # es) rl = rl_run es (RL_Renormalize t rl)"

fun clock_ok :: "int \<Rightarrow> int \<Rightarrow> (bool \<times> int) list \<Rightarrow> bool" where
  "clock_ok t0 t [] = True"
| "clock_ok t0 t ((b, t') # es) = (t \<le> t' \<and> t' - t0 < 2 ^ 62 \<and> in64 t' \<and> clock_ok t0 t' es)"

lemma RL_Limit_eq:
  "0 \<le> tokens (refillTokens t rl) \<Longrightarrow> tokens (refillTokens t rl) < 2 ^ 62 \<Longrightarrow>
   RL_Limit t rl = (let rl' = refillTokens t rl
     in if tokens rl' = 0 then (True, rl') else (False, rl'\<lparr>tokens := tokens rl' - 1\<rparr>))"
  by (auto simp: RL_Limit_def Let_def take_body_def in64_def)

text \<open>The state of a run: the refill time is a whole number \<open>k\<close> of periods after the start.\<close>

definition rl_at :: "int \<Rightarrow> int \<Rightarrow> int \<Rightarrow> RateLimiter \<Rightarrow> bool" where
  "rl_at t0 t k rl \<longleftrightarrow> rl_inv rl \<and> 0 \<le> k \<and> lastRefill rl = t0 + k * refillRate rl \<and> lastRefill rl \<le> t \<and> in64 t0 \<and> in64 t"

lemma refill_at:
  assumes "rl_at t0 t k rl" "t \<le> t'" "t' - t0 < 2 ^ 62" "in64 t'"
  obtains j where "0 \<le> j" "rl_at t0 t' (k + j) (refillTokens t' rl)"
    "refillRate (refillTokens t' rl) = refillRate rl" "maxTokens (refillTokens t' rl) = maxTokens rl"
    "tokens (refillTokens t' rl) \<le> tokens rl + j"
proof -
  define j where "j = (t' - lastRefill rl) div refillRate rl"
  have inv: "rl_inv rl" and k: "0 \<le> k" "lastRefill rl = t0 + k * refillRate rl" "lastRefill rl \<le> t'"
    and r: "0 < refillRate rl" and t: "in64 t0" "in64 t"
    using assms(1,2) by (auto simp: rl_at_def rl_inv_def)
  have kr: "0 \<le> k * refillRate rl" using k(1) r by simp
  have jr: "j * refillRate rl \<le> t' - lastRefill rl"
    using pos_mod_sign [OF r, of "t' - lastRefill rl"] div_mult_mod_eq [of "t' - lastRefill rl" "refillRate rl"]
    unfolding j_def by linarith
  have j: "0 \<le> j" using k(3) r by (simp add: j_def pos_imp_zdiv_nonneg_iff)
  have "in64 (lastRefill rl)" using k kr t assms(4) by (simp add: in64_def)
  then have eq: "refillTokens t' rl =
      rl\<lparr>lastRefill := lastRefill rl + j * refillRate rl, tokens := min (tokens rl + j) (maxTokens rl)\<rparr>"
    using refillTokens_eq [OF inv k(3) _ assms(4)] k kr assms(3) by (simp add: Let_def j_def)
  show thesis
  proof (rule that [OF j])
    show "rl_at t0 t' (k + j) (refillTokens t' rl)"
      using inv k j jr t assms(4) unfolding eq by (auto simp: rl_at_def rl_inv_def algebra_simps)
  qed (simp_all add: eq)
qed

lemma rl_run_bound:
  assumes "rl_at t0 t k rl" "clock_ok t0 t es"
  shows "\<exists>k'. k \<le> k' \<and> k' * refillRate rl \<le> (if es = [] then t else snd (last es)) - t0 \<and>
    int (fst (rl_run es rl)) \<le> tokens rl + (k' - k)"
  using assms
proof (induction es rl arbitrary: t k rule: rl_run.induct)
  case (1 rl)
  then show ?case by (intro exI [of _ k]) (auto simp: rl_at_def rl_inv_def)
next
  case (2 t' es rl)
  obtain j where j: "0 \<le> j" "rl_at t0 t' (k + j) (refillTokens t' rl)"
    "refillRate (refillTokens t' rl) = refillRate rl" "tokens (refillTokens t' rl) \<le> tokens rl + j"
    using refill_at [of t0 t k rl t'] 2(2,3) by auto
  define rl' where "rl' = snd (RL_Limit t' rl)"
  have lim: "RL_Limit t' rl = (tokens (refillTokens t' rl) = 0, rl')"
    "rl_at t0 t' (k + j) rl'" "refillRate rl' = refillRate rl"
    "tokens rl' = (if tokens (refillTokens t' rl) = 0 then 0 else tokens (refillTokens t' rl) - 1)"
    using j(2,3) RL_Limit_eq [of t' rl] by (auto simp: rl'_def Let_def rl_at_def rl_inv_def)
  obtain k' where k': "k + j \<le> k'" "k' * refillRate rl' \<le> (if es = [] then t' else snd (last es)) - t0"
    "int (fst (rl_run es rl')) \<le> tokens rl' + (k' - (k + j))"
    using "2.IH" [OF lim(1) [symmetric] refl lim(2)] "2.prems"(2) by auto
  have "int (fst (rl_run ((True, t') # es) rl)) \<le> tokens (refillTokens t' rl) + (k' - (k + j))"
    using k'(3) lim(1,4) by (auto simp: case_prod_unfold Let_def)
  then show ?case using k'(1,2) lim(3) j(1,4) by (intro exI [of _ k']) auto
next
  case (3 t' es rl)
  obtain j where j: "0 \<le> j" "rl_at t0 t' (k + j) (refillTokens t' rl)"
    "refillRate (refillTokens t' rl) = refillRate rl" "tokens (refillTokens t' rl) \<le> tokens rl + j"
    using refill_at [of t0 t k rl t'] 3(2,3) by auto
  obtain k' where "k + j \<le> k'" "k' * refillRate rl \<le> (if es = [] then t' else snd (last es)) - t0"
    "int (fst (rl_run es (refillTokens t' rl))) \<le> tokens (refillTokens t' rl) + (k' - (k + j))"
    using "3.IH" [unfolded RL_Renormalize_def, OF j(2)] "3.prems"(2) j(3) by auto
  then show ?case using j(1,4) by (intro exI [of _ k']) (auto simp: RL_Renormalize_def)
qed

text \<open>C22: the token bucket bound. Over any sequence of \<^verbatim>\<open>Limit\<close> and \<^verbatim>\<open>Renormalize\<close> calls with a clock
  that does not run backwards, a limiter admits at most its capacity plus one schedule per
  refill period elapsed since it was made.\<close>

theorem rate_limiter_bound:
  assumes "0 \<le> mx" "mx < 2 ^ 62" "0 < rate" "rate < 2 ^ 63" "in64 t0" "clock_ok t0 t0 es" "es \<noteq> []"
  shows "int (fst (rl_run es (NewRateLimiter t0 mx rate))) \<le> mx + (snd (last es) - t0) div rate"
proof -
  have at: "rl_at t0 t0 0 (NewRateLimiter t0 mx rate)"
    using NewRateLimiter_inv [of mx rate t0] assms by (simp add: rl_at_def) (simp add: NewRateLimiter_def Let_def)
  have eqs: "refillRate (NewRateLimiter t0 mx rate) = rate" "tokens (NewRateLimiter t0 mx rate) = mx"
    using assms by (simp_all add: NewRateLimiter_def Let_def)
  from rl_run_bound [OF at assms(6)] obtain k where
    "k * rate \<le> snd (last es) - t0" "int (fst (rl_run es (NewRateLimiter t0 mx rate))) \<le> mx + k"
    using assms(7) by (auto simp: eqs)
  moreover from this(1) have "k \<le> (snd (last es) - t0) div rate"
    using zdiv_mono1 [of "k * rate" "snd (last es) - t0" rate] assms(3) by simp
  ultimately show ?thesis by linarith
qed

theorem rate_limiter_bound_witness:
  "clock_ok 0 0 [(True, 0), (True, 0), (True, 1), (False, 20), (True, 21)] \<and>
   fst (rl_run [(True, 0), (True, 0), (True, 1), (False, 20), (True, 21)] (NewRateLimiter 0 2 10)) = 3 \<and>
   int (fst (rl_run [(True, 0), (True, 0), (True, 1), (False, 20), (True, 21)] (NewRateLimiter 0 2 10))) \<le> 2 + 21 div 10"
proof -
  have c: "clock_ok 0 0 [(True, 0), (True, 0), (True, 1), (False, 20), (True, 21)]"
    by (simp add: in64_def)
  have n: "fst (rl_run [(True, 0), (True, 0), (True, 1), (False, 20), (True, 21)] (NewRateLimiter 0 2 10)) = 3"
    by code_simp
  show ?thesis using rate_limiter_bound [of 2 10 0, OF _ _ _ _ _ c] c n by (simp add: in64_def)
qed

section \<open>The token counter under any interleaving\<close>

datatype bucket_op = Take | Refill int

fun bucket_code :: "int \<Rightarrow> bucket_op \<Rightarrow> (int, bool) access" where
  "bucket_code mx Take = Cas take_body"
| "bucket_code mx (Refill periods) =
     Cas (\<lambda>cur. map_sum (\<lambda>_. True) (\<lambda>(v, _). (v, True)) (refill_body periods mx cur))"

definition credited :: "(bucket_op \<times> bool) list \<Rightarrow> int" where
  "credited h = (\<Sum>(op, r)\<leftarrow>h. case op of Take \<Rightarrow> 0 | Refill p \<Rightarrow> p)"

abbreviation taken :: "(bucket_op \<times> bool) list \<Rightarrow> nat" where
  "taken h \<equiv> length (filter (\<lambda>(op, r). op = Take \<and> \<not> r) h)"

interpretation bucket_cell: cas_object "bucket_code mx" mx "\<lambda>v. v \<le> mx"
proof unfold_locales
  fix v op
  assume v: "v \<le> mx"
  show "fst (atomically (bucket_code mx op) v) \<le> mx"
  proof (cases op)
    case Take
    have "0 < v \<Longrightarrow> wrap64 (v - 1) \<le> v - 1"
    proof -
      assume "0 < v"
      show "wrap64 (v - 1) \<le> v - 1"
      proof (cases "v - 1 < 2 ^ 63")
        case True
        with \<open>0 < v\<close> show ?thesis by (simp add: in64_small)
      next
        case False
        then show ?thesis using wrap64_in64 [of "v - 1"] unfolding in64_def by linarith
      qed
    qed
    with v Take show ?thesis by (auto simp: take_body_def)
  qed (auto simp: refill_body_def)
qed simp

lemma bucket_serial:
  assumes "serial_run (bucket_code mx) v h = Some w" "0 \<le> v" "v \<le> mx" "mx < 2 ^ 62"
    "\<forall>(op, r)\<in>set h. case op of Take \<Rightarrow> True | Refill p \<Rightarrow> 0 \<le> p \<and> p < 2 ^ 62"
  shows "0 \<le> w \<and> w \<le> mx \<and> w + int (taken h) \<le> v + credited h"
  using assms
proof (induction h arbitrary: v)
  case (Cons x h)
  obtain op r where x: "x = (op, r)" by (cases x)
  show ?case
  proof (cases op)
    case Take
    show ?thesis
    proof (cases "v \<le> 0")
      case True
      with Cons.prems Take x Cons.IH [of v] show ?thesis
        by (auto simp: take_body_def credited_def split: if_splits)
    next
      case False
      then have "wrap64 (v - 1) = v - 1" using Cons.prems(3,4) by (simp add: in64_def)
      with False Cons.prems Take x Cons.IH [of "v - 1"] show ?thesis
        by (auto simp: take_body_def credited_def split: if_splits)
    qed
  next
    case (Refill p)
    then have "wrap64 (v + p) = v + p" using Cons.prems by (simp add: in64_def x)
    with Cons.prems Refill x Cons.IH [of "min (v + p) mx"] show ?thesis
      by (auto simp: refill_body_def credited_def split: if_splits)
  qed
qed (simp add: credited_def)

text \<open>C28: the same bound for concurrent callers: however loads and compare-and-swaps of the
  token counter interleave, the bucket stays between zero and its capacity, and the calls that
  got a token never outnumber the capacity plus the periods credited.\<close>

theorem concurrent_tokens_bound:
  assumes "cas_reachable (bucket_code mx) mx s" "0 \<le> mx" "mx < 2 ^ 62"
    "\<forall>(op, r)\<in>set (completed s). case op of Take \<Rightarrow> True | Refill p \<Rightarrow> 0 \<le> p \<and> p < 2 ^ 62"
  shows "0 \<le> cell s \<and> cell s \<le> mx \<and> int (taken (completed s)) \<le> mx + credited (completed s)"
  using bucket_serial [OF bucket_cell.linearizable [OF assms(1)]] assms by auto

theorem concurrent_tokens_bound_witness:
  "let s = cas_exec (bucket_code 1) 1
     [Begin 0 Take, Begin 1 Take, Advance 0, Advance 1, Advance 0, Advance 1, Advance 1]
   in completed s = [(Take, False), (Take, True)] \<and> int (taken (completed s)) \<le> 1 + credited (completed s)"
proof -
  define s where "s = cas_exec (bucket_code 1) 1
     [Begin 0 Take, Begin 1 Take, Advance 0, Advance 1, Advance 0, Advance 1, Advance 1]"
  have r: "cas_reachable (bucket_code 1) 1 s" unfolding s_def by (rule cas_exec_reachable)
  have c: "completed s = [(Take, False), (Take, True)]"
    by (simp add: s_def cas_exec_def cas_init_def take_body_def in64_def)
  have "0 \<le> cell s \<and> cell s \<le> 1 \<and> int (taken (completed s)) \<le> 1 + credited (completed s)"
    by (rule concurrent_tokens_bound [OF r]) (simp_all add: c)
  with c show ?thesis unfolding Let_def s_def [symmetric] by blast
qed

end
