(* ===== verification/Circuit_Breaker.thy ===== *)
theory Circuit_Breaker
  imports Regulator Cas_Loop
begin

text \<open>
  \<^verbatim>\<open>circuitbreaker.go\<close>. The record has the fields of the source with their widths; the three
  constants of the state word are a datatype, so the default branches of the switches, which
  no stored value reaches, do not arise. Clock readings are arguments.

  The second part states what the breaker promises as a small automaton without counters of
  fixed width (\<open>breaker_spec\<close>), and shows that the code refines it on every sequence of calls.
\<close>

datatype cb_state = cbClosed | cbOpen | cbHalfOpen

record CircuitBreaker =
  maxFailures :: int
  resetTimeout :: int
  halfOpenMax :: int
  cb_st :: cb_state
  cb_failureCount :: u32
  openSinceNs :: int
  halfOpenSuccess :: u32
  halfOpenInflight :: int

record CircuitBreakerConfig =
  MaxFailures :: int
  ResetTimeout :: int
  HalfOpenMax :: int

definition NewCircuitBreaker :: "int \<Rightarrow> int \<Rightarrow> int \<Rightarrow> CircuitBreaker" where
  "NewCircuitBreaker mf rt hm =
     \<lparr>maxFailures = mf, resetTimeout = rt, halfOpenMax = (if hm \<le> 0 then 1 else hm),
      cb_st = cbClosed, cb_failureCount = 0, openSinceNs = 0, halfOpenSuccess = 0, halfOpenInflight = 0\<rparr>"

definition newCircuitBreakerFromConfig :: "CircuitBreakerConfig \<Rightarrow> CircuitBreaker" where
  "newCircuitBreakerFromConfig cfg = NewCircuitBreaker (MaxFailures cfg) (ResetTimeout cfg) (HalfOpenMax cfg)"

definition CB_Observe :: "MetricReading \<Rightarrow> CircuitBreaker \<Rightarrow> CircuitBreaker" where
  "CB_Observe reading cb = cb"

definition tryOpenToHalfOpen :: "int \<Rightarrow> CircuitBreaker \<Rightarrow> bool \<times> CircuitBreaker" where
  "tryOpenToHalfOpen now cb =
     (if cb_st cb \<noteq> cbOpen then (False, cb)
      else let resetNs = (if resetTimeout cb \<le> 0 then minute else resetTimeout cb);
               opened = openSinceNs cb
           in if opened = 0 \<or> wrap64 (now - opened) \<le> resetNs then (False, cb)
              else (True, cb\<lparr>cb_st := cbHalfOpen, halfOpenSuccess := 0, halfOpenInflight := 0\<rparr>))"

text \<open>The body of the loop of \<^verbatim>\<open>acquireHalfOpenSlot\<close> on the value it loaded.\<close>

definition acquire_body :: "int \<Rightarrow> int \<Rightarrow> bool + int \<times> bool" where
  "acquire_body hmax live = (if 0 \<le> hmax \<and> hmax \<le> live then Inl False else Inr (wrap32 (live + 1), True))"

definition acquireHalfOpenSlot :: "CircuitBreaker \<Rightarrow> bool \<times> CircuitBreaker" where
  "acquireHalfOpenSlot cb =
     (if cb_st cb \<noteq> cbHalfOpen then (False, cb)
      else case acquire_body (halfOpenMax cb) (halfOpenInflight cb) of
             Inl b \<Rightarrow> (b, cb)
           | Inr (v, b) \<Rightarrow> (b, cb\<lparr>halfOpenInflight := v\<rparr>))"

text \<open>The body of the loop of \<^verbatim>\<open>safeDecHalfOpenInflight\<close>.\<close>

definition safe_dec_body :: "int \<Rightarrow> bool + int \<times> bool" where
  "safe_dec_body cur = (if cur \<le> 0 then Inl False else Inr (wrap32 (cur - 1), True))"

definition safeDecHalfOpenInflight :: "CircuitBreaker \<Rightarrow> CircuitBreaker" where
  "safeDecHalfOpenInflight cb =
     (case safe_dec_body (halfOpenInflight cb) of
        Inl _ \<Rightarrow> cb
      | Inr (v, _) \<Rightarrow> cb\<lparr>halfOpenInflight := v\<rparr>)"

text \<open>\<^verbatim>\<open>transitionToOpen\<close>: the time of opening never moves backwards.\<close>

definition transitionToOpen :: "int \<Rightarrow> CircuitBreaker \<Rightarrow> CircuitBreaker" where
  "transitionToOpen now cb =
     cb\<lparr>cb_st := cbOpen, openSinceNs := (if now \<le> openSinceNs cb then openSinceNs cb else now),
        halfOpenSuccess := 0, halfOpenInflight := 0\<rparr>"

definition RecordFailure :: "int \<Rightarrow> CircuitBreaker \<Rightarrow> CircuitBreaker" where
  "RecordFailure now cb =
     (let cb1 = cb\<lparr>cb_failureCount := cb_failureCount cb + 1\<rparr>
      in case cb_st cb1 of
           cbHalfOpen \<Rightarrow> transitionToOpen now (safeDecHalfOpenInflight cb1)
         | cbClosed \<Rightarrow> (if maxFailures cb1 \<le> uint (cb_failureCount cb1) then transitionToOpen now cb1 else cb1)
         | cbOpen \<Rightarrow> cb1)"

definition RecordSuccess :: "CircuitBreaker \<Rightarrow> CircuitBreaker" where
  "RecordSuccess cb =
     (let cb1 = cb\<lparr>cb_failureCount := 0\<rparr>
      in case cb_st cb1 of
           cbHalfOpen \<Rightarrow>
             (let cb2 = safeDecHalfOpenInflight cb1;
                  n = halfOpenSuccess cb2 + 1;
                  cb3 = cb2\<lparr>halfOpenSuccess := n\<rparr>
              in if halfOpenMax cb3 \<le> uint n then cb3\<lparr>halfOpenSuccess := 0, cb_st := cbClosed\<rparr> else cb3)
         | _ \<Rightarrow> cb1)"

text \<open>\<^verbatim>\<open>Allow\<close>: the loop goes round once, when the breaker leaves the open state.\<close>

function Allow :: "int \<Rightarrow> CircuitBreaker \<Rightarrow> bool \<times> CircuitBreaker" where
  "Allow now cb =
     (case cb_st cb of
        cbClosed \<Rightarrow> (True, cb)
      | cbOpen \<Rightarrow> (case tryOpenToHalfOpen now cb of
                     (True, cb') \<Rightarrow> Allow now cb'
                   | (False, cb') \<Rightarrow> (False, cb'))
      | cbHalfOpen \<Rightarrow> acquireHalfOpenSlot cb)"
  by pat_completeness auto
termination
  by (relation "measure (\<lambda>(now, cb). if cb_st cb = cbOpen then 1 else 0)")
     (auto simp: tryOpenToHalfOpen_def Let_def split: if_splits)

declare Allow.simps [simp del]

definition CB_Limit :: "int \<Rightarrow> CircuitBreaker \<Rightarrow> bool \<times> CircuitBreaker" where
  "CB_Limit now cb = (let (b, cb') = Allow now cb in (\<not> b, cb'))"

definition CB_Renormalize :: "int \<Rightarrow> CircuitBreaker \<Rightarrow> CircuitBreaker" where
  "CB_Renormalize now cb = snd (tryOpenToHalfOpen now cb)"

definition CircuitBreaker_ops :: "CircuitBreaker regulator_ops" where
  "CircuitBreaker_ops = \<lparr>Observe = (\<lambda>e. CB_Observe), Limit = (\<lambda>e. CB_Limit (now_ns e)),
                         Renormalize = (\<lambda>e. CB_Renormalize (now_ns e))\<rparr>"

lemmas cb_defs [go_defs] =
  tryOpenToHalfOpen_def acquire_body_def acquireHalfOpenSlot_def safe_dec_body_def
  safeDecHalfOpenInflight_def transitionToOpen_def RecordFailure_def RecordSuccess_def CB_Limit_def
  CB_Renormalize_def

section \<open>What the breaker promises\<close>

text \<open>Closed with a number of consecutive failures; open since a time; half-open with the
  successes so far and the probes in flight.\<close>

datatype breaker_spec = SClosed int | SOpen int | SHalf int int

fun spec_failure :: "int \<Rightarrow> int \<Rightarrow> breaker_spec \<Rightarrow> breaker_spec" where
  "spec_failure mf t (SClosed n) = (if mf \<le> n + 1 then SOpen t else SClosed (n + 1))"
| "spec_failure mf t (SOpen t0) = SOpen t0"
| "spec_failure mf t (SHalf a b) = SOpen t"

fun spec_success :: "int \<Rightarrow> breaker_spec \<Rightarrow> breaker_spec" where
  "spec_success hm (SClosed n) = SClosed 0"
| "spec_success hm (SOpen t0) = SOpen t0"
| "spec_success hm (SHalf a b) = (if hm \<le> a + 1 then SClosed 0 else SHalf (a + 1) (max 0 (b - 1)))"

fun spec_renormalize :: "int \<Rightarrow> int \<Rightarrow> breaker_spec \<Rightarrow> breaker_spec" where
  "spec_renormalize reset t (SOpen t0) = (if t - t0 \<le> reset then SOpen t0 else SHalf 0 0)"
| "spec_renormalize reset t s = s"

definition spec_allow :: "int \<Rightarrow> int \<Rightarrow> int \<Rightarrow> breaker_spec \<Rightarrow> bool \<times> breaker_spec" where
  "spec_allow reset hm t s =
     (case spec_renormalize reset t s of
        SClosed n \<Rightarrow> (True, SClosed n)
      | SOpen t0 \<Rightarrow> (False, SOpen t0)
      | SHalf a b \<Rightarrow> (if hm \<le> b then (False, SHalf a b) else (True, SHalf a (b + 1))))"

datatype cb_event = EvAllow int | EvFailure int | EvSuccess | EvRenormalize int

text \<open>A run of the code and of the promise; each call of \<^verbatim>\<open>Allow\<close> contributes its answer.\<close>

fun cb_run :: "cb_event list \<Rightarrow> CircuitBreaker \<Rightarrow> bool list \<times> CircuitBreaker" where
  "cb_run [] cb = ([], cb)"
| "cb_run (EvAllow t # es) cb =
     (let (b, cb') = Allow t cb; (bs, cb'') = cb_run es cb' in (b # bs, cb''))"
| "cb_run (EvFailure t # es) cb = cb_run es (RecordFailure t cb)"
| "cb_run (EvSuccess # es) cb = cb_run es (RecordSuccess cb)"
| "cb_run (EvRenormalize t # es) cb = cb_run es (CB_Renormalize t cb)"

fun spec_run :: "int \<Rightarrow> int \<Rightarrow> int \<Rightarrow> cb_event list \<Rightarrow> breaker_spec \<Rightarrow> bool list \<times> breaker_spec" where
  "spec_run mf reset hm [] s = ([], s)"
| "spec_run mf reset hm (EvAllow t # es) s =
     (let (b, s') = spec_allow reset hm t s; (bs, s'') = spec_run mf reset hm es s' in (b # bs, s''))"
| "spec_run mf reset hm (EvFailure t # es) s = spec_run mf reset hm es (spec_failure mf t s)"
| "spec_run mf reset hm (EvSuccess # es) s = spec_run mf reset hm es (spec_success hm s)"
| "spec_run mf reset hm (EvRenormalize t # es) s = spec_run mf reset hm es (spec_renormalize reset t s)"

fun cb_clock :: "int \<Rightarrow> cb_event list \<Rightarrow> bool" where
  "cb_clock t [] = True"
| "cb_clock t (EvAllow t' # es) = (t \<le> t' \<and> t' < 2 ^ 63 \<and> cb_clock t' es)"
| "cb_clock t (EvFailure t' # es) = (t \<le> t' \<and> t' < 2 ^ 63 \<and> cb_clock t' es)"
| "cb_clock t (EvSuccess # es) = cb_clock t es"
| "cb_clock t (EvRenormalize t' # es) = (t \<le> t' \<and> t' < 2 ^ 63 \<and> cb_clock t' es)"

definition cb_abs :: "CircuitBreaker \<Rightarrow> breaker_spec" where
  "cb_abs cb = (case cb_st cb of
       cbClosed \<Rightarrow> SClosed (uint (cb_failureCount cb))
     | cbOpen \<Rightarrow> SOpen (openSinceNs cb)
     | cbHalfOpen \<Rightarrow> SHalf (uint (halfOpenSuccess cb)) (halfOpenInflight cb))"

definition cb_reset :: "CircuitBreaker \<Rightarrow> int" where
  "cb_reset cb = (if resetTimeout cb \<le> 0 then minute else resetTimeout cb)"

text \<open>The invariant that ties the counters to the state, at a time \<open>t\<close>.\<close>

definition cb_inv :: "int \<Rightarrow> CircuitBreaker \<Rightarrow> bool" where
  "cb_inv t cb \<longleftrightarrow> 0 < t \<and> t < 2 ^ 63 \<and> maxFailures cb < 2 ^ 32 \<and> 0 < halfOpenMax cb \<and> halfOpenMax cb < 2 ^ 31 \<and>
     0 \<le> openSinceNs cb \<and> openSinceNs cb \<le> t \<and>
     (cb_st cb = cbClosed \<longrightarrow> uint (cb_failureCount cb) < max 1 (maxFailures cb)) \<and>
     (cb_st cb = cbOpen \<longrightarrow> 0 < openSinceNs cb) \<and>
     (cb_st cb = cbHalfOpen \<longrightarrow> uint (halfOpenSuccess cb) < halfOpenMax cb \<and>
        0 \<le> halfOpenInflight cb \<and> halfOpenInflight cb \<le> halfOpenMax cb)"

definition same_config :: "CircuitBreaker \<Rightarrow> CircuitBreaker \<Rightarrow> bool" where
  "same_config cb cb' \<longleftrightarrow> maxFailures cb' = maxFailures cb \<and> resetTimeout cb' = resetTimeout cb \<and>
     halfOpenMax cb' = halfOpenMax cb"

lemma uint_inc32: "uint x + 1 < 2 ^ 32 \<Longrightarrow> uint (x + 1 :: u32) = uint x + 1"
  by (simp add: uint_word_ariths)

lemma in32_small: "0 \<le> x \<Longrightarrow> x < 2 ^ 31 \<Longrightarrow> in32 x"
  by (simp add: in32_def)

lemmas cb_simps = cb_inv_def cb_abs_def same_config_def cb_reset_def

lemma tryOpen_refines:
  assumes "cb_inv t cb" "t \<le> t'" "t' < 2 ^ 63"
  shows "cb_inv t' (snd (tryOpenToHalfOpen t' cb)) \<and> same_config cb (snd (tryOpenToHalfOpen t' cb)) \<and>
     cb_abs (snd (tryOpenToHalfOpen t' cb)) = spec_renormalize (cb_reset cb) t' (cb_abs cb) \<and>
     (fst (tryOpenToHalfOpen t' cb) \<longleftrightarrow> cb_st cb = cbOpen \<and> cb_st (snd (tryOpenToHalfOpen t' cb)) = cbHalfOpen)"
proof (cases "cb_st cb = cbOpen")
  case True
  then have o: "0 < openSinceNs cb" "openSinceNs cb \<le> t'" using assms by (auto simp: cb_inv_def)
  then have "in64 (t' - openSinceNs cb)" using assms(3) by (simp add: in64_def)
  then show ?thesis using True o assms
    by (auto simp: tryOpenToHalfOpen_def Let_def cb_simps)
next
  case False
  then show ?thesis using assms
    by (cases "cb_st cb") (auto simp: tryOpenToHalfOpen_def cb_simps)
qed

lemma acquire_refines:
  assumes "cb_inv t cb" "cb_st cb = cbHalfOpen"
  shows "cb_inv t (snd (acquireHalfOpenSlot cb)) \<and> same_config cb (snd (acquireHalfOpenSlot cb)) \<and>
     (fst (acquireHalfOpenSlot cb), cb_abs (snd (acquireHalfOpenSlot cb))) = spec_allow (cb_reset cb) (halfOpenMax cb) t (cb_abs cb)"
proof (cases "halfOpenMax cb \<le> halfOpenInflight cb")
  case True
  then show ?thesis using assms by (auto simp: acquireHalfOpenSlot_def acquire_body_def cb_simps spec_allow_def)
next
  case False
  then have "wrap32 (halfOpenInflight cb + 1) = halfOpenInflight cb + 1"
    using assms by (intro wrap32_id in32_small) (auto simp: cb_inv_def)
  then show ?thesis using assms False
    by (auto simp: acquireHalfOpenSlot_def acquire_body_def cb_simps spec_allow_def)
qed

lemma Allow_refines:
  assumes "cb_inv t cb" "t \<le> t'" "t' < 2 ^ 63"
  shows "cb_inv t' (snd (Allow t' cb)) \<and> same_config cb (snd (Allow t' cb)) \<and>
     (fst (Allow t' cb), cb_abs (snd (Allow t' cb))) = spec_allow (cb_reset cb) (halfOpenMax cb) t' (cb_abs cb)"
proof -
  have inv': "cb_inv t' cb" using assms by (auto simp: cb_inv_def)
  show ?thesis
  proof (cases "cb_st cb")
    case cbClosed
    then show ?thesis using inv'
      by (subst (1 2 3 4) Allow.simps) (simp add: cb_simps spec_allow_def)
  next
    case cbHalfOpen
    then show ?thesis using acquire_refines [OF inv'] by (simp add: Allow.simps)
  next
    case cbOpen
    obtain b cb1 where t: "tryOpenToHalfOpen t' cb = (b, cb1)" by (cases "tryOpenToHalfOpen t' cb")
    from tryOpen_refines [OF assms] t cbOpen
    have r: "cb_inv t' cb1" "same_config cb cb1"
      "cb_abs cb1 = spec_renormalize (cb_reset cb) t' (cb_abs cb)" "b \<longleftrightarrow> cb_st cb1 = cbHalfOpen"
      by auto
    show ?thesis
    proof (cases b)
      case True
      then have h: "cb_st cb1 = cbHalfOpen" using r by simp
      have a: "Allow t' cb = acquireHalfOpenSlot cb1"
        using cbOpen t True h by (simp add: Allow.simps)
      have "spec_allow (cb_reset cb) (halfOpenMax cb) t' (cb_abs cb) =
            spec_allow (cb_reset cb1) (halfOpenMax cb1) t' (cb_abs cb1)"
        unfolding spec_allow_def r(3) [symmetric] using r(2) h by (simp add: same_config_def cb_abs_def)
      then show ?thesis using acquire_refines [OF r(1) h] r(2) unfolding a
        by (simp add: same_config_def)
    next
      case False
      have a: "Allow t' cb = (False, cb1)" using cbOpen t False by (simp add: Allow.simps)
      have "cb_st cb1 = cbOpen" using t False cbOpen
        by (auto simp: tryOpenToHalfOpen_def Let_def split: if_splits)
      then have "cb_abs cb1 = SOpen (openSinceNs cb1)" by (simp add: cb_abs_def)
      then show ?thesis unfolding a using r by (simp add: spec_allow_def)
    qed
  qed
qed

lemma RecordFailure_refines:
  assumes "cb_inv t cb" "t \<le> t'" "t' < 2 ^ 63"
  shows "cb_inv t' (RecordFailure t' cb) \<and> same_config cb (RecordFailure t' cb) \<and>
     cb_abs (RecordFailure t' cb) = spec_failure (maxFailures cb) (max t' (openSinceNs cb)) (cb_abs cb)"
proof (cases "cb_st cb")
  case cbClosed
  then have "uint (cb_failureCount cb + 1) = uint (cb_failureCount cb) + 1"
    using assms by (intro uint_inc32) (auto simp: cb_inv_def max_def split: if_splits)
  then show ?thesis using cbClosed assms
    by (auto simp: RecordFailure_def Let_def transitionToOpen_def cb_simps)
qed (use assms in \<open>auto simp: RecordFailure_def Let_def transitionToOpen_def safeDecHalfOpenInflight_def
       safe_dec_body_def cb_simps\<close>)

lemma RecordSuccess_refines:
  assumes "cb_inv t cb"
  shows "cb_inv t (RecordSuccess cb) \<and> same_config cb (RecordSuccess cb) \<and>
     cb_abs (RecordSuccess cb) = spec_success (halfOpenMax cb) (cb_abs cb)"
proof (cases "cb_st cb")
  case cbHalfOpen
  then have s: "uint (halfOpenSuccess cb + 1) = uint (halfOpenSuccess cb) + 1"
    using assms by (intro uint_inc32) (auto simp: cb_inv_def)
  have "0 < halfOpenInflight cb \<Longrightarrow> wrap32 (halfOpenInflight cb - 1) = halfOpenInflight cb - 1"
    using assms cbHalfOpen by (intro wrap32_id in32_small) (auto simp: cb_inv_def)
  then show ?thesis using s cbHalfOpen assms
    by (auto simp: RecordSuccess_def Let_def safeDecHalfOpenInflight_def safe_dec_body_def cb_simps)
qed (use assms in \<open>auto simp: RecordSuccess_def Let_def cb_simps\<close>)

lemma cb_run_refines:
  assumes "cb_inv t cb" "cb_clock t es"
  shows "fst (cb_run es cb) = fst (spec_run (maxFailures cb) (cb_reset cb) (halfOpenMax cb) es (cb_abs cb)) \<and>
     cb_abs (snd (cb_run es cb)) = snd (spec_run (maxFailures cb) (cb_reset cb) (halfOpenMax cb) es (cb_abs cb))"
  using assms
proof (induction es arbitrary: t cb)
  case (Cons e es)
  show ?case
  proof (cases e)
    case (EvAllow t')
    note r = Allow_refines [of t cb t']
    define cb' where "cb' = snd (Allow t' cb)"
    have r: "cb_inv t' cb'" "same_config cb cb'"
      "spec_allow (cb_reset cb) (halfOpenMax cb) t' (cb_abs cb) = (fst (Allow t' cb), cb_abs cb')"
      using Allow_refines [of t cb t'] Cons.prems EvAllow by (simp_all add: cb'_def)
    from Cons.IH [OF r(1)] Cons.prems EvAllow r(2,3) show ?thesis
      by (simp add: case_prod_unfold Let_def same_config_def cb_reset_def flip: cb'_def)
  next
    case (EvFailure t')
    have "max t' (openSinceNs cb) = t'" using Cons.prems EvFailure by (simp add: cb_inv_def)
    then have r: "cb_inv t' (RecordFailure t' cb)" "same_config cb (RecordFailure t' cb)"
      "cb_abs (RecordFailure t' cb) = spec_failure (maxFailures cb) t' (cb_abs cb)"
      using RecordFailure_refines [of t cb t'] Cons.prems EvFailure by simp_all
    from Cons.IH [OF r(1)] Cons.prems EvFailure r(2,3) show ?thesis
      by (simp add: same_config_def cb_reset_def)
  next
    case EvSuccess
    note r = RecordSuccess_refines [OF Cons.prems(1)]
    from Cons.IH [OF conjunct1 [OF r]] Cons.prems EvSuccess r show ?thesis
      by (simp add: same_config_def cb_reset_def)
  next
    case (EvRenormalize t')
    have r: "cb_inv t' (CB_Renormalize t' cb)" "same_config cb (CB_Renormalize t' cb)"
      "cb_abs (CB_Renormalize t' cb) = spec_renormalize (cb_reset cb) t' (cb_abs cb)"
      using tryOpen_refines [of t cb t'] Cons.prems EvRenormalize by (simp_all add: CB_Renormalize_def)
    from Cons.IH [OF r(1)] Cons.prems EvRenormalize r(2,3) show ?thesis
      by (simp add: same_config_def cb_reset_def)
  qed
qed simp

lemma NewCircuitBreaker_inv:
  "mf < 2 ^ 32 \<Longrightarrow> hm < 2 ^ 31 \<Longrightarrow> 0 < t \<Longrightarrow> t < 2 ^ 63 \<Longrightarrow> cb_inv t (NewCircuitBreaker mf rt hm)"
  by (simp add: cb_inv_def NewCircuitBreaker_def)

text \<open>C10: the circuit breaker refines its promise. On every sequence of \<^verbatim>\<open>Allow\<close>, \<^verbatim>\<open>RecordFailure\<close>,
  \<^verbatim>\<open>RecordSuccess\<close> and \<^verbatim>\<open>Renormalize\<close> calls with a positive clock that does not run backwards, a new
  breaker gives the answers of the abstract automaton: closed until \<^verbatim>\<open>maxFailures\<close> failures in a
  row, open until more than the reset timeout has passed, then half-open with at most
  \<^verbatim>\<open>halfOpenMax\<close> probes, closed again after as many successes and open again at the first failure.\<close>

theorem breaker_refines_spec:
  assumes "mf < 2 ^ 32" "hm < 2 ^ 31" "0 < t" "t < 2 ^ 63" "cb_clock t es"
  shows "fst (cb_run es (NewCircuitBreaker mf rt hm)) =
         fst (spec_run mf (if rt \<le> 0 then minute else rt) (max 1 hm) es (SClosed 0))"
  using cb_run_refines [OF NewCircuitBreaker_inv [OF assms(1-4), of rt] assms(5)]
  by (auto simp: NewCircuitBreaker_def cb_reset_def cb_abs_def max_def)

theorem breaker_refines_spec_witness:
  "fst (cb_run [EvAllow 5, EvFailure 6, EvFailure 7, EvAllow 8, EvAllow 18, EvAllow 19, EvSuccess, EvAllow 20]
          (NewCircuitBreaker 2 10 1)) = [True, False, True, False, True]"
proof -
  have c: "cb_clock 1 [EvAllow 5, EvFailure 6, EvFailure 7, EvAllow 8, EvAllow 18, EvAllow 19, EvSuccess, EvAllow 20]"
    by simp
  show ?thesis
    using breaker_refines_spec [of 2 1 1, OF _ _ _ _ c, of 10] by (simp add: spec_allow_def)
qed

section \<open>A half-open breaker whose probes never report\<close>

text \<open>Calls that only ask: \<^verbatim>\<open>Allow\<close> and \<^verbatim>\<open>Renormalize\<close>.\<close>

fun asks :: "cb_event \<Rightarrow> bool" where
  "asks (EvAllow t) = True"
| "asks (EvRenormalize t) = True"
| "asks e = False"

lemma Allow_full:
  assumes "cb_st cb = cbHalfOpen" "0 \<le> halfOpenMax cb" "halfOpenMax cb \<le> halfOpenInflight cb"
  shows "Allow t cb = (False, cb)"
  using assms by (simp add: Allow.simps acquireHalfOpenSlot_def acquire_body_def)

text \<open>C36: a half-open breaker with all its probe slots taken stays so for ever, whatever the
  clock says: while no outcome is recorded every \<^verbatim>\<open>Allow\<close> is refused and neither the reset timeout
  nor \<^verbatim>\<open>Renormalize\<close> frees a slot. \<^verbatim>\<open>Schedule\<close> takes a slot before it enqueues and does not give it
  back when the enqueue fails, so such probes can be lost.\<close>

theorem half_open_slots_leak:
  assumes "cb_st cb = cbHalfOpen" "0 \<le> halfOpenMax cb" "halfOpenMax cb \<le> halfOpenInflight cb"
    "list_all asks es"
  shows "snd (cb_run es cb) = cb \<and> (\<forall>b\<in>set (fst (cb_run es cb)). \<not> b)"
  using assms(4)
proof (induction es)
  case (Cons e es)
  then show ?case using assms(1-3)
    by (cases e) (auto simp: Allow_full CB_Renormalize_def tryOpenToHalfOpen_def case_prod_unfold Let_def)
qed simp

theorem half_open_slots_leak_witness:
  "fst (cb_run [EvAllow 100, EvRenormalize 200, EvAllow 300]
     (snd (cb_run [EvFailure 6, EvAllow 18] (NewCircuitBreaker 1 10 1)))) = [False, False]"
proof -
  define cb where "cb = snd (cb_run [EvFailure 6, EvAllow 18] (NewCircuitBreaker 1 10 1))"
  have s: "cb_st cb = cbHalfOpen" "halfOpenMax cb = 1" "halfOpenInflight cb = 1"
    unfolding cb_def
    by (simp_all add: NewCircuitBreaker_def RecordFailure_def transitionToOpen_def Allow.simps
        tryOpenToHalfOpen_def acquireHalfOpenSlot_def acquire_body_def in64_def in32_def Let_def)
  have "length (fst (cb_run [EvAllow 100, EvRenormalize 200, EvAllow 300] cb)) = 2"
    by (simp add: case_prod_unfold Let_def)
  moreover have "\<forall>b\<in>set (fst (cb_run [EvAllow 100, EvRenormalize 200, EvAllow 300] cb)). \<not> b"
    by (rule half_open_slots_leak [THEN conjunct2]) (use s in simp_all)
  ultimately show ?thesis unfolding cb_def [symmetric]
    by (cases "fst (cb_run [EvAllow 100, EvRenormalize 200, EvAllow 300] cb)" rule: list.exhaust)
       (auto simp: length_Suc_conv numeral_2_eq_2)
qed

section \<open>The breaker as a regulator\<close>

definition cb_safe :: "CircuitBreaker \<Rightarrow> bool" where
  "cb_safe cb \<longleftrightarrow> 0 < halfOpenMax cb \<and> in32 (halfOpenInflight cb) \<and>
     (cb_st cb = cbHalfOpen \<longrightarrow> halfOpenInflight cb \<le> halfOpenMax cb)"

lemma wrap32_le: "- (2 ^ 31) \<le> x \<Longrightarrow> wrap32 x \<le> x"
proof (cases "x < 2 ^ 31")
  case False
  then show ?thesis using wrap32_in32 [of x] unfolding in32_def by linarith
qed (simp add: in32_def)

lemma tryOpen_safe: "cb_safe cb \<Longrightarrow> cb_safe (snd (tryOpenToHalfOpen t cb))"
  by (auto simp: tryOpenToHalfOpen_def cb_safe_def Let_def in32_def)

lemma acquire_safe: "cb_safe cb \<Longrightarrow> cb_safe (snd (acquireHalfOpenSlot cb))"
  using wrap32_le [of "halfOpenInflight cb + 1"]
  by (auto simp: acquireHalfOpenSlot_def acquire_body_def cb_safe_def in32_def [of "halfOpenInflight cb"])

lemma Allow_safe: "cb_safe cb \<Longrightarrow> cb_safe (snd (Allow t cb))"
proof (induction t cb rule: Allow.induct)
  case (1 t cb)
  show ?case
  proof (cases "cb_st cb")
    case cbOpen
    obtain b cb' where tr: "tryOpenToHalfOpen t cb = (b, cb')" by (cases "tryOpenToHalfOpen t cb")
    then have "cb_safe cb'" using tryOpen_safe [OF 1(2), of t] by simp
    with 1(1) [OF cbOpen tr [symmetric]] cbOpen tr show ?thesis
      by (cases b) (auto simp: Allow.simps [of t cb])
  qed (use 1(2) acquire_safe in \<open>auto simp: Allow.simps [of t cb]\<close>)
qed

interpretation circuit_breaker: regulator CircuitBreaker_ops cb_safe
  by unfold_locales
     (simp_all add: CircuitBreaker_ops_def CB_Observe_def CB_Limit_def CB_Renormalize_def
       case_prod_unfold Let_def Allow_safe tryOpen_safe)

section \<open>The probe counter under any interleaving\<close>

datatype probe_op = Acquire | Release

fun probe_code :: "int \<Rightarrow> probe_op \<Rightarrow> (int, bool) access" where
  "probe_code hm Acquire = Cas (acquire_body hm)"
| "probe_code hm Release = Cas safe_dec_body"

abbreviation granted :: "probe_op \<Rightarrow> (probe_op \<times> bool) list \<Rightarrow> nat" where
  "granted p h \<equiv> length (filter (\<lambda>(op, r). op = p \<and> r) h)"

lemma probe_atomic:
  assumes "0 < hm" "hm < 2 ^ 31" "0 \<le> v" "v \<le> hm"
  shows "0 \<le> fst (atomically (probe_code hm op) v) \<and> fst (atomically (probe_code hm op) v) \<le> hm \<and>
     fst (atomically (probe_code hm op) v) =
       (if snd (atomically (probe_code hm op) v) then (case op of Acquire \<Rightarrow> v + 1 | Release \<Rightarrow> v - 1) else v)"
proof (cases op)
  case Acquire
  have "\<not> hm \<le> v \<Longrightarrow> wrap32 (v + 1) = v + 1" using assms by (intro wrap32_id in32_small) auto
  then show ?thesis using Acquire assms by (auto simp: acquire_body_def)
next
  case Release
  have "0 < v \<Longrightarrow> wrap32 (v - 1) = v - 1" using assms by (intro wrap32_id in32_small) auto
  then show ?thesis using Release assms by (auto simp: safe_dec_body_def)
qed

interpretation probe_cell: cas_object "probe_code hm" 0 "\<lambda>v. 0 < hm \<and> hm < 2 ^ 31 \<longrightarrow> 0 \<le> v \<and> v \<le> hm"
  by unfold_locales (auto dest: probe_atomic)

lemma probe_serial:
  assumes "serial_run (probe_code hm) v h = Some w" "0 < hm" "hm < 2 ^ 31" "0 \<le> v" "v \<le> hm"
  shows "w = v + int (granted Acquire h) - int (granted Release h)"
  using assms
proof (induction h arbitrary: v)
  case (Cons x h)
  obtain op r where x: "x = (op, r)" by (cases x)
  obtain v' r' where a: "atomically (probe_code hm op) v = (v', r')"
    by (cases "atomically (probe_code hm op) v")
  note p = probe_atomic [OF Cons.prems(2-5), of op, unfolded a fst_conv snd_conv]
  from Cons.prems(1) have "r' = r" "serial_run (probe_code hm) v' h = Some w"
    by (auto simp: x a split: if_splits)
  with Cons.IH [of v'] p Cons.prems show ?case by (cases op) (auto simp: x)
qed simp

text \<open>C29: concurrent probes. However the compare-and-swap loops that take and return half-open
  slots interleave, the slots in flight stay between zero and \<^verbatim>\<open>halfOpenMax\<close> and are exactly the
  granted acquisitions that have not been returned.\<close>

theorem probes_bounded:
  assumes "cas_reachable (probe_code hm) 0 s" "0 < hm" "hm < 2 ^ 31"
  shows "0 \<le> cell s \<and> cell s \<le> hm \<and>
     cell s = int (granted Acquire (completed s)) - int (granted Release (completed s))"
  using probe_cell.cell_inv [OF assms(1)] probe_serial [OF probe_cell.linearizable [OF assms(1)]] assms
  by auto

theorem probes_bounded_witness:
  "let s = cas_exec (probe_code 1) 0
     [Begin 0 Acquire, Begin 1 Acquire, Advance 0, Advance 1, Advance 1, Advance 0, Advance 0]
   in completed s = [(Acquire, True), (Acquire, False)] \<and> 0 \<le> cell s \<and> cell s \<le> 1"
proof -
  define s where "s = cas_exec (probe_code 1) 0
     [Begin 0 Acquire, Begin 1 Acquire, Advance 0, Advance 1, Advance 1, Advance 0, Advance 0]"
  have r: "cas_reachable (probe_code 1) 0 s" unfolding s_def by (rule cas_exec_reachable)
  have c: "completed s = [(Acquire, True), (Acquire, False)]"
    by (simp add: s_def cas_exec_def cas_init_def acquire_body_def in32_def)
  have "0 \<le> cell s \<and> cell s \<le> 1 \<and>
     cell s = int (granted Acquire (completed s)) - int (granted Release (completed s))"
    by (rule probes_bounded [OF r]) simp_all
  with c show ?thesis unfolding Let_def s_def [symmetric] by blast
qed

end
