(* ===== verification/Regulators.thy ===== *)
theory Regulators
  imports Circuit_Breaker Rate_Limiter
begin

text \<open>
  \<^verbatim>\<open>backpressure.go\<close>, \<^verbatim>\<open>loadbalancer.go\<close> and \<^verbatim>\<open>resourcegovernor.go\<close>, and the sum of all regulators of
  the package, on which the pool's admission loops run. The constants \<open>0.6\<close>, \<open>0.4\<close>, \<open>0.8\<close> and
  \<open>0.1\<close> of the source are the \<^verbatim>\<open>float64\<close> values nearest to them. The product sums are
  evaluated without fused multiply-add, as on amd64.
\<close>

section \<open>Back-pressure\<close>

definition f_six :: f64 where "f_six = rnd (6 / 10)"
definition f_four :: f64 where "f_four = rnd (4 / 10)"
definition f_eight :: f64 where "f_eight = rnd (8 / 10)"
definition f_tenth :: f64 where "f_tenth = rnd (1 / 10)"

record BackPressureRegulator =
  maxQueueSize :: int
  targetProcessTime :: int
  currentPressure :: f64
  bp_lastReading :: "MetricReading option"

definition NewBackPressureRegulator :: "int \<Rightarrow> int \<Rightarrow> int \<Rightarrow> BackPressureRegulator" where
  "NewBackPressureRegulator mq tp window =
     \<lparr>maxQueueSize = mq, targetProcessTime = tp, currentPressure = Fin 0, bp_lastReading = None\<rparr>"

definition bp_pressure :: "int \<Rightarrow> int \<Rightarrow> MetricReading \<Rightarrow> f64" where
  "bp_pressure mq tp reading =
     (let queuePressure = (if 0 < mq then f_div (f_of_int (JobQueueSize reading)) (f_of_int mq) else Fin 0);
          timingPressure = (if 0 < tp \<and> 0 < AverageJobLatency reading
                            then f_div (f_of_int (AverageJobLatency reading)) (f_of_int tp) else Fin 0);
          p = f_add (f_mul queuePressure f_six) (f_mul timingPressure f_four)
      in f_min (Fin 1) (f_max (Fin 0) p))"

definition BP_Observe :: "MetricReading \<Rightarrow> BackPressureRegulator \<Rightarrow> BackPressureRegulator" where
  "BP_Observe reading bp =
     bp\<lparr>bp_lastReading := Some reading,
        currentPressure := bp_pressure (maxQueueSize bp) (targetProcessTime bp) reading\<rparr>"

definition BP_Limit :: "BackPressureRegulator \<Rightarrow> bool" where
  "BP_Limit bp = f_le f_eight (currentPressure bp)"

definition BP_Renormalize :: "BackPressureRegulator \<Rightarrow> BackPressureRegulator" where
  "BP_Renormalize bp =
     (case bp_lastReading bp of
        None \<Rightarrow> bp
      | Some read \<Rightarrow>
          if 0 < maxQueueSize bp \<and> JobQueueSize read < quot64 (maxQueueSize bp) 2 \<and>
             AverageJobLatency read < targetProcessTime bp
          then bp\<lparr>currentPressure := f_max (Fin 0) (f_sub (currentPressure bp) f_tenth)\<rparr>
          else bp)"

definition GetPressure :: "BackPressureRegulator \<Rightarrow> f64" where
  "GetPressure bp = currentPressure bp"

section \<open>Load balancer\<close>

datatype lb_error = ErrNoAvailableWorkers

record LoadBalancer =
  perWorkerCapacity :: int
  lb_lastReading :: "MetricReading option"

definition NewLoadBalancer :: "int \<Rightarrow> int \<Rightarrow> LoadBalancer" where
  "NewLoadBalancer workers cap = \<lparr>perWorkerCapacity = cap, lb_lastReading = None\<rparr>"

definition LB_Observe :: "MetricReading \<Rightarrow> LoadBalancer \<Rightarrow> LoadBalancer" where
  "LB_Observe reading lb = lb\<lparr>lb_lastReading := Some reading\<rparr>"

definition LB_Limit :: "LoadBalancer \<Rightarrow> bool" where
  "LB_Limit lb =
     (case lb_lastReading lb of
        None \<Rightarrow> False
      | Some read \<Rightarrow>
          let workers = (if WorkerCount read \<le> 0 then 1 else WorkerCount read);
              load = f_div (f_of_int (JobQueueSize read)) (f_of_int workers)
          in f_le (f_of_int (perWorkerCapacity lb)) load)"

definition LB_Renormalize :: "LoadBalancer \<Rightarrow> LoadBalancer" where
  "LB_Renormalize lb = lb"

definition SelectWorker :: "LoadBalancer \<Rightarrow> lb_error + int" where
  "SelectWorker lb =
     (case lb_lastReading lb of
        None \<Rightarrow> Inl ErrNoAvailableWorkers
      | Some read \<Rightarrow>
          if WorkerCount read \<le> 0 then Inl ErrNoAvailableWorkers
          else Inr (rem64 (TotalJobs read) (WorkerCount read)))"

definition RecordJobStart :: "int \<Rightarrow> LoadBalancer \<Rightarrow> LoadBalancer" where
  "RecordJobStart workerID lb = lb"

definition RecordJobComplete :: "int \<Rightarrow> int \<Rightarrow> LoadBalancer \<Rightarrow> LoadBalancer" where
  "RecordJobComplete workerID duration lb = lb"

section \<open>Resource governor\<close>

record ResourceGovernorRegulator =
  maxCPUPercent :: f64
  maxMemoryPercent :: f64
  checkIntervalNs :: int
  currentCPU :: f64
  currentMemory :: f64
  rg_lastReading :: "MetricReading option"
  lastRenormalizeUnixNano :: int
  lastMemSampleUnixNano :: int
  readMemStats :: "(env \<Rightarrow> u64 \<times> u64) option"

text \<open>\<^verbatim>\<open>runtime.ReadMemStats\<close>: of its fields the governor reads \<^verbatim>\<open>Sys\<close> and \<^verbatim>\<open>Alloc\<close>. A regulator can be given another source of
  statistics, which a test uses.\<close>

definition runtime_ReadMemStats :: "env \<Rightarrow> u64 \<times> u64" where
  "runtime_ReadMemStats e = (mem_Sys e, mem_Alloc e)"

definition NewResourceGovernorRegulator :: "f64 \<Rightarrow> f64 \<Rightarrow> int \<Rightarrow> ResourceGovernorRegulator" where
  "NewResourceGovernorRegulator cpu mem interval =
     \<lparr>maxCPUPercent = cpu, maxMemoryPercent = mem, checkIntervalNs = interval,
      currentCPU = Fin 0, currentMemory = Fin 0, rg_lastReading = None,
      lastRenormalizeUnixNano = 0, lastMemSampleUnixNano = 0, readMemStats = Some runtime_ReadMemStats\<rparr>"

definition tryStartMemorySample :: "int \<Rightarrow> ResourceGovernorRegulator \<Rightarrow> bool \<times> ResourceGovernorRegulator" where
  "tryStartMemorySample now rg =
     (if checkIntervalNs rg \<le> 0 then (True, rg)
      else let lastMem = lastMemSampleUnixNano rg
           in if lastMem \<noteq> 0 \<and> wrap64 (now - lastMem) < checkIntervalNs rg then (False, rg)
              else (True, rg\<lparr>lastMemSampleUnixNano := now\<rparr>))"

definition readRuntimeMemStats :: "env \<Rightarrow> ResourceGovernorRegulator \<Rightarrow> u64 \<times> u64" where
  "readRuntimeMemStats e rg = (case readMemStats rg of None \<Rightarrow> runtime_ReadMemStats e | Some read \<Rightarrow> read e)"

definition memory_ratio :: "u64 \<times> u64 \<Rightarrow> f64" where
  "memory_ratio stats =
     (let totalMemory = f_of_int (uint (fst stats));
          totalMemory' = (if f_le totalMemory (Fin 0) then Fin 1 else totalMemory)
      in f_div (f_of_int (uint (snd stats))) totalMemory')"

definition RG_Observe :: "env \<Rightarrow> MetricReading \<Rightarrow> ResourceGovernorRegulator \<Rightarrow> ResourceGovernorRegulator" where
  "RG_Observe e reading rg =
     (let rg1 = rg\<lparr>rg_lastReading := Some reading\<rparr>;
          rg2 = (if f_lt (Fin 0) (ResourceUtilization reading)
                 then rg1\<lparr>currentCPU := ResourceUtilization reading\<rparr> else rg1)
      in case tryStartMemorySample (now_ns e) rg2 of
           (False, rg3) \<Rightarrow> rg3
         | (True, rg3) \<Rightarrow> rg3\<lparr>currentMemory := memory_ratio (readRuntimeMemStats e rg3)\<rparr>)"

definition RG_Limit :: "ResourceGovernorRegulator \<Rightarrow> bool" where
  "RG_Limit rg = (f_le (maxCPUPercent rg) (currentCPU rg) \<or> f_le (maxMemoryPercent rg) (currentMemory rg))"

definition RG_Renormalize :: "env \<Rightarrow> ResourceGovernorRegulator \<Rightarrow> ResourceGovernorRegulator" where
  "RG_Renormalize e rg =
     (case rg_lastReading rg of
        None \<Rightarrow> rg
      | Some read \<Rightarrow>
          if checkIntervalNs rg \<le> 0 then RG_Observe e read rg
          else let prev = lastRenormalizeUnixNano rg
               in if prev \<noteq> 0 \<and> wrap64 (now_ns e - prev) < checkIntervalNs rg then rg
                  else RG_Observe e read (rg\<lparr>lastRenormalizeUnixNano := now_ns e\<rparr>))"

definition GetResourceUsage :: "ResourceGovernorRegulator \<Rightarrow> f64 \<times> f64" where
  "GetResourceUsage rg = (currentCPU rg, currentMemory rg)"

definition GetThresholds :: "ResourceGovernorRegulator \<Rightarrow> f64 \<times> f64" where
  "GetThresholds rg = (maxCPUPercent rg, maxMemoryPercent rg)"

section \<open>Pressure\<close>

definition c6 :: rat where "c6 = round53 (6 / 10)"
definition c4 :: rat where "c4 = round53 (4 / 10)"
definition c8 :: rat where "c8 = round53 (8 / 10)"
definition c1 :: rat where "c1 = round53 (1 / 10)"

lemma rnd_unit: "0 \<le> x \<Longrightarrow> x \<le> 1 \<Longrightarrow> rnd x = Fin (round53 x)"
  using one_le_power [of "2::rat" 1000] by (intro rnd_Fin) simp

lemma const_eqs: "f_six = Fin c6" "f_four = Fin c4" "f_eight = Fin c8" "f_tenth = Fin c1"
  by (simp_all add: f_six_def f_four_def f_eight_def f_tenth_def c6_def c4_def c8_def c1_def rnd_unit)

lemma round53_between:
  assumes "of_int a / 2 ^ k \<le> x" "x \<le> of_int b / 2 ^ k" "0 \<le> a" "0 \<le> b" "a \<le> 2 ^ 53" "b \<le> 2 ^ 53" "k \<le> 1074"
  shows "of_int a / 2 ^ k \<le> round53 x" "round53 x \<le> of_int b / 2 ^ k"
  using round53_mono [OF assms(1)] round53_mono [OF assms(2)] assms
  by (simp_all add: round53_frac)

lemma c6_bounds: "9 / 16 \<le> c6" "c6 \<le> 3 / 4"
  using round53_between [of 9 4 "6 / 10" 12] by (simp_all add: c6_def)

lemma c4_bounds: "0 \<le> c4" "c4 \<le> 1"
  by (simp_all add: c4_def round53_nonneg round53_le_1)

lemma c8_bounds: "25 / 32 \<le> c8" "c8 \<le> 1"
  using round53_between [of 25 5 "8 / 10" 32] by (simp_all add: c8_def)

lemma c1_bounds: "0 \<le> c1" "c1 \<le> 1"
  by (simp_all add: c1_def round53_nonneg round53_le_1)

text \<open>The pressure as a rational number.\<close>

definition bp_sum :: "int \<Rightarrow> int \<Rightarrow> int \<Rightarrow> int \<Rightarrow> rat" where
  "bp_sum mq tp q l =
     round53 (round53 ((if 0 < mq then ratio q mq else 0) * c6) +
              round53 ((if 0 < tp \<and> 0 < l then ratio l tp else 0) * c4))"

lemma abs_mult_unit: "\<bar>x\<bar> \<le> 2 ^ 64 \<Longrightarrow> 0 \<le> c \<Longrightarrow> c \<le> 1 \<Longrightarrow> \<bar>x * c\<bar> \<le> (2::rat) ^ 64"
  using mult_mono [of "\<bar>x\<bar>" "2 ^ 64" "\<bar>c\<bar>" 1] by (simp add: abs_mult)

lemma f_mul_unit:
  assumes "\<bar>x\<bar> \<le> 2 ^ 64" "0 \<le> c" "c \<le> 1"
  shows "f_mul (Fin x) (Fin c) = Fin (round53 (x * c)) \<and> \<bar>round53 (x * c)\<bar> \<le> 2 ^ 64"
proof -
  have m: "\<bar>x * c\<bar> \<le> 2 ^ 64" using assms by (rule abs_mult_unit)
  have "(2::rat) ^ 64 \<le> 2 ^ 1000" by (rule power_increasing) simp_all
  with m have "\<bar>x * c\<bar> \<le> 2 ^ 1000" by linarith
  with m show ?thesis using round53_bound [OF m] by (simp add: rnd_Fin)
qed

lemma f_add_mid:
  assumes "\<bar>x\<bar> \<le> 2 ^ 64" "\<bar>y\<bar> \<le> 2 ^ 64"
  shows "f_add (Fin x) (Fin y) = Fin (round53 (x + y))"
proof -
  have "(2::rat) ^ 64 + 2 ^ 64 \<le> 2 ^ 1000"
    using power_increasing [of 65 1000 "2::rat"] by simp
  then have "\<bar>x + y\<bar> \<le> 2 ^ 1000" using assms abs_triangle_ineq [of x y] by linarith
  then show ?thesis by (simp add: rnd_Fin)
qed

lemma clamp_Fin: "f_min (Fin 1) (f_max (Fin 0) (Fin p)) = Fin (min 1 (max 0 p))"
  by (simp add: f_min_def f_max_def)

lemma bp_pressure_eq:
  assumes "in64 mq" "in64 tp" "reading_ok r"
  shows "bp_pressure mq tp r = Fin (min 1 (max 0 (bp_sum mq tp (JobQueueSize r) (AverageJobLatency r))))"
proof -
  define x where "x = (if 0 < mq then ratio (JobQueueSize r) mq else 0)"
  define y where "y = (if 0 < tp \<and> 0 < AverageJobLatency r then ratio (AverageJobLatency r) tp else 0)"
  have r: "in64 (JobQueueSize r)" "in64 (AverageJobLatency r)" using assms(3) by (auto simp: reading_ok_def)
  have ab: "\<bar>x\<bar> \<le> 2 ^ 64" "\<bar>y\<bar> \<le> 2 ^ 64" 
    unfolding x_def y_def using assms r by (auto intro: ratio_abs simp del: power_numeral)
  have qx: "(if 0 < mq then f_div (f_of_int (JobQueueSize r)) (f_of_int mq) else Fin 0) = Fin x"
    using assms r by (simp add: x_def f_div_ints)
  have ty: "(if 0 < tp \<and> 0 < AverageJobLatency r then f_div (f_of_int (AverageJobLatency r)) (f_of_int tp) else Fin 0) = Fin y"
    using assms r by (simp add: y_def f_div_ints)
  have m6: "f_mul (Fin x) f_six = Fin (round53 (x * c6))" "\<bar>round53 (x * c6)\<bar> \<le> 2 ^ 64"
    using f_mul_unit [OF ab(1), of c6] c6_bounds unfolding const_eqs by auto
  have m4: "f_mul (Fin y) f_four = Fin (round53 (y * c4))" "\<bar>round53 (y * c4)\<bar> \<le> 2 ^ 64"
    using f_mul_unit [OF ab(2) c4_bounds] unfolding const_eqs by auto
  have "f_add (f_mul (Fin x) f_six) (f_mul (Fin y) f_four) = Fin (bp_sum mq tp (JobQueueSize r) (AverageJobLatency r))"
    unfolding m6(1) m4(1) f_add_mid [OF m6(2) m4(2)] by (simp only: bp_sum_def x_def y_def)
  then show ?thesis by (simp only: bp_pressure_def Let_def qx ty clamp_Fin)
qed

lemma ratio_nonneg: "0 \<le> a \<Longrightarrow> 0 < b \<Longrightarrow> 0 \<le> ratio a b"
  using ratio_mono [of 0 a b] by (simp add: ratio_def)

lemma ratio_self: "0 < b \<Longrightarrow> ratio b b = 1"
  using round53_ge_1 [of "of_int b"] by (simp add: ratio_def)

lemma bp_sum_mono: "q \<le> q' \<Longrightarrow> l \<le> l' \<Longrightarrow> bp_sum mq tp q l \<le> bp_sum mq tp q' l'"
  unfolding bp_sum_def using c6_bounds c4_bounds
  by (intro round53_mono add_mono mult_right_mono) (auto intro: ratio_mono ratio_nonneg)

lemma ratio_ge_2:
  assumes "0 < mq" "mq \<le> 2 ^ 52" "2 * mq \<le> q"
  shows "2 \<le> ratio q mq"
proof -
  have e: "round53 (of_int (2 * mq)) = of_int (2 * mq)" "round53 (of_int mq) = of_int mq"
    using assms by (auto intro!: round53_int simp del: of_int_mult)
  have "of_int (2 * mq) \<le> round53 (of_int q)"
    using round53_mono [of "of_int (2 * mq)" "of_int q"] assms(3) unfolding e by simp
  then have "of_int 2 \<le> round53 (of_int q) / round53 (of_int mq)"
    using assms(1) unfolding e by (simp add: pos_le_divide_eq)
  then have "round53 (of_int 2) \<le> ratio q mq" unfolding ratio_def by (rule round53_mono)
  then show ?thesis using round53_int [of 2] by simp
qed

lemma bp_sum_fits:
  assumes "0 < mq" "q \<le> mq" "l \<le> 0"
  shows "bp_sum mq tp q l \<le> 3 / 4"
proof -
  have s: "round53 (3 / 4) = 3 / 4" using round53_frac [of 3 2] by simp
  have "ratio q mq \<le> 1" using ratio_mono [of q mq mq] assms by (simp add: ratio_self)
  then have "ratio q mq * c6 \<le> 1 * c6" using c6_bounds by (intro mult_right_mono) auto
  then have "ratio q mq * c6 \<le> 3 / 4" using c6_bounds by linarith
  then have "round53 (round53 (ratio q mq * c6)) \<le> round53 (round53 (3 / 4))" by (intro round53_mono)
  then show ?thesis using assms by (simp add: bp_sum_def s)
qed

lemma bp_sum_exceeds:
  assumes "0 < mq" "mq \<le> 2 ^ 52" "2 * mq \<le> q"
  shows "1 \<le> bp_sum mq tp q l"
proof -
  have "2 * (9 / 16) \<le> ratio q mq * c6"
    using ratio_ge_2 [OF assms] c6_bounds by (intro mult_mono) auto
  then have one: "1 \<le> round53 (ratio q mq * c6)" by (intro round53_ge_1) simp
  have "0 \<le> (if 0 < tp \<and> 0 < l then ratio l tp else 0) * c4" using c4_bounds by (simp add: ratio_nonneg)
  then have "0 \<le> round53 ((if 0 < tp \<and> 0 < l then ratio l tp else 0) * c4)" by (rule round53_nonneg)
  with one assms(1) show ?thesis unfolding bp_sum_def by (intro round53_ge_1) simp
qed

text \<open>Back-pressure. For 64-bit configuration and readings the pressure is a number in
  \<open>[0, 1]\<close> that grows with the queue length and with the average latency. With no measured
  latency a queue within \<^verbatim>\<open>maxQueueSize\<close> is never rejected, and one of twice that size always is.\<close>

theorem back_pressure_shape:
  assumes "in64 mq" "in64 tp" "reading_ok r" "reading_ok r'"
    "JobQueueSize r \<le> JobQueueSize r'" "AverageJobLatency r \<le> AverageJobLatency r'"
  shows "(\<exists>p p'. bp_pressure mq tp r = Fin p \<and> bp_pressure mq tp r' = Fin p' \<and> 0 \<le> p \<and> p \<le> p' \<and> p' \<le> 1) \<and>
    (0 < mq \<and> JobQueueSize r \<le> mq \<and> AverageJobLatency r \<le> 0 \<longrightarrow>
       \<not> BP_Limit (BP_Observe r (NewBackPressureRegulator mq tp w))) \<and>
    (0 < mq \<and> mq \<le> 2 ^ 52 \<and> 2 * mq \<le> JobQueueSize r \<longrightarrow>
       BP_Limit (BP_Observe r (NewBackPressureRegulator mq tp w)))"
proof -
  have lim: "BP_Limit (BP_Observe r (NewBackPressureRegulator mq tp w)) \<longleftrightarrow>
     c8 \<le> min 1 (max 0 (bp_sum mq tp (JobQueueSize r) (AverageJobLatency r)))"
    using bp_pressure_eq [OF assms(1-3)]
    by (simp add: BP_Limit_def BP_Observe_def NewBackPressureRegulator_def const_eqs)
  have "\<exists>p p'. bp_pressure mq tp r = Fin p \<and> bp_pressure mq tp r' = Fin p' \<and> 0 \<le> p \<and> p \<le> p' \<and> p' \<le> 1"
    using bp_sum_mono [OF assms(5,6), of mq tp] bp_pressure_eq assms by (auto simp: min_def max_def)
  moreover have "\<not> c8 \<le> min 1 (max 0 (bp_sum mq tp (JobQueueSize r) (AverageJobLatency r)))"
    if "0 < mq \<and> JobQueueSize r \<le> mq \<and> AverageJobLatency r \<le> 0"
    using bp_sum_fits [of mq "JobQueueSize r" "AverageJobLatency r" tp] that c8_bounds by auto
  moreover have "c8 \<le> min 1 (max 0 (bp_sum mq tp (JobQueueSize r) (AverageJobLatency r)))"
    if "0 < mq \<and> mq \<le> 2 ^ 52 \<and> 2 * mq \<le> JobQueueSize r"
    using bp_sum_exceeds [of mq "JobQueueSize r" tp "AverageJobLatency r"] that c8_bounds by auto
  ultimately show ?thesis unfolding lim by blast
qed

definition sample_reading :: "int \<Rightarrow> int \<Rightarrow> MetricReading" where
  "sample_reading q w =
     \<lparr>WorkerCount = w, BusyWorkers = 0, JobQueueSize = q, AverageJobLatency = 0, P95JobLatency = 0,
      P99JobLatency = 0, JobSuccessRate = Fin 1, ResourceUtilization = Fin 0, TotalJobs = 7, FailedJobs = 0,
      SchedulingFailures = 0, RateLimitHits = 0, ThrottledJobs = 0\<rparr>"

lemma sample_reading_ok: "in64 q \<Longrightarrow> in64 w \<Longrightarrow> reading_ok (sample_reading q w)"
  by (simp add: reading_ok_def sample_reading_def in64_def [of 7])

theorem back_pressure_shape_witness:
  "reading_ok (sample_reading 10 2) \<and>
   \<not> BP_Limit (BP_Observe (sample_reading 10 2) (NewBackPressureRegulator 10 1000 0)) \<and>
   BP_Limit (BP_Observe (sample_reading 20 2) (NewBackPressureRegulator 10 1000 0))"
proof -
  have ok: "in64 10" "in64 1000" "reading_ok (sample_reading 10 2)" "reading_ok (sample_reading 20 2)"
    by (simp_all add: sample_reading_ok in64_def)
  show ?thesis
    using back_pressure_shape [OF ok, of 0] back_pressure_shape [OF ok(1,2,4,4), of 0] ok(3)
    by (simp add: sample_reading_def)
qed

section \<open>Load\<close>

text \<open>The load balancer rejects exactly when the queued jobs fill every worker's budget: with
  counts small enough to be exact in a \<^verbatim>\<open>float64\<close> the rounded comparison of the source is the
  integer comparison \<open>capacity * workers \<le> queue\<close>, and without a reading it never rejects.\<close>

theorem load_balancer_exact:
  assumes "0 \<le> JobQueueSize r" "JobQueueSize r \<le> 2 ^ 53" "0 \<le> cap" "WorkerCount r \<le> 2 ^ 52"
    "cap * max 1 (WorkerCount r) \<le> 2 ^ 52"
  shows "\<not> LB_Limit (NewLoadBalancer n cap) \<and>
    (LB_Limit (LB_Observe r (NewLoadBalancer n cap)) \<longleftrightarrow> cap * max 1 (WorkerCount r) \<le> JobQueueSize r)"
proof -
  define w where "w = max 1 (WorkerCount r)"
  have w: "0 < w" "w \<le> 2 ^ 52" "(if WorkerCount r \<le> 0 then 1 else WorkerCount r) = w"
    using assms(4) by (auto simp: w_def)
  have "cap * 1 \<le> cap * w" using assms(3) w by (intro mult_left_mono) auto
  then have c: "f_of_int cap = Fin (of_int cap)" using assms(3,5) by (intro f_of_int_small) (simp add: w_def)
  have "in64 (JobQueueSize r)" "in64 w" using assms w by (auto simp: in64_def)
  then have "f_div (f_of_int (JobQueueSize r)) (f_of_int w) = Fin (ratio (JobQueueSize r) w)"
    using w by (intro f_div_ints)
  then show ?thesis
    using ratio_ge_int [OF assms(1,2) w(1) assms(3) w(2)] assms(5) w(3) c
    by (simp add: LB_Limit_def LB_Observe_def NewLoadBalancer_def Let_def flip: w_def)
qed

theorem load_balancer_exact_witness:
  "LB_Limit (LB_Observe (sample_reading 6 2) (NewLoadBalancer 0 3)) \<and>
   \<not> LB_Limit (LB_Observe (sample_reading 5 2) (NewLoadBalancer 0 3))"
  using load_balancer_exact [of "sample_reading 6 2" 3 0] load_balancer_exact [of "sample_reading 5 2" 3 0]
  by (simp add: sample_reading_def)

lemma SelectWorker_range:
  "SelectWorker lb = Inr i \<Longrightarrow> (\<And>r. lb_lastReading lb = Some r \<Longrightarrow> 0 \<le> TotalJobs r) \<Longrightarrow>
   \<exists>r. lb_lastReading lb = Some r \<and> 0 \<le> i \<and> i < WorkerCount r"
  using rem64_bounds by (auto simp: SelectWorker_def split: option.splits if_splits)

section \<open>Memory sampling\<close>

text \<open>A run of \<^verbatim>\<open>Observe\<close> calls; the result lists the clock readings at which the memory statistics
  were sampled.\<close>

fun rg_samples :: "(env \<times> MetricReading) list \<Rightarrow> ResourceGovernorRegulator \<Rightarrow> int list \<times> ResourceGovernorRegulator" where
  "rg_samples [] rg = ([], rg)"
| "rg_samples ((e, r) # es) rg =
     (let sampled = fst (tryStartMemorySample (now_ns e) rg);
          (ts, rg') = rg_samples es (RG_Observe e r rg)
      in (if sampled then now_ns e # ts else ts, rg'))"

fun rising :: "int \<Rightarrow> int list \<Rightarrow> bool" where
  "rising t [] = True"
| "rising t (t' # ts) = (t \<le> t' \<and> t' < 2 ^ 63 \<and> rising t' ts)"

fun spaced :: "int \<Rightarrow> int list \<Rightarrow> bool" where
  "spaced d (a # b # ts) = (d \<le> b - a \<and> spaced d (b # ts))"
| "spaced d _ = True"

lemma rg_samples_spaced:
  assumes "0 < checkIntervalNs rg" "0 < t" "rising t (map (now_ns \<circ> fst) es)"
    "0 \<le> lastMemSampleUnixNano rg" "lastMemSampleUnixNano rg \<le> t"
  shows "spaced (checkIntervalNs rg) (fst (rg_samples es rg)) \<and>
    (0 < lastMemSampleUnixNano rg \<longrightarrow> spaced (checkIntervalNs rg) (lastMemSampleUnixNano rg # fst (rg_samples es rg)))"
  using assms
proof (induction es arbitrary: t rg)
  case (Cons x es)
  obtain e r where x: "x = (e, r)" by (cases x)
  define t' where "t' = now_ns e"
  have t': "t \<le> t'" "t' < 2 ^ 63" "rising t' (map (now_ns \<circ> fst) es)" using Cons.prems(3) by (auto simp: x t'_def comp_def)
  have i: "in64 (t' - lastMemSampleUnixNano rg)" using Cons.prems t' by (simp add: in64_def)
  define rg1 where "rg1 = RG_Observe e r rg"
  have c: "checkIntervalNs rg1 = checkIntervalNs rg"
    by (auto simp: rg1_def RG_Observe_def tryStartMemorySample_def Let_def split: prod.splits bool.splits)
  show ?case
  proof (cases "lastMemSampleUnixNano rg \<noteq> 0 \<and> t' - lastMemSampleUnixNano rg < checkIntervalNs rg")
    case True
    then have "fst (tryStartMemorySample t' rg) = False" "lastMemSampleUnixNano rg1 = lastMemSampleUnixNano rg"
      using i Cons.prems(1) by (auto simp: tryStartMemorySample_def rg1_def RG_Observe_def Let_def t'_def)
    with Cons.IH [of rg1 t'] c Cons.prems t' show ?thesis
      by (simp add: x case_prod_unfold Let_def flip: rg1_def t'_def)
  next
    case False
    then have "fst (tryStartMemorySample t' rg) = True" "lastMemSampleUnixNano rg1 = t'"
      using i Cons.prems(1) by (auto simp: tryStartMemorySample_def rg1_def RG_Observe_def Let_def t'_def)
    with False Cons.IH [of rg1 t'] c Cons.prems t' show ?thesis
      by (auto simp: x case_prod_unfold Let_def simp flip: rg1_def t'_def)
  qed
qed simp

text \<open>With a positive check interval the resource governor reads the runtime's memory
  statistics at most once per interval: over any sequence of observations with a positive
  clock that does not run backwards, consecutive samples are at least an interval apart.\<close>

theorem governor_samples_spaced:
  assumes "0 < interval" "0 < t" "rising t (map (now_ns \<circ> fst) es)"
  shows "spaced interval (fst (rg_samples es (NewResourceGovernorRegulator cpu mem interval)))"
  using rg_samples_spaced [of "NewResourceGovernorRegulator cpu mem interval" t es] assms
  by (simp add: NewResourceGovernorRegulator_def)

theorem governor_samples_spaced_witness:
  "let es = map (\<lambda>t. (\<lparr>now_ns = t, mem_Sys = 100, mem_Alloc = 50\<rparr>, sample_reading 0 1)) [10, 12, 15, 21]
   in rising 1 (map (now_ns \<circ> fst) es) \<and> spaced 5 (fst (rg_samples es (NewResourceGovernorRegulator (Fin 1) (Fin 1) 5)))"
  unfolding Let_def
  by (intro conjI governor_samples_spaced [of 5 1]) simp_all

section \<open>All regulators\<close>

definition BackPressure_ops :: "BackPressureRegulator regulator_ops" where
  "BackPressure_ops = \<lparr>Observe = (\<lambda>e. BP_Observe), Limit = (\<lambda>e bp. (BP_Limit bp, bp)),
                       Renormalize = (\<lambda>e. BP_Renormalize)\<rparr>"

definition LoadBalancer_ops :: "LoadBalancer regulator_ops" where
  "LoadBalancer_ops = \<lparr>Observe = (\<lambda>e. LB_Observe), Limit = (\<lambda>e lb. (LB_Limit lb, lb)),
                       Renormalize = (\<lambda>e. LB_Renormalize)\<rparr>"

definition ResourceGovernor_ops :: "ResourceGovernorRegulator regulator_ops" where
  "ResourceGovernor_ops = \<lparr>Observe = RG_Observe, Limit = (\<lambda>e rg. (RG_Limit rg, rg)),
                           Renormalize = RG_Renormalize\<rparr>"

lemmas regulator_op_defs [go_defs] =
  BackPressure_ops_def LoadBalancer_ops_def ResourceGovernor_ops_def CircuitBreaker_ops_def RateLimiter_ops_def

text \<open>The pressure is always a number in the unit interval, also after it has been bled.\<close>

definition bp_safe :: "BackPressureRegulator \<Rightarrow> bool" where
  "bp_safe bp \<longleftrightarrow> in64 (maxQueueSize bp) \<and> in64 (targetProcessTime bp) \<and>
     (\<exists>p. currentPressure bp = Fin p \<and> 0 \<le> p \<and> p \<le> 1)"

lemma BP_Observe_safe: "bp_safe bp \<Longrightarrow> reading_ok r \<Longrightarrow> bp_safe (BP_Observe r bp)"
  by (auto simp: bp_safe_def BP_Observe_def bp_pressure_eq)

lemma bleed_unit:
  assumes "0 \<le> p" "p \<le> 1"
  shows "\<exists>q. f_max (Fin 0) (f_sub (Fin p) f_tenth) = Fin q \<and> 0 \<le> q \<and> q \<le> 1"
proof -
  have "\<bar>p - c1\<bar> \<le> 1" using assms c1_bounds by auto
  then have "\<bar>p - c1\<bar> \<le> 2 ^ 1000" using one_le_power [of "2::rat" 1000] by linarith
  then have "rnd (p - c1) = Fin (round53 (p - c1))" by (rule rnd_Fin)
  moreover have "round53 (p - c1) \<le> 1" using assms c1_bounds by (intro round53_le_1) auto
  ultimately show ?thesis by (simp add: const_eqs f_sub_def f_max_def)
qed

lemma BP_Renormalize_safe: "bp_safe bp \<Longrightarrow> bp_safe (BP_Renormalize bp)"
  using bleed_unit by (auto simp: bp_safe_def BP_Renormalize_def split: option.splits)

interpretation back_pressure: regulator BackPressure_ops bp_safe
  by unfold_locales (simp_all add: BackPressure_ops_def BP_Observe_safe BP_Renormalize_safe)

definition lb_safe :: "LoadBalancer \<Rightarrow> bool" where
  "lb_safe lb \<longleftrightarrow> (case lb_lastReading lb of None \<Rightarrow> True | Some r \<Rightarrow> reading_ok r)"

interpretation load_balancer: regulator LoadBalancer_ops lb_safe
  by unfold_locales (simp_all add: LoadBalancer_ops_def lb_safe_def LB_Observe_def LB_Renormalize_def)

text \<open>The memory ratio is a number, never a NaN or an infinity, for any statistics the runtime reports.\<close>

definition rg_safe :: "ResourceGovernorRegulator \<Rightarrow> bool" where
  "rg_safe rg \<longleftrightarrow> (\<exists>m. currentMemory rg = Fin m \<and> 0 \<le> m) \<and> currentCPU rg \<noteq> NaN"

lemma of_int_uint_nonneg: "0 \<le> (of_int (uint w) :: rat)" for w :: u64
  by (simp only: of_int_0_le_iff uint_ge_0)

lemma u64_rat_bound: "\<bar>of_int (uint w) :: rat\<bar> \<le> 2 ^ 64" for w :: u64
proof -
  have "uint w \<le> 2 ^ 64" using uint_lt2p [of w] by simp
  then have "of_int (uint w) \<le> (of_int (2 ^ 64) :: rat)" by (simp only: of_int_le_iff)
  then show ?thesis using of_int_uint_nonneg [of w] by simp
qed

lemma f_of_u64: "f_of_int (uint w) = Fin (round53 (of_int (uint w)))" for w :: u64
  using order_trans [OF u64_rat_bound [of w] power_increasing [of 64 1000 "2::rat"]]
  by (simp add: f_of_int_def rnd_Fin)

lemma f_div_by_ge_1:
  assumes "0 \<le> x" "x \<le> 2 ^ 64" "1 \<le> y"
  shows "\<exists>m. f_div (Fin x) (Fin y) = Fin m \<and> 0 \<le> m"
proof -
  have "x / y \<le> x / 1" using assms by (intro divide_left_mono) auto
  then have "\<bar>x / y\<bar> \<le> 2 ^ 64" using assms by simp
  then have "\<bar>x / y\<bar> \<le> 2 ^ 1000"
    by (rule order_trans) (rule power_increasing, simp_all)
  then show ?thesis using assms by (simp add: rnd_Fin round53_nonneg)
qed

lemma memory_ratio_Fin: "\<exists>m. memory_ratio st = Fin m \<and> 0 \<le> m"
proof -
  have a: "0 \<le> round53 (of_int (uint (snd st)))" by (rule round53_nonneg [OF of_int_uint_nonneg])
  have b: "round53 (of_int (uint (snd st))) \<le> 2 ^ 64"
    using round53_bound [OF u64_rat_bound, of "snd st"] by simp
  have "1 \<le> round53 (of_int (uint (fst st)))" if "\<not> round53 (of_int (uint (fst st))) \<le> 0"
  proof (cases "uint (fst st) = 0")
    case False
    then have "1 \<le> uint (fst st)" using uint_ge_0 [of "fst st"] by linarith
    then have "of_int 1 \<le> (of_int (uint (fst st)) :: rat)" by (simp only: of_int_le_iff)
    then show ?thesis by (intro round53_ge_1) simp
  qed (use that in simp)
  then show ?thesis
    using f_div_by_ge_1 [OF a b, of 1] f_div_by_ge_1 [OF a b, of "round53 (of_int (uint (fst st)))"]
    by (simp add: memory_ratio_def Let_def f_of_u64)
qed

lemma tryStart_fields:
  "currentMemory (snd (tryStartMemorySample t rg)) = currentMemory rg"
  "currentCPU (snd (tryStartMemorySample t rg)) = currentCPU rg"
  by (simp_all add: tryStartMemorySample_def Let_def)

lemma RG_Observe_safe: "rg_safe rg \<Longrightarrow> rg_safe (RG_Observe e r rg)"
  using memory_ratio_Fin tryStart_fields
  by (auto simp: rg_safe_def RG_Observe_def Let_def case_prod_unfold split: bool.split)

lemma RG_Renormalize_safe: "rg_safe rg \<Longrightarrow> rg_safe (RG_Renormalize e rg)"
  using RG_Observe_safe [of rg] RG_Observe_safe [of "rg\<lparr>lastRenormalizeUnixNano := now_ns e\<rparr>"]
  by (auto simp: RG_Renormalize_def Let_def rg_safe_def [of "_\<lparr>lastRenormalizeUnixNano := _\<rparr>"] rg_safe_def [of rg]
      split: option.split)

interpretation resource_governor: regulator ResourceGovernor_ops rg_safe
  by unfold_locales (simp_all add: ResourceGovernor_ops_def RG_Observe_safe RG_Renormalize_safe)

text \<open>A value of the interface type \<^verbatim>\<open>Regulator\<close> is one of the five implementations; a call on it
  goes to the implementation it holds.\<close>

datatype any_regulator =
    AnyBreaker CircuitBreaker
  | AnyLimiter RateLimiter
  | AnyPressure BackPressureRegulator
  | AnyBalancer LoadBalancer
  | AnyGovernor ResourceGovernorRegulator

fun any_observe :: "env \<Rightarrow> MetricReading \<Rightarrow> any_regulator \<Rightarrow> any_regulator" where
  "any_observe e r (AnyBreaker s) = AnyBreaker (Observe CircuitBreaker_ops e r s)"
| "any_observe e r (AnyLimiter s) = AnyLimiter (Observe RateLimiter_ops e r s)"
| "any_observe e r (AnyPressure s) = AnyPressure (Observe BackPressure_ops e r s)"
| "any_observe e r (AnyBalancer s) = AnyBalancer (Observe LoadBalancer_ops e r s)"
| "any_observe e r (AnyGovernor s) = AnyGovernor (Observe ResourceGovernor_ops e r s)"

fun any_limit :: "env \<Rightarrow> any_regulator \<Rightarrow> bool \<times> any_regulator" where
  "any_limit e (AnyBreaker s) = map_prod id AnyBreaker (Limit CircuitBreaker_ops e s)"
| "any_limit e (AnyLimiter s) = map_prod id AnyLimiter (Limit RateLimiter_ops e s)"
| "any_limit e (AnyPressure s) = map_prod id AnyPressure (Limit BackPressure_ops e s)"
| "any_limit e (AnyBalancer s) = map_prod id AnyBalancer (Limit LoadBalancer_ops e s)"
| "any_limit e (AnyGovernor s) = map_prod id AnyGovernor (Limit ResourceGovernor_ops e s)"

fun any_renormalize :: "env \<Rightarrow> any_regulator \<Rightarrow> any_regulator" where
  "any_renormalize e (AnyBreaker s) = AnyBreaker (Renormalize CircuitBreaker_ops e s)"
| "any_renormalize e (AnyLimiter s) = AnyLimiter (Renormalize RateLimiter_ops e s)"
| "any_renormalize e (AnyPressure s) = AnyPressure (Renormalize BackPressure_ops e s)"
| "any_renormalize e (AnyBalancer s) = AnyBalancer (Renormalize LoadBalancer_ops e s)"
| "any_renormalize e (AnyGovernor s) = AnyGovernor (Renormalize ResourceGovernor_ops e s)"

definition any_ops :: "any_regulator regulator_ops" where
  "any_ops = \<lparr>Observe = any_observe, Limit = any_limit, Renormalize = any_renormalize\<rparr>"

fun any_safe :: "any_regulator \<Rightarrow> bool" where
  "any_safe (AnyBreaker s) = cb_safe s"
| "any_safe (AnyLimiter s) = rl_safe s"
| "any_safe (AnyPressure s) = bp_safe s"
| "any_safe (AnyBalancer s) = lb_safe s"
| "any_safe (AnyGovernor s) = rg_safe s"

lemma any_observe_safe: "any_safe s \<Longrightarrow> reading_ok r \<Longrightarrow> any_safe (any_observe e r s)"
  using circuit_breaker.inv_observe rate_limiter.inv_observe back_pressure.inv_observe
    load_balancer.inv_observe resource_governor.inv_observe
  by (cases s) simp_all

lemma any_limit_safe: "any_safe s \<Longrightarrow> any_safe (snd (any_limit e s))"
  using circuit_breaker.inv_limit rate_limiter.inv_limit back_pressure.inv_limit
    load_balancer.inv_limit resource_governor.inv_limit
  by (cases s) (simp_all add: map_prod_def case_prod_unfold)

lemma any_renormalize_safe: "any_safe s \<Longrightarrow> any_safe (any_renormalize e s)"
  using circuit_breaker.inv_renormalize rate_limiter.inv_renormalize back_pressure.inv_renormalize
    load_balancer.inv_renormalize resource_governor.inv_renormalize
  by (cases s) simp_all

interpretation any: regulator any_ops any_safe
  by unfold_locales (simp_all add: any_ops_def any_observe_safe any_limit_safe any_renormalize_safe)

end
