(* ===== verification/Logging.thy ===== *)
theory Logging
  imports Cas_Loop
begin

text \<open>
  \<^verbatim>\<open>logging.go\<close>: the suppression counter. A controller is a pointer in the source and may be nil
  (\<open>None\<close>); \<^verbatim>\<open>Suppress\<close> returns a closure, modelled by what calling it does.
\<close>

record LogController =
  suppressed :: int

definition defaultLogController :: LogController where
  "defaultLogController = \<lparr>suppressed = 0\<rparr>"

datatype restore = RestoreNothing | RestoreController

definition Suppress :: "LogController option \<Rightarrow> restore \<times> LogController option" where
  "Suppress controller =
     (case controller of
        None \<Rightarrow> (RestoreNothing, None)
      | Some c \<Rightarrow> (RestoreController, Some (c\<lparr>suppressed := wrap64 (suppressed c + 1)\<rparr>)))"

definition SuppressLogging :: "LogController \<Rightarrow> restore \<times> LogController option" where
  "SuppressLogging c = Suppress (Some c)"

definition restore_body :: "int \<Rightarrow> unit + int \<times> unit" where
  "restore_body current = (if current \<le> 0 then Inl () else Inr (wrap64 (current - 1), ()))"

fun run_restore :: "restore \<Rightarrow> LogController option \<Rightarrow> LogController option" where
  "run_restore RestoreNothing c = c"
| "run_restore RestoreController None = None"
| "run_restore RestoreController (Some c) =
     Some (c\<lparr>suppressed := fst (atomically (Cas restore_body) (suppressed c))\<rparr>)"

definition Suppressed :: "LogController option \<Rightarrow> bool" where
  "Suppressed controller = (case controller of None \<Rightarrow> False | Some c \<Rightarrow> 0 < suppressed c)"

section \<open>The counter under any interleaving\<close>

datatype log_op = DoSuppress | DoRestore

fun log_code :: "log_op \<Rightarrow> (int, unit) access" where
  "log_code DoSuppress = Rmw (\<lambda>v. (wrap64 (v + 1), ()))"
| "log_code DoRestore = Cas restore_body"

text \<open>The suppressions not yet lifted, when every restore lifts one of them.\<close>

fun pending :: "nat \<Rightarrow> (log_op \<times> unit) list \<Rightarrow> nat option" where
  "pending n [] = Some n"
| "pending n ((DoSuppress, _) # h) = pending (Suc n) h"
| "pending 0 ((DoRestore, _) # h) = None"
| "pending (Suc n) ((DoRestore, _) # h) = pending n h"

interpretation log_cell: cas_object log_code 0 in64
proof unfold_locales
  fix v op
  assume "in64 v"
  then show "in64 (fst (atomically (log_code op) v))"
    by (cases op) (auto simp: restore_body_def)
qed simp

lemma log_serial:
  assumes "serial_run log_code (int n) h = Some w" "pending n h = Some m" "int n + int (length h) < 2 ^ 63"
  shows "w = int m"
  using assms
proof (induction n h rule: pending.induct)
  case (2 n u h)
  then have "wrap64 (int n + 1) = int (Suc n)" by (simp add: in64_def)
  with 2 show ?case by simp
next
  case (4 n u h)
  then have "wrap64 (int (Suc n) - 1) = int n" by (simp add: in64_def)
  with 4 show ?case by (simp add: restore_body_def)
qed simp_all

text \<open>However suppressions and restores from different goroutines interleave, as long as
  each restore closure is called at most once (so no restore precedes its suppression and none
  is repeated) the counter is the number of suppressions still standing, and logging is
  suppressed exactly while there is one.\<close>

theorem suppression_counts:
  assumes "cas_reachable log_code 0 s" "pending 0 (completed s) = Some n" "int (length (completed s)) < 2 ^ 63"
  shows "cell s = int n \<and> (Suppressed (Some \<lparr>suppressed = cell s\<rparr>) \<longleftrightarrow> 0 < n)"
  using log_serial [of 0 "completed s" "cell s" n] log_cell.linearizable [OF assms(1)] assms
  by (simp add: Suppressed_def)

theorem suppression_counts_witness:
  "let s = cas_exec log_code 0 [Begin 0 DoSuppress, Advance 0, Begin 0 DoSuppress, Begin 1 DoRestore,
             Advance 1, Advance 0, Advance 1, Advance 1, Advance 1]
   in pending 0 (completed s) = Some 1 \<and> cell s = 1 \<and> Suppressed (Some \<lparr>suppressed = cell s\<rparr>)"
proof -
  define s where "s = cas_exec log_code 0 [Begin 0 DoSuppress, Advance 0, Begin 0 DoSuppress, Begin 1 DoRestore,
             Advance 1, Advance 0, Advance 1, Advance 1, Advance 1]"
  have r: "cas_reachable log_code 0 s" unfolding s_def by (rule cas_exec_reachable)
  have c: "completed s = [(DoSuppress, ()), (DoSuppress, ()), (DoRestore, ())]"
    by (simp add: s_def cas_exec_def cas_init_def restore_body_def in64_def)
  have "cell s = int 1 \<and> (Suppressed (Some \<lparr>suppressed = cell s\<rparr>) \<longleftrightarrow> 0 < (1::nat))"
    by (rule suppression_counts [OF r]) (simp_all add: c)
  with c show ?thesis unfolding Let_def s_def [symmetric] by auto
qed

text \<open>A restore closure is not idempotent: called twice it also lifts a suppression of
  somebody else, so logging is on while the outer suppression still stands. Called once it
  lifts only its own.\<close>

theorem restore_twice_lifts_other:
  assumes "suppressed c = 0"
  shows "let (outer, c1) = Suppress (Some c); (inner, c2) = Suppress c1
         in Suppressed (run_restore inner c2) \<and>
            \<not> Suppressed (run_restore inner (run_restore inner c2)) \<and>
            \<not> Suppressed (run_restore outer (run_restore inner c2))"
  using assms by (simp add: Suppress_def Suppressed_def restore_body_def in64_def)

theorem restore_twice_lifts_other_witness:
  "let (outer, c1) = Suppress (Some defaultLogController); (inner, c2) = Suppress c1
   in \<not> Suppressed (run_restore inner (run_restore inner c2))"
  using restore_twice_lifts_other [of defaultLogController]
  by (simp add: defaultLogController_def case_prod_unfold Let_def)

end
