(* ===== verification/Job.thy ===== *)
theory Job
  imports Circuit_Breaker
begin

text \<open>
  \<^verbatim>\<open>job.go\<close>, \<^verbatim>\<open>retry.go\<close>, the job options of \<^verbatim>\<open>pool.go\<close> and the retry loop of \<^verbatim>\<open>worker.go\<close>.
  The job's function is user code: the field \<open>Fn\<close> says what the n-th call of it does, and the state
  of the execution context is the argument \<open>run_ctx\<close> of the loop. A retry strategy is the function
  \<^verbatim>\<open>NextDelay\<close> of the interface. A panic in the job's function is an outcome like any other;
  the stack trace in the text of the error made from it is not represented.
\<close>

datatype go_error =
    Canceled
  | DeadlineExceeded
  | AppError string
  | PanicError string string
  | Wrapped string go_error

datatype 'v fn_outcome = Returns "'v option" "go_error option" | Panics string

type_synonym strategy = "int \<Rightarrow> int"

record RetryPolicy =
  MaxAttempts :: int
  Strategy :: "strategy option"
  BackoffFunc :: "strategy option"
  Filter :: "(go_error \<Rightarrow> bool) option"
  PerAttemptTimeout :: int

record 'v Job =
  ID :: string
  Fn :: "int \<Rightarrow> 'v fn_outcome"
  RetryPolicy_of :: "RetryPolicy option"
  CircuitID :: string
  CircuitConfig :: "CircuitBreakerConfig option"
  Dependencies :: "string list"
  TTL :: int
  ExecTimeout :: int
  Attempt :: int
  LastError :: "go_error option"
  DependencyRetryPolicy :: "RetryPolicy option"
  StartTime :: int
  circuitBreaker :: "nat option"

type_synonym 'v JobOption = "'v Job \<Rightarrow> 'v Job"

section \<open>Backoff\<close>

record ExponentialBackoff =
  Initial :: int

text \<open>\<^verbatim>\<open>math.Pow(2, y)\<close> at an integral \<open>y\<close>, the only arguments the source has.\<close>

fun math_Pow_2 :: "f64 \<Rightarrow> f64" where
  "math_Pow_2 (Fin y) = (let k = \<lfloor>y\<rfloor> in if 1024 \<le> k then PInf else if k < - 1074 then Fin 0 else Fin (pow2 k))"
| "math_Pow_2 PInf = PInf"
| "math_Pow_2 NInf = Fin 0"
| "math_Pow_2 NaN = NaN"

definition NextDelay :: "ExponentialBackoff \<Rightarrow> strategy" where
  "NextDelay eb attempt =
     wrap64 (Initial eb * f_to_int (math_Pow_2 (f_of_int (wrap64 (attempt - 1)))))"

section \<open>Options\<close>

definition fresh_policy :: "int \<Rightarrow> strategy option \<Rightarrow> RetryPolicy" where
  "fresh_policy attempts strat =
     \<lparr>MaxAttempts = attempts, Strategy = strat, BackoffFunc = None, Filter = None, PerAttemptTimeout = 0\<rparr>"

definition WithDependencyRetry :: "int \<Rightarrow> strategy option \<Rightarrow> 'v JobOption" where
  "WithDependencyRetry attempts strat job = job\<lparr>DependencyRetryPolicy := Some (fresh_policy attempts strat)\<rparr>"

definition WithDependencies :: "string list \<Rightarrow> 'v JobOption" where
  "WithDependencies dependencies job =
     (if length dependencies = 0 then job\<lparr>Dependencies := []\<rparr>
      else job\<lparr>Dependencies := [] @ dependencies\<rparr>)"

definition zero_Job :: "'v Job" where
  "zero_Job = \<lparr>ID = [], Fn = (\<lambda>_. Panics ''nil function''), RetryPolicy_of = None, CircuitID = [],
     CircuitConfig = None, Dependencies = [], TTL = 0, ExecTimeout = 0, Attempt = 0, LastError = None,
     DependencyRetryPolicy = None, StartTime = 0, circuitBreaker = None\<rparr>"

definition DependenciesConfiguredByOption :: "'v JobOption option \<Rightarrow> bool" where
  "DependenciesConfiguredByOption opt =
     (case opt of None \<Rightarrow> False | Some f \<Rightarrow> 0 < length (Dependencies (f zero_Job)))"

definition WithCircuitBreaker :: "string \<Rightarrow> int \<Rightarrow> int \<Rightarrow> 'v JobOption" where
  "WithCircuitBreaker cid maxf reset job =
     job\<lparr>CircuitID := cid,
         CircuitConfig := Some \<lparr>MaxFailures = maxf, ResetTimeout = reset, HalfOpenMax = 2\<rparr>\<rparr>"

definition WithRetry :: "int \<Rightarrow> strategy option \<Rightarrow> 'v JobOption" where
  "WithRetry attempts strat job = job\<lparr>RetryPolicy_of := Some (fresh_policy attempts strat)\<rparr>"

definition WithTTL :: "int \<Rightarrow> 'v JobOption" where
  "WithTTL ttl job = job\<lparr>TTL := ttl\<rparr>"

definition WithExecTimeout :: "int \<Rightarrow> 'v JobOption" where
  "WithExecTimeout duration job = job\<lparr>ExecTimeout := duration\<rparr>"

definition default_backoff :: strategy where
  "default_backoff = NextDelay \<lparr>Initial = second\<rparr>"

definition WithDependencyAwaitTimeout :: "int \<Rightarrow> 'v JobOption" where
  "WithDependencyAwaitTimeout duration job =
     (if duration \<le> 0 then job
      else let p = (case DependencyRetryPolicy job of
                      None \<Rightarrow> fresh_policy 1 (Some default_backoff)
                    | Some p \<Rightarrow> p);
               p1 = (if MaxAttempts p \<le> 0 then p\<lparr>MaxAttempts := 1\<rparr> else p);
               p2 = (if Strategy p1 = None then p1\<lparr>Strategy := Some default_backoff\<rparr> else p1)
           in job\<lparr>DependencyRetryPolicy := Some (p2\<lparr>PerAttemptTimeout := duration\<rparr>)\<rparr>)"

section \<open>Running a job\<close>

definition invokeFnOnce :: "'v Job \<Rightarrow> int \<Rightarrow> 'v option \<times> go_error option" where
  "invokeFnOnce job n =
     (case Fn job n of
        Returns res err \<Rightarrow> (res, err)
      | Panics r \<Rightarrow> (None, Some (PanicError (ID job) r)))"

text \<open>\<open>ctx_Err n\<close> is \<^verbatim>\<open>ctx.Err()\<close> before attempt \<open>n\<close>; \<open>ctx_Done n\<close> is the error when the context ends
  during the pause after attempt \<open>n\<close>, and \<open>None\<close> when the timer fires first.\<close>

record run_ctx =
  ctx_Err :: "int \<Rightarrow> go_error option"
  ctx_Done :: "int \<Rightarrow> go_error option"

datatype run_event = Invoked int | Slept int

definition max_attempts :: "'v Job \<Rightarrow> int" where
  "max_attempts job =
     (case RetryPolicy_of job of None \<Rightarrow> 1 | Some p \<Rightarrow> if 0 < MaxAttempts p then MaxAttempts p else 1)"

definition strategy_of :: "'v Job \<Rightarrow> strategy" where
  "strategy_of job =
     (case RetryPolicy_of job of
        None \<Rightarrow> default_backoff
      | Some p \<Rightarrow> (case Strategy p of None \<Rightarrow> default_backoff | Some s \<Rightarrow> s))"

definition rejected :: "'v Job \<Rightarrow> go_error \<Rightarrow> bool" where
  "rejected job err =
     (case RetryPolicy_of job of
        None \<Rightarrow> False
      | Some p \<Rightarrow> (case Filter p of None \<Rightarrow> False | Some f \<Rightarrow> \<not> f err))"

definition pause :: "strategy \<Rightarrow> int \<Rightarrow> int" where
  "pause strat attempt = (let delay = strat attempt in if delay \<le> 0 then millisecond else delay)"

function retry_loop ::
  "run_ctx \<Rightarrow> 'v Job \<Rightarrow> strategy \<Rightarrow> int \<Rightarrow> int \<Rightarrow> go_error option \<Rightarrow>
   ('v option \<times> go_error option) \<times> run_event list" where
  "retry_loop ctx job strat maxAttempts attempt lastErr =
     (if attempt \<le> maxAttempts
      then case ctx_Err ctx attempt of
             Some e \<Rightarrow> ((None, Some e), [])
           | None \<Rightarrow>
               (case invokeFnOnce job attempt of
                  (res, None) \<Rightarrow> ((res, None), [Invoked attempt])
                | (_, Some err) \<Rightarrow>
                    if rejected job err then ((None, Some err), [Invoked attempt])
                    else if attempt = maxAttempts then ((None, Some err), [Invoked attempt])
                    else case ctx_Done ctx attempt of
                           Some e \<Rightarrow> ((None, Some e), [Invoked attempt])
                         | None \<Rightarrow>
                             (let (out, tr) = retry_loop ctx job strat maxAttempts (attempt + 1) (Some err)
                              in (out, Invoked attempt # Slept (pause strat attempt) # tr)))
      else ((None, lastErr), []))"
  by pat_completeness auto
termination
  by (relation "measure (\<lambda>(_, _, _, m, a, _). nat (m - a + 1))") auto

definition runJobWithRetries :: "run_ctx \<Rightarrow> 'v Job \<Rightarrow> ('v option \<times> go_error option) \<times> run_event list" where
  "runJobWithRetries ctx job = retry_loop ctx job (strategy_of job) (max_attempts job) 1 None"

declare retry_loop.simps [simp del]

section \<open>What the retry loop does\<close>

text \<open>The outcome of the loop when it stops at attempt \<open>k\<close>.\<close>

definition goes_on :: "run_ctx \<Rightarrow> 'v Job \<Rightarrow> int \<Rightarrow> bool" where
  "goes_on ctx job k \<longleftrightarrow>
     k < max_attempts job \<and> ctx_Err ctx k = None \<and> ctx_Done ctx k = None \<and>
     (\<exists>res err. invokeFnOnce job k = (res, Some err) \<and> \<not> rejected job err)"

definition verdict :: "run_ctx \<Rightarrow> 'v Job \<Rightarrow> int \<Rightarrow> 'v option \<times> go_error option" where
  "verdict ctx job k =
     (case ctx_Err ctx k of
        Some e \<Rightarrow> (None, Some e)
      | None \<Rightarrow>
          (case invokeFnOnce job k of
             (res, None) \<Rightarrow> (res, None)
           | (_, Some err) \<Rightarrow>
               (None, if rejected job err \<or> k = max_attempts job then Some err else ctx_Done ctx k)))"

definition history :: "run_ctx \<Rightarrow> 'v Job \<Rightarrow> int \<Rightarrow> int \<Rightarrow> run_event list" where
  "history ctx job a k =
     concat (map (\<lambda>i. [Invoked i, Slept (pause (strategy_of job) i)]) [a..k - 1]) @
     (if ctx_Err ctx k = None then [Invoked k] else [])"

lemma max_attempts_pos: "1 \<le> max_attempts job"
  by (auto simp: max_attempts_def split: option.split)

lemma history_step: "a < k \<Longrightarrow>
  history ctx job a k = Invoked a # Slept (pause (strategy_of job) a) # history ctx job (a + 1) k"
  by (simp add: history_def upto_rec1)

lemma history_same: "history ctx job k k = (if ctx_Err ctx k = None then [Invoked k] else [])"
  by (simp add: history_def)

lemma retry_loop_stop:
  assumes "\<not> goes_on ctx job k" "k \<le> max_attempts job"
  shows "retry_loop ctx job (strategy_of job) (max_attempts job) k le = (verdict ctx job k, history ctx job k k)"
  using assms
  by (subst retry_loop.simps) (auto simp: goes_on_def verdict_def history_same split: option.split prod.split)

lemma retry_loop_runs:
  assumes "a \<le> k" "k \<le> max_attempts job" "\<forall>i\<in>{a..<k}. goes_on ctx job i" "\<not> goes_on ctx job k"
  shows "retry_loop ctx job (strategy_of job) (max_attempts job) a le = (verdict ctx job k, history ctx job a k)"
  using assms
proof (induction "nat (k - a)" arbitrary: a le)
  case 0
  then have "a = k" by simp
  with 0 show ?case by (simp add: retry_loop_stop)
next
  case (Suc n)
  then have "a < k" by simp
  with Suc.prems have g: "goes_on ctx job a" by auto
  then obtain res err where i: "invokeFnOnce job a = (res, Some err)" "\<not> rejected job err"
    by (auto simp: goes_on_def)
  have "retry_loop ctx job (strategy_of job) (max_attempts job) (a + 1) (Some err) =
          (verdict ctx job k, history ctx job (a + 1) k)"
    using Suc \<open>a < k\<close> by (intro Suc.hyps(1)) auto
  with g i \<open>a < k\<close> show ?case
    by (subst retry_loop.simps) (auto simp: goes_on_def history_step)
qed

lemma stops_somewhere:
  "\<exists>k. 1 \<le> k \<and> k \<le> max_attempts job \<and> (\<forall>i\<in>{1..<k}. goes_on ctx job i) \<and> \<not> goes_on ctx job k"
proof -
  let ?P = "\<lambda>n::nat. \<not> goes_on ctx job (int n + 1)"
  have ex: "?P (nat (max_attempts job - 1))"
    using max_attempts_pos [of job] by (simp add: goes_on_def)
  define n where "n = (LEAST n. ?P n)"
  have n: "?P n" "n \<le> nat (max_attempts job - 1)"
    unfolding n_def using LeastI [of ?P, OF ex] Least_le [of ?P, OF ex] by blast+
  have "goes_on ctx job i" if "i \<in> {1..<int n + 1}" for i
    using not_less_Least [of "nat (i - 1)" ?P] that unfolding n_def [symmetric] by auto
  then show ?thesis using n max_attempts_pos [of job] by (intro exI [of _ "int n + 1"]) auto
qed

lemma calls_history:
  "length [e \<leftarrow> history ctx job a k. \<exists>i. e = Invoked i] = length [a..k - 1] + (if ctx_Err ctx k = None then 1 else 0)"
proof -
  have "length [e \<leftarrow> concat (map (\<lambda>i. [Invoked i, Slept (pause (strategy_of job) i)]) xs). \<exists>i. e = Invoked i] = length xs" for xs
    by (induction xs) auto
  then show ?thesis by (simp add: history_def)
qed

text \<open>C25: the retry loop. It stops at the first attempt \<open>k\<close> that succeeds, whose error the filter
  rejects, at which the context has ended, or that is the last one allowed; it returns what that
  attempt decides, after exactly the calls and pauses of the attempts before it, so the job's
  function is never called more often than the policy's \<^verbatim>\<open>MaxAttempts\<close> (one without a policy).\<close>

theorem retry_loop_exact:
  "\<exists>k. 1 \<le> k \<and> k \<le> max_attempts job \<and> (\<forall>i\<in>{1..<k}. goes_on ctx job i) \<and> \<not> goes_on ctx job k \<and>
       runJobWithRetries ctx job = (verdict ctx job k, history ctx job 1 k) \<and>
       length [e \<leftarrow> snd (runJobWithRetries ctx job). \<exists>i. e = Invoked i] \<le> nat (max_attempts job)"
proof -
  obtain k where k: "1 \<le> k" "k \<le> max_attempts job" "\<forall>i\<in>{1..<k}. goes_on ctx job i" "\<not> goes_on ctx job k"
    using stops_somewhere by blast
  then have "runJobWithRetries ctx job = (verdict ctx job k, history ctx job 1 k)"
    unfolding runJobWithRetries_def by (intro retry_loop_runs) auto
  with k show ?thesis by (intro exI [of _ k]) (auto simp: calls_history)
qed

definition flaky_job :: "nat Job" where
  "flaky_job = zero_Job\<lparr>ID := ''a'', Fn := (\<lambda>n. if n = 1 then Panics ''boom'' else Returns (Some 7) None),
     RetryPolicy_of := Some (fresh_policy 3 (Some (\<lambda>_. 5)))\<rparr>"

definition live_ctx :: run_ctx where
  "live_ctx = \<lparr>ctx_Err = (\<lambda>_. None), ctx_Done = (\<lambda>_. None)\<rparr>"

theorem retry_loop_exact_witness:
  "runJobWithRetries live_ctx flaky_job = ((Some 7, None), [Invoked 1, Slept 5, Invoked 2])"
proof -
  have g: "goes_on live_ctx flaky_job 1" "\<not> goes_on live_ctx flaky_job 2"
    by (simp_all add: goes_on_def live_ctx_def flaky_job_def max_attempts_def fresh_policy_def
        invokeFnOnce_def rejected_def)
  obtain k where k: "1 \<le> k" "\<forall>i\<in>{1..<k}. goes_on live_ctx flaky_job i" "\<not> goes_on live_ctx flaky_job k"
    "runJobWithRetries live_ctx flaky_job = (verdict live_ctx flaky_job k, history live_ctx flaky_job 1 k)"
    using retry_loop_exact [of flaky_job live_ctx] by blast
  have "k \<noteq> 1" "\<not> 2 < k" using k g by force+
  with k(1) have "k = 2" by simp
  with k(4) show ?thesis
    by (simp add: verdict_def history_def live_ctx_def flaky_job_def invokeFnOnce_def pause_def
        strategy_of_def fresh_policy_def)
qed

section \<open>Delays\<close>

lemma two_power_small: "n \<le> 62 \<Longrightarrow> (2::int) ^ n < 2 ^ 63"
  by (rule power_strict_increasing) auto

lemma NextDelay_wraps:
  assumes "1 \<le> a" "a \<le> 63"
  shows "NextDelay eb a = wrap64 (Initial eb * 2 ^ nat (a - 1))"
proof -
  have f: "f_of_int (a - 1) = Fin (of_int (a - 1))"
    by (rule f_of_int_small) (use assms in simp)
  have p: "in64 (2 ^ nat (a - 1))" using assms two_power_small [of "nat (a - 1)"] by (intro in64_small) auto
  have "f_to_int (math_Pow_2 (Fin (of_int (a - 1)))) = 2 ^ nat (a - 1)"
    using assms p by (simp add: pow2_nat del: of_int_diff)
  then show ?thesis using assms f by (simp add: NextDelay_def in64_def)
qed

lemma overflow_exponent:
  assumes "0 \<le> a" "a < 2 ^ 62" "0 < i" "i * 2 ^ nat a < (2::int) ^ 63"
  shows "a < (63::int)"
proof (rule ccontr)
  assume "\<not> a < 63"
  then have "(2::int) ^ 63 \<le> 2 ^ nat a" by (intro power_increasing) auto
  moreover have "2 ^ nat a \<le> i * 2 ^ nat a" using assms(3) by simp
  ultimately show False using assms(4) by linarith
qed

text \<open>Exponential backoff. While the exact delay fits into a 64-bit duration \<^verbatim>\<open>NextDelay\<close> is
  \<^verbatim>\<open>Initial\<close> doubled once per earlier attempt, and the loop pauses for exactly that long.\<close>

theorem backoff_exact:
  assumes "1 \<le> a" "a < 2 ^ 62" "0 < i" "i * 2 ^ nat (a - 1) < 2 ^ 63"
  shows "NextDelay \<lparr>Initial = i\<rparr> a = i * 2 ^ nat (a - 1) \<and> pause (NextDelay \<lparr>Initial = i\<rparr>) a = i * 2 ^ nat (a - 1)"
proof -
  have "a - 1 < 63" using assms by (intro overflow_exponent [of "a - 1" i]) auto
  moreover have "in64 (i * 2 ^ nat (a - 1))" using assms by (intro in64_small) auto
  ultimately have "NextDelay \<lparr>Initial = i\<rparr> a = i * 2 ^ nat (a - 1)"
    using NextDelay_wraps [of a "\<lparr>Initial = i\<rparr>"] assms by simp
  moreover have "0 < i * 2 ^ nat (a - 1)" using assms by simp
  ultimately show ?thesis by (simp add: pause_def)
qed

theorem backoff_exact_witness:
  "pause (NextDelay \<lparr>Initial = 100 * millisecond\<rparr>) 5 = 1600 * millisecond"
  using backoff_exact [of 5 "100 * millisecond"] by (simp add: millisecond_def)

text \<open>Past that range the multiplication wraps. With the default of one second the pause grows to
  about 272 years after attempt 34 and collapses to a millisecond after attempt 35.\<close>

theorem default_backoff_collapses:
  "pause default_backoff 34 = second * 2 ^ 33 \<and> pause default_backoff 35 = millisecond"
  by (simp add: default_backoff_def pause_def NextDelay_wraps second_def millisecond_def wrap64_def
      signed_take_bit_int_eq_self_iff)

end
