(* ===== verification/Intrusive_List.thy ===== *)
theory Intrusive_List
  imports Prelude
begin

text \<open>
  \<^verbatim>\<open>intrusive_list.go\<close>: the singly linked list whose nodes belong to the client. The node
  memory has an arbitrary type; what the list does with it goes through the three callbacks of
  \<^verbatim>\<open>bind\<close>, a dictionary of functions on that memory, and pointers are addresses. Walks over the list
  and the retry loop of a removal may run forever on a cyclic list, so they are partial functions:
  \<open>None\<close> is a walk that does not return. The locale states what the callbacks must do and
  derives that the operations are those of a list of addresses; each client's theory
  interprets it on its own callbacks. Calls on a nil list or with a nil predicate return at once
  in the source and are not represented.
\<close>

record 'm node_ops =
  loadNext :: "'m \<Rightarrow> nat \<Rightarrow> nat option"
  linkBefore :: "nat \<Rightarrow> nat option \<Rightarrow> 'm \<Rightarrow> 'm"
  tryUnlink :: "nat \<Rightarrow> nat \<Rightarrow> nat option \<Rightarrow> 'm \<Rightarrow> bool \<times> 'm"

record 'm IntrusiveList =
  head :: "nat option"
  callbacks :: "'m node_ops option"

datatype il_panic = BindRequiresCallbacks | UsedBeforeBind

definition bind ::
  "('m \<Rightarrow> nat \<Rightarrow> nat option) option \<Rightarrow> (nat \<Rightarrow> nat option \<Rightarrow> 'm \<Rightarrow> 'm) option \<Rightarrow>
   (nat \<Rightarrow> nat \<Rightarrow> nat option \<Rightarrow> 'm \<Rightarrow> bool \<times> 'm) option \<Rightarrow> 'm IntrusiveList \<Rightarrow> il_panic + 'm IntrusiveList" where
  "bind ln lb tu list =
     (case (ln, lb, tu) of
        (Some l, Some b, Some u) \<Rightarrow>
          Inr (list\<lparr>callbacks := Some \<lparr>loadNext = l, linkBefore = b, tryUnlink = u\<rparr>\<rparr>)
      | _ \<Rightarrow> Inl BindRequiresCallbacks)"

definition requireBound :: "'m IntrusiveList \<Rightarrow> il_panic + 'm node_ops" where
  "requireBound list = (case callbacks list of None \<Rightarrow> Inl UsedBeforeBind | Some ops \<Rightarrow> Inr ops)"

type_synonym 'm il_state = "'m IntrusiveList \<times> 'm"

definition cas_head :: "nat option \<Rightarrow> nat option \<Rightarrow> 'm IntrusiveList \<Rightarrow> bool \<times> 'm IntrusiveList" where
  "cas_head old new list = (if head list = old then (True, list\<lparr>head := new\<rparr>) else (False, list))"

definition prependOnce :: "'m node_ops \<Rightarrow> nat \<Rightarrow> 'm il_state \<Rightarrow> bool \<times> 'm il_state" where
  "prependOnce ops node = (\<lambda>(list, m).
     let hd = head list; m' = linkBefore ops node hd m; (ok, list') = cas_head hd (Some node) list
     in (ok, list', m'))"

partial_function (option) prepend_loop :: "'m node_ops \<Rightarrow> nat \<Rightarrow> 'm il_state \<Rightarrow> 'm il_state option" where
  "prepend_loop ops node st =
     (let (ok, st') = prependOnce ops node st in if ok then Some st' else prepend_loop ops node st')"

definition Prepend :: "nat option \<Rightarrow> 'm il_state \<Rightarrow> (il_panic + 'm il_state) option" where
  "Prepend node st =
     (case node of
        None \<Rightarrow> Some (Inr st)
      | Some x \<Rightarrow> (case requireBound (fst st) of
                     Inl p \<Rightarrow> Some (Inl p)
                   | Inr ops \<Rightarrow> map_option Inr (prepend_loop ops x st)))"

text \<open>The two nested loops of \<^verbatim>\<open>RemoveReturning\<close>: a failed swap starts again at the head.\<close>

partial_function (option) remove_walk ::
  "'m node_ops \<Rightarrow> (nat \<Rightarrow> bool) \<Rightarrow> nat option \<Rightarrow> nat option \<Rightarrow> 'm il_state \<Rightarrow> (nat option \<times> 'm il_state) option" where
  "remove_walk ops matches prev current st =
     (case current of
        None \<Rightarrow> Some (None, st)
      | Some c \<Rightarrow>
          let next = loadNext ops (snd st) c
          in if matches c
             then case prev of
                    None \<Rightarrow>
                      (let (ok, list') = cas_head (Some c) next (fst st)
                       in if ok then Some (Some c, (list', snd st))
                          else remove_walk ops matches None (head list') (list', snd st))
                  | Some p \<Rightarrow>
                      (let (ok, m') = tryUnlink ops p c next (snd st)
                       in if ok then Some (Some c, (fst st, m'))
                          else remove_walk ops matches None (head (fst st)) (fst st, m'))
             else remove_walk ops matches (Some c) next st)"

definition RemoveReturning ::
  "(nat \<Rightarrow> bool) \<Rightarrow> 'm il_state \<Rightarrow> (il_panic + nat option \<times> 'm il_state) option" where
  "RemoveReturning matches st =
     (case requireBound (fst st) of
        Inl p \<Rightarrow> Some (Inl p)
      | Inr ops \<Rightarrow> map_option Inr (remove_walk ops matches None (head (fst st)) st))"

definition Remove :: "(nat \<Rightarrow> bool) \<Rightarrow> 'm il_state \<Rightarrow> (il_panic + 'm il_state) option" where
  "Remove matches st = map_option (map_sum id snd) (RemoveReturning matches st)"

partial_function (option) find_walk :: "'m node_ops \<Rightarrow> (nat \<Rightarrow> bool) \<Rightarrow> 'm \<Rightarrow> nat option \<Rightarrow> nat option option" where
  "find_walk ops matches m current =
     (case current of
        None \<Rightarrow> Some None
      | Some c \<Rightarrow> if matches c then Some (Some c) else find_walk ops matches m (loadNext ops m c))"

definition Find :: "(nat \<Rightarrow> bool) \<Rightarrow> 'm il_state \<Rightarrow> (il_panic + nat option) option" where
  "Find matches st =
     (case requireBound (fst st) of
        Inl p \<Rightarrow> Some (Inl p)
      | Inr ops \<Rightarrow> map_option Inr (find_walk ops matches (snd st) (head (fst st))))"

partial_function (option) pop_loop :: "'m node_ops \<Rightarrow> 'm il_state \<Rightarrow> (nat option \<times> 'm il_state) option" where
  "pop_loop ops st =
     (case head (fst st) of
        None \<Rightarrow> Some (None, st)
      | Some h \<Rightarrow>
          let next = loadNext ops (snd st) h; (ok, list') = cas_head (Some h) next (fst st)
          in if ok then Some (Some h, (list', snd st)) else pop_loop ops (list', snd st))"

definition PopHead :: "'m il_state \<Rightarrow> (il_panic + nat option \<times> 'm il_state) option" where
  "PopHead st =
     (case requireBound (fst st) of
        Inl p \<Rightarrow> Some (Inl p)
      | Inr ops \<Rightarrow> map_option Inr (pop_loop ops st))"

definition Head :: "'m il_state \<Rightarrow> nat option" where
  "Head st = head (fst st)"

definition Clear :: "'m il_state \<Rightarrow> 'm il_state" where
  "Clear st = ((fst st)\<lparr>head := None\<rparr>, snd st)"

text \<open>The visitor acts on a state of its own.\<close>

partial_function (option) visit_walk ::
  "'m node_ops \<Rightarrow> (nat \<Rightarrow> 's \<Rightarrow> 's) \<Rightarrow> 'm \<Rightarrow> nat option \<Rightarrow> 's \<Rightarrow> 's option" where
  "visit_walk ops visitor m current s =
     (case current of
        None \<Rightarrow> Some s
      | Some c \<Rightarrow> visit_walk ops visitor m (loadNext ops m c) (visitor c s))"

definition Walk :: "(nat \<Rightarrow> 's \<Rightarrow> 's) \<Rightarrow> 'm il_state \<Rightarrow> 's \<Rightarrow> (il_panic + 's) option" where
  "Walk visitor st s =
     (case requireBound (fst st) of
        Inl p \<Rightarrow> Some (Inl p)
      | Inr ops \<Rightarrow> map_option Inr (visit_walk ops visitor (snd st) (head (fst st)) s))"

section \<open>Chains of pointers\<close>

fun chain :: "(nat \<Rightarrow> nat option) \<Rightarrow> nat option \<Rightarrow> nat list \<Rightarrow> bool" where
  "chain nx h [] \<longleftrightarrow> h = None"
| "chain nx h (x # xs) \<longleftrightarrow> h = Some x \<and> chain nx (nx x) xs"

lemma chain_upd [simp]: "y \<notin> set xs \<Longrightarrow> chain (nx(y := z)) h xs = chain nx h xs"
  by (induction xs arbitrary: h) auto

lemma chain_None [simp]: "chain nx None xs \<longleftrightarrow> xs = []"
  by (cases xs) auto

lemma chain_unique: "chain nx h xs \<Longrightarrow> chain nx h ys \<Longrightarrow> xs = ys"
proof (induction xs arbitrary: h ys)
  case Nil
  then show ?case by (cases ys) auto
next
  case (Cons x xs)
  then show ?case by (cases ys) auto
qed

lemma chain_mid: "chain nx h (as @ c # bs) \<Longrightarrow> chain nx (nx c) bs"
  by (induction as arbitrary: h) auto

lemma chain_last: "chain nx h (as @ c # bs) \<Longrightarrow> as \<noteq> [] \<Longrightarrow> nx (last as) = Some c"
  by (induction as arbitrary: h) (auto split: if_splits)

lemma chain_first: "chain nx h xs \<Longrightarrow> h = (case xs of [] \<Rightarrow> None | x # _ \<Rightarrow> Some x)"
  by (cases xs) auto

lemma chain_unlink:
  assumes "chain nx h (as @ p # c # bs)" "distinct (as @ p # c # bs)"
  shows "chain (nx(p := nx c)) h (as @ p # bs)"
  using assms by (induction as arbitrary: h) auto

section \<open>The contract of the callbacks\<close>

locale bound_list =
  fixes ops :: "'m node_ops" and nxt :: "'m \<Rightarrow> nat \<Rightarrow> nat option" and payload :: "'m \<Rightarrow> 'd"
  assumes load: "loadNext ops m x = nxt m x"
    and link: "nxt (linkBefore ops x n m) = (nxt m)(x := n)"
    and unlink_ok: "nxt m p = Some c \<Longrightarrow> \<exists>m'. tryUnlink ops p c n m = (True, m') \<and> nxt m' = (nxt m)(p := n)"
    and unlink_fail: "nxt m p \<noteq> Some c \<Longrightarrow> tryUnlink ops p c n m = (False, m)"
    and link_payload: "payload (linkBefore ops x n m) = payload m"
    and unlink_payload: "payload (snd (tryUnlink ops p c n m)) = payload m"
begin

definition holds :: "'m il_state \<Rightarrow> nat list \<Rightarrow> bool" where
  "holds st xs \<longleftrightarrow> callbacks (fst st) = Some ops \<and> chain (nxt (snd st)) (head (fst st)) xs \<and> distinct xs"

lemma Prepend_refines:
  assumes "holds st xs" "x \<notin> set xs"
  shows "\<exists>st'. Prepend (Some x) st = Some (Inr st') \<and> holds st' (x # xs) \<and> payload (snd st') = payload (snd st)"
  using assms
  by (cases st)
     (auto simp: holds_def Prepend_def requireBound_def prepend_loop.simps prependOnce_def cas_head_def link link_payload Let_def)

lemma Prepend_nil [simp]: "Prepend None st = Some (Inr st)"
  by (simp add: Prepend_def)

lemma find_walk_refines: "chain (nxt m) h xs \<Longrightarrow> find_walk ops P m h = Some (List.find P xs)"
  by (induction xs arbitrary: h) (auto simp: find_walk.simps [of ops P m] load)

lemma Find_refines: "holds st xs \<Longrightarrow> Find P st = Some (Inr (List.find P xs))"
  by (auto simp: holds_def Find_def requireBound_def find_walk_refines)

lemma visit_walk_refines: "chain (nxt m) h xs \<Longrightarrow> visit_walk ops v m h s = Some (fold v xs s)"
  by (induction xs arbitrary: h s) (auto simp: visit_walk.simps [of ops v m] load)

lemma Walk_refines: "holds st xs \<Longrightarrow> Walk v st s = Some (Inr (fold v xs s))"
  by (auto simp: holds_def Walk_def requireBound_def visit_walk_refines)

lemma PopHead_refines:
  assumes "holds st xs"
  shows "\<exists>st'. PopHead st = Some (Inr (case xs of [] \<Rightarrow> None | x # _ \<Rightarrow> Some x, st')) \<and> holds st' (tl xs) \<and>
    payload (snd st') = payload (snd st)"
  using assms
  by (cases xs) (auto simp: holds_def PopHead_def requireBound_def pop_loop.simps cas_head_def load Let_def)

lemma Clear_refines: "holds st xs \<Longrightarrow> holds (Clear st) []"
  by (simp add: holds_def Clear_def)

lemma remove_walk_refines:
  assumes "callbacks list = Some ops" "chain (nxt m) (head list) (as @ bs)" "distinct (as @ bs)"
    "\<forall>a\<in>set as. \<not> P a" "prev = (if as = [] then None else Some (last as))"
    "current = (case bs of [] \<Rightarrow> None | b # _ \<Rightarrow> Some b)"
  shows "\<exists>st'. remove_walk ops P prev current (list, m) = Some (List.find P bs, st') \<and>
           holds st' (as @ remove_first P bs) \<and> payload (snd st') = payload m"
  using assms
proof (induction bs arbitrary: as prev current)
  case Nil
  then show ?case by (auto simp: remove_walk.simps holds_def)
next
  case (Cons c bs)
  have nx: "nxt m c = (case bs of [] \<Rightarrow> None | b # _ \<Rightarrow> Some b)"
    using chain_first [OF chain_mid [OF Cons.prems(2)]] .
  show ?case
  proof (cases "P c")
    case False
    have "\<exists>st'. remove_walk ops P (Some c) (nxt m c) (list, m) = Some (List.find P bs, st') \<and>
            holds st' ((as @ [c]) @ remove_first P bs) \<and> payload (snd st') = payload m"
      using Cons.prems False nx by (intro Cons.IH) auto
    with False Cons.prems(6) show ?thesis by (simp add: remove_walk.simps [of _ _ _ "Some c"] load)
  next
    case True
    show ?thesis
    proof (cases as rule: rev_cases)
      case Nil
      with True Cons.prems show ?thesis
        by (auto simp: remove_walk.simps [of _ _ _ "Some c"] load cas_head_def holds_def)
    next
      case (snoc as' p)
      have "nxt m p = Some c" using chain_last [OF Cons.prems(2)] snoc by simp
      then obtain m' where u: "tryUnlink ops p c (nxt m c) m = (True, m')" "nxt m' = (nxt m)(p := nxt m c)"
        using unlink_ok by blast
      have "chain (nxt m') (head list) (as @ bs)"
        using chain_unlink [of "nxt m" "head list" as' p c bs] Cons.prems(2,3) u(2) snoc by simp
      moreover have "payload m' = payload m" using unlink_payload [of p c "nxt m c" m] u(1) by simp
      ultimately show ?thesis
        using Cons.prems True u snoc by (auto simp: remove_walk.simps [of _ _ _ "Some c"] load holds_def)
    qed
  qed
qed

lemma RemoveReturning_refines:
  assumes "holds st xs"
  shows "\<exists>st'. RemoveReturning P st = Some (Inr (List.find P xs, st')) \<and> holds st' (remove_first P xs) \<and>
    payload (snd st') = payload (snd st)"
proof -
  obtain list m where st: "st = (list, m)" by (cases st)
  have "\<exists>st'. remove_walk ops P None (head list) (list, m) = Some (List.find P xs, st') \<and>
          holds st' ([] @ remove_first P xs) \<and> payload (snd st') = payload m"
    using assms chain_first by (intro remove_walk_refines) (auto simp: holds_def st)
  then show ?thesis using assms by (auto simp: RemoveReturning_def requireBound_def holds_def st)
qed

lemma Remove_refines:
  assumes "holds st xs"
  shows "\<exists>st'. Remove P st = Some (Inr st') \<and> holds st' (remove_first P xs) \<and> payload (snd st') = payload (snd st)"
  using RemoveReturning_refines [OF assms, of P] by (auto simp: Remove_def)

lemmas list_refines =
  Prepend_refines Find_refines Walk_refines PopHead_refines Clear_refines RemoveReturning_refines Remove_refines

end

end
