(* ===== verification/Dep_Edge.thy ===== *)
theory Dep_Edge
  imports Intrusive_List
begin

text \<open>
  The dependency edge lists of \<^verbatim>\<open>registry.go\<close> (\<^verbatim>\<open>depEdge\<close>, \<^verbatim>\<open>depEdgeList\<close>): the first client of the
  intrusive list. An edge is a cell of a heap; \<^verbatim>\<open>&depEdge{id: id}\<close> takes the next free
  address. The last section runs the removal loop in single steps, to see what two
  removals do to each other.
\<close>

record depEdge =
  edge_id :: string
  edge_next :: "nat option"

record edge_heap =
  edge_at :: "nat \<Rightarrow> depEdge"
  edge_free :: nat

definition set_edge_next :: "nat \<Rightarrow> nat option \<Rightarrow> edge_heap \<Rightarrow> edge_heap" where
  "set_edge_next x n m = m\<lparr>edge_at := (edge_at m)(x := (edge_at m x)\<lparr>edge_next := n\<rparr>)\<rparr>"

definition depEdge_ops :: "edge_heap node_ops" where
  "depEdge_ops =
     \<lparr>loadNext = (\<lambda>m x. edge_next (edge_at m x)),
      linkBefore = set_edge_next,
      tryUnlink = (\<lambda>prev current next m.
        if edge_next (edge_at m prev) = Some current then (True, set_edge_next prev next m) else (False, m))\<rparr>"

lemma depEdge_ops_simps:
  "loadNext depEdge_ops m x = edge_next (edge_at m x)"
  "linkBefore depEdge_ops = set_edge_next"
  "tryUnlink depEdge_ops p c n m =
     (if edge_next (edge_at m p) = Some c then (True, set_edge_next p n m) else (False, m))"
  by (simp_all add: depEdge_ops_def)

interpretation dep_edges: bound_list depEdge_ops "\<lambda>m x. edge_next (edge_at m x)"
    "\<lambda>m. (\<lambda>x. edge_id (edge_at m x), edge_free m)"
  by unfold_locales (auto simp: depEdge_ops_simps set_edge_next_def)

type_synonym depEdgeList = "edge_heap il_state"

definition newDepEdgeList :: "edge_heap \<Rightarrow> il_panic + depEdgeList" where
  "newDepEdgeList m =
     map_sum id (\<lambda>list. (list, m))
       (bind (Some (loadNext depEdge_ops)) (Some (linkBefore depEdge_ops)) (Some (tryUnlink depEdge_ops))
         \<lparr>head = None, callbacks = None\<rparr>)"

definition new_edge :: "string \<Rightarrow> edge_heap \<Rightarrow> nat \<times> edge_heap" where
  "new_edge i m =
     (edge_free m, m\<lparr>edge_at := (edge_at m)(edge_free m := \<lparr>edge_id = i, edge_next = None\<rparr>),
                     edge_free := Suc (edge_free m)\<rparr>)"

definition dep_Push :: "string \<Rightarrow> depEdgeList \<Rightarrow> (il_panic + depEdgeList) option" where
  "dep_Push i st =
     (case Find (\<lambda>x. edge_id (edge_at (snd st) x) = i) st of
        None \<Rightarrow> None
      | Some (Inl p) \<Rightarrow> Some (Inl p)
      | Some (Inr (Some _)) \<Rightarrow> Some (Inr st)
      | Some (Inr None) \<Rightarrow> (let (x, m) = new_edge i (snd st) in Prepend (Some x) (fst st, m)))"

definition dep_Remove :: "string \<Rightarrow> depEdgeList \<Rightarrow> (il_panic + depEdgeList) option" where
  "dep_Remove i st = Remove (\<lambda>x. edge_id (edge_at (snd st) x) = i) st"

definition dep_Clear :: "depEdgeList \<Rightarrow> depEdgeList" where
  "dep_Clear st = Clear st"

definition dep_Walk :: "(string \<Rightarrow> 's \<Rightarrow> 's) \<Rightarrow> depEdgeList \<Rightarrow> 's \<Rightarrow> (il_panic + 's) option" where
  "dep_Walk visitor st s = Walk (\<lambda>x. visitor (edge_id (edge_at (snd st) x))) st s"

section \<open>The list of identifiers\<close>

definition dep_list :: "depEdgeList \<Rightarrow> string list \<Rightarrow> bool" where
  "dep_list st ids \<longleftrightarrow>
     (\<exists>xs. dep_edges.holds st xs \<and> ids = map (\<lambda>x. edge_id (edge_at (snd st) x)) xs \<and>
           (\<forall>x\<in>set xs. x < edge_free (snd st)))"

definition push_id :: "string \<Rightarrow> string list \<Rightarrow> string list" where
  "push_id i ids = (if i \<in> set ids then ids else i # ids)"

definition drop_id :: "string \<Rightarrow> string list \<Rightarrow> string list" where
  "drop_id i ids = remove_first (\<lambda>j. j = i) ids"

lemma newDepEdgeList_empty: "\<exists>st. newDepEdgeList m = Inr st \<and> dep_list st []"
  by (simp add: newDepEdgeList_def bind_def dep_list_def dep_edges.holds_def)

lemma find_key: "List.find (\<lambda>x. f x = i) xs = None \<longleftrightarrow> i \<notin> f ` set xs"
  by (auto simp: find_None_iff)

lemma remove_first_map: "map f (remove_first (\<lambda>x. P (f x)) xs) = remove_first P (map f xs)"
  by (induction xs) auto

lemma dep_Push_refines:
  assumes "dep_list st ids"
  shows "\<exists>st'. dep_Push i st = Some (Inr st') \<and> dep_list st' (push_id i ids)"
proof -
  obtain xs where xs: "dep_edges.holds st xs" "ids = map (\<lambda>x. edge_id (edge_at (snd st) x)) xs"
    "\<forall>x\<in>set xs. x < edge_free (snd st)"
    using assms by (auto simp: dep_list_def)
  show ?thesis
  proof (cases "i \<in> set ids")
    case True
    then obtain y where "List.find (\<lambda>x. edge_id (edge_at (snd st) x) = i) xs = Some y"
      using xs(2) find_key [of "\<lambda>x. edge_id (edge_at (snd st) x)" i xs] by fastforce
    with True assms xs show ?thesis by (auto simp: dep_Push_def dep_edges.Find_refines push_id_def)
  next
    case False
    define a where "a = edge_free (snd st)"
    define st1 where "st1 = (fst st, snd (new_edge i (snd st)))"
    have n: "List.find (\<lambda>x. edge_id (edge_at (snd st) x) = i) xs = None"
      using False xs(2) by (simp add: find_key)
    have fresh: "a \<notin> set xs" using xs(3) by (auto simp: a_def)
    have "(\<lambda>x. edge_next (edge_at (snd st1) x)) = (\<lambda>x. edge_next (edge_at (snd st) x))(a := None)"
      by (auto simp: st1_def new_edge_def a_def)
    with xs(1) fresh have h: "dep_edges.holds st1 xs" by (simp add: dep_edges.holds_def st1_def)
    obtain st' where st': "Prepend (Some a) st1 = Some (Inr st')" "dep_edges.holds st' (a # xs)"
      "(\<lambda>x. edge_id (edge_at (snd st') x)) = (\<lambda>x. edge_id (edge_at (snd st1) x))"
      "edge_free (snd st') = edge_free (snd st1)"
      using dep_edges.Prepend_refines [OF h fresh] by blast
    have "dep_list st' (i # ids)" unfolding dep_list_def
      by (rule exI [of _ "a # xs"])
         (use st'(2) xs fresh in \<open>auto simp: fun_cong [OF st'(3)] st'(4) st1_def new_edge_def a_def\<close>)
    with False st' xs n show ?thesis
      by (auto simp: dep_Push_def dep_edges.Find_refines new_edge_def a_def st1_def push_id_def)
  qed
qed

lemma dep_Remove_refines:
  assumes "dep_list st ids"
  shows "\<exists>st'. dep_Remove i st = Some (Inr st') \<and> dep_list st' (drop_id i ids)"
proof -
  obtain xs where xs: "dep_edges.holds st xs" "ids = map (\<lambda>x. edge_id (edge_at (snd st) x)) xs"
    "\<forall>x\<in>set xs. x < edge_free (snd st)"
    using assms by (auto simp: dep_list_def)
  let ?P = "\<lambda>x. edge_id (edge_at (snd st) x) = i"
  obtain st' where st': "dep_Remove i st = Some (Inr st')" "dep_edges.holds st' (remove_first ?P xs)"
    "(\<lambda>x. edge_id (edge_at (snd st') x)) = (\<lambda>x. edge_id (edge_at (snd st) x))"
    "edge_free (snd st') = edge_free (snd st)"
    using dep_edges.Remove_refines [OF xs(1), of ?P] by (auto simp: dep_Remove_def)
  have "drop_id i ids = map (\<lambda>x. edge_id (edge_at (snd st) x)) (remove_first ?P xs)"
    using remove_first_map [of "\<lambda>x. edge_id (edge_at (snd st) x)" "\<lambda>j. j = i" xs] by (simp add: drop_id_def xs(2))
  with st' xs(3) show ?thesis
    unfolding dep_list_def using set_remove_first_subset [of ?P xs] by fastforce
qed

lemma dep_Clear_refines: "dep_list st ids \<Longrightarrow> dep_list (dep_Clear st) []"
  by (auto simp: dep_list_def dep_Clear_def dep_edges.Clear_refines intro: exI [of _ "[]"])

lemma dep_Walk_refines: "dep_list st ids \<Longrightarrow> dep_Walk v st s = Some (Inr (fold v ids s))"
  by (auto simp: dep_list_def dep_Walk_def dep_edges.Walk_refines fold_map comp_def)

text \<open>Sequences of operations on a fresh list, and what they do to the list of identifiers.\<close>

datatype dep_op = OpPush string | OpRemove string | OpClear

fun dep_apply :: "dep_op \<Rightarrow> depEdgeList \<Rightarrow> (il_panic + depEdgeList) option" where
  "dep_apply (OpPush i) st = dep_Push i st"
| "dep_apply (OpRemove i) st = dep_Remove i st"
| "dep_apply OpClear st = Some (Inr (dep_Clear st))"

fun dep_run :: "dep_op list \<Rightarrow> il_panic + depEdgeList \<Rightarrow> (il_panic + depEdgeList) option" where
  "dep_run [] st = Some st"
| "dep_run (a # as) (Inl p) = Some (Inl p)"
| "dep_run (a # as) (Inr st) = (case dep_apply a st of None \<Rightarrow> None | Some st' \<Rightarrow> dep_run as st')"

fun ids_apply :: "dep_op \<Rightarrow> string list \<Rightarrow> string list" where
  "ids_apply (OpPush i) ids = push_id i ids"
| "ids_apply (OpRemove i) ids = drop_id i ids"
| "ids_apply OpClear ids = []"

lemma distinct_ids_apply: "distinct ids \<Longrightarrow> distinct (ids_apply a ids)"
  by (cases a) (simp_all add: push_id_def drop_id_def distinct_remove_first)

lemma drop_id_set: "distinct ids \<Longrightarrow> set (drop_id i ids) = set ids - {i}"
  using set_remove_first_key [of id ids i] by (auto simp: drop_id_def)

lemma dep_run_refines:
  "dep_list st ids \<Longrightarrow> \<exists>st'. dep_run as (Inr st) = Some (Inr st') \<and> dep_list st' (fold ids_apply as ids)"
proof (induction as arbitrary: st ids)
  case (Cons a as)
  have "\<exists>st1. dep_apply a st = Some (Inr st1) \<and> dep_list st1 (ids_apply a ids)"
    using dep_Push_refines [OF Cons.prems] dep_Remove_refines [OF Cons.prems] dep_Clear_refines [OF Cons.prems]
    by (cases a) auto
  with Cons.IH show ?case by fastforce
qed simp

text \<open>C31: an edge list built with \<^verbatim>\<open>newDepEdgeList\<close> and used through \<^verbatim>\<open>Push\<close>, \<^verbatim>\<open>Remove\<close> and \<^verbatim>\<open>Clear\<close>
  in any order never panics and every call returns; its pointer structure always is the
  duplicate-free list of identifiers that the abstract operations give, and \<^verbatim>\<open>Walk\<close> visits exactly
  these, in order.\<close>

theorem dep_edges_refine_list:
  "\<exists>st. dep_run as (newDepEdgeList m) = Some (Inr st) \<and>
        dep_Walk (\<lambda>i acc. acc @ [i]) st [] = Some (Inr (fold ids_apply as [])) \<and>
        distinct (fold ids_apply as [])"
proof -
  obtain st0 where st0: "newDepEdgeList m = Inr st0" "dep_list st0 []" using newDepEdgeList_empty by blast
  obtain st where st: "dep_run as (Inr st0) = Some (Inr st)" "dep_list st (fold ids_apply as [])"
    using dep_run_refines [OF st0(2)] by blast
  have "fold (\<lambda>i acc. acc @ [i]) xs ys = ys @ xs" for xs ys :: "string list"
    by (induction xs arbitrary: ys) auto
  moreover have "distinct ids \<Longrightarrow> distinct (fold ids_apply as ids)" for ids
    by (induction as arbitrary: ids) (simp_all add: distinct_ids_apply)
  ultimately show ?thesis using st0 st dep_Walk_refines [OF st(2), of "\<lambda>i acc. acc @ [i]" "[]"] by simp
qed

section \<open>Two removals at once\<close>

text \<open>The removal loop in atomic steps: each load and each compare-and-swap is one step.\<close>

datatype rm_pc =
    RmStart
  | RmAt "nat option" "nat option"
  | RmSwap "nat option" nat "nat option"
  | RmDone "nat option"

fun rm_step :: "'m node_ops \<Rightarrow> (nat \<Rightarrow> bool) \<Rightarrow> rm_pc \<times> 'm il_state \<Rightarrow> rm_pc \<times> 'm il_state" where
  "rm_step ops P (RmStart, st) = (RmAt None (head (fst st)), st)"
| "rm_step ops P (RmAt prev None, st) = (RmDone None, st)"
| "rm_step ops P (RmAt prev (Some c), st) =
     (let next = loadNext ops (snd st) c
      in if P c then (RmSwap prev c next, st) else (RmAt (Some c) next, st))"
| "rm_step ops P (RmSwap None c next, st) =
     (let (ok, list) = cas_head (Some c) next (fst st)
      in (if ok then RmDone (Some c) else RmStart, (list, snd st)))"
| "rm_step ops P (RmSwap (Some p) c next, st) =
     (let (ok, m) = tryUnlink ops p c next (snd st)
      in (if ok then RmDone (Some c) else RmStart, (fst st, m)))"
| "rm_step ops P (RmDone r, st) = (RmDone r, st)"

text \<open>Run alone, the steps are the loop.\<close>

lemma steps_then: "\<exists>n. (f ^^ n) (f s) = t \<Longrightarrow> \<exists>n. (f ^^ n) s = t"
  by (metis funpow_Suc_right comp_apply)

lemma steps_here: "\<exists>n. (f ^^ n) s = s"
  by (rule exI [of _ 0]) simp

lemma rm_step_loop:
  assumes "remove_walk ops P prev cur st = Some y"
  shows "\<exists>n. (rm_step ops P ^^ n) (RmAt prev cur, st) = (RmDone (fst y), snd y)"
  using assms
proof (induction ops P prev cur st y rule: remove_walk.raw_induct [rotated, consumes 1, case_names step])
  case (step rw ops P prev cur st y)
  note st = steps_then [where f = "rm_step ops P"]
  show ?case
  proof (cases cur)
    case None
    show ?thesis by (rule st) (use step(2) None in \<open>auto intro: steps_here\<close>)
  next
    case (Some c)
    show ?thesis
    proof (cases "P c")
      case False
      then have "rw ops P (Some c) (loadNext ops (snd st) c) st = Some y"
        using step(2) Some by simp
      from step(1) [OF this] show ?thesis by - (rule st, simp add: Some False)
    next
      case True
      have retry: "\<exists>n. (rm_step ops P ^^ n) (RmStart, st') = (RmDone (fst y), snd y)"
        if "rw ops P None (head (fst st')) st' = Some y" for st'
        by (rule st) (use step(1) [OF that] in simp)
      have "\<exists>n. (rm_step ops P ^^ n) (RmSwap prev c (loadNext ops (snd st) c), st) = (RmDone (fst y), snd y)"
      proof (cases prev)
        case None
        obtain ok list' where c: "cas_head (Some c) (loadNext ops (snd st) c) (fst st) = (ok, list')" by force
        show ?thesis
          by (rule st) (use step(2) Some True None c retry [of "(list', snd st)"] in
              \<open>auto split: if_splits intro: steps_here\<close>)
      next
        case (Some p)
        obtain ok m' where c: "tryUnlink ops p c (loadNext ops (snd st) c) (snd st) = (ok, m')" by force
        show ?thesis
          by (rule st) (use step(2) \<open>cur = Some c\<close> True Some c retry [of "(fst st, m')"] in
              \<open>auto split: if_splits intro: steps_here\<close>)
      qed
      then show ?thesis by - (rule st, simp add: Some True Let_def)
    qed
  qed
qed

text \<open>Two goroutines remove edges; a schedule says who moves.\<close>

fun rm_interleave ::
  "'m node_ops \<Rightarrow> (nat \<Rightarrow> bool) \<Rightarrow> (nat \<Rightarrow> bool) \<Rightarrow> bool list \<Rightarrow> rm_pc \<times> rm_pc \<times> 'm il_state \<Rightarrow> rm_pc \<times> rm_pc \<times> 'm il_state" where
  "rm_interleave ops P Q [] s = s"
| "rm_interleave ops P Q (first # bs) (p, q, st) =
     (if first then (let (p', st') = rm_step ops P (p, st) in rm_interleave ops P Q bs (p', q, st'))
      else (let (q', st') = rm_step ops Q (q, st) in rm_interleave ops P Q bs (p, q', st')))"

definition abc :: depEdgeList where
  "abc = (\<lparr>head = Some 0, callbacks = Some depEdge_ops\<rparr>,
          \<lparr>edge_at = (\<lambda>x. if x = 0 then \<lparr>edge_id = ''a'', edge_next = Some 1\<rparr>
                         else if x = 1 then \<lparr>edge_id = ''b'', edge_next = Some 2\<rparr>
                         else \<lparr>edge_id = ''c'', edge_next = None\<rparr>), edge_free = 3\<rparr>)"

lemma abc_list: "dep_list abc [''a'', ''b'', ''c'']"
  unfolding dep_list_def
  by (rule exI [of _ "[0, 1, 2]"]) (simp add: abc_def dep_edges.holds_def)

text \<open>Removals of neighbours do not compose, contrary to what the comment on \<^verbatim>\<open>Remove\<close> says of
  concurrent removals. In the list a, b, c two goroutines remove b and c; both calls report success,
  and the list they leave is a, c: the edge to c is back after its removal has returned.\<close>

theorem adjacent_removals_resurrect:
  "\<exists>sched st. dep_list abc [''a'', ''b'', ''c''] \<and>
     rm_interleave depEdge_ops (\<lambda>x. x = 1) (\<lambda>x. x = 2) sched (RmStart, RmStart, abc) =
       (RmDone (Some 1), RmDone (Some 2), st) \<and>
     dep_list st [''a'', ''c'']"
proof -
  define sched where "sched = [True, True, True, False, False, False, False, False, True]"
  let ?r = "rm_interleave depEdge_ops (\<lambda>x. x = 1) (\<lambda>x. x = 2) sched (RmStart, RmStart, abc)"
  have r: "fst ?r = RmDone (Some 1)" "fst (snd ?r) = RmDone (Some 2)"
    by (simp_all add: sched_def abc_def depEdge_ops_simps set_edge_next_def)
  have "dep_list (snd (snd ?r)) [''a'', ''c'']"
    unfolding dep_list_def
    by (rule exI [of _ "[0, 2]"])
       (simp add: sched_def abc_def depEdge_ops_simps set_edge_next_def dep_edges.holds_def)
  with r abc_list show ?thesis by (intro exI [of _ sched] exI [of _ "snd (snd ?r)"]) (auto simp: prod_eq_iff)
qed

end
