(* ===== verification/Breaker_Cache.thy ===== *)
theory Breaker_Cache
  imports Job Intrusive_List
begin

text \<open>
  \<^verbatim>\<open>circuitbreaker_cache.go\<close>: the pool's bounded cache of circuit breakers, a linked list in order
  of use. Nodes and breakers are cells of heaps, so that two jobs with one circuit share the breaker
  object; the entry of a node, which no operation changes, is stored with the node. The
  operations run without interference here, so a compare-and-swap of a value just loaded
  succeeds; the searches and the retry loop of \<^verbatim>\<open>promote\<close> are partial functions. The
  refinement is to a list of identifiers and breakers, most recently used first.
\<close>

record breakerCacheNode =
  entry_id :: string
  entry_breaker :: nat
  node_next :: "nat option"

record circuitBreakerCache =
  cache_head :: "nat option"
  cache_count :: int
  cache_limit :: int
  nodes :: "nat \<Rightarrow> breakerCacheNode"
  nodes_free :: nat
  breaker_at :: "nat \<Rightarrow> CircuitBreaker"
  breakers_free :: nat

definition defaultCircuitBreakerLimit :: int where
  "defaultCircuitBreakerLimit = 1024"

definition newCircuitBreakerCache :: "int \<Rightarrow> circuitBreakerCache" where
  "newCircuitBreakerCache limit =
     \<lparr>cache_head = None, cache_count = 0,
      cache_limit = (if limit \<le> 0 then defaultCircuitBreakerLimit else limit),
      nodes = (\<lambda>_. \<lparr>entry_id = [], entry_breaker = 0, node_next = None\<rparr>), nodes_free = 0,
      breaker_at = (\<lambda>_. NewCircuitBreaker 0 0 0), breakers_free = 0\<rparr>"

definition set_next :: "nat \<Rightarrow> nat option \<Rightarrow> circuitBreakerCache \<Rightarrow> circuitBreakerCache" where
  "set_next x n c = c\<lparr>nodes := (nodes c)(x := (nodes c x)\<lparr>node_next := n\<rparr>)\<rparr>"

abbreviation nx :: "circuitBreakerCache \<Rightarrow> nat \<Rightarrow> nat option" where
  "nx c x \<equiv> node_next (nodes c x)"

partial_function (option) findNode_walk :: "string \<Rightarrow> circuitBreakerCache \<Rightarrow> nat option \<Rightarrow> nat option option" where
  "findNode_walk i c node =
     (case node of
        None \<Rightarrow> Some None
      | Some x \<Rightarrow> if entry_id (nodes c x) = i then Some (Some x) else findNode_walk i c (nx c x))"

definition findNode :: "string \<Rightarrow> circuitBreakerCache \<Rightarrow> nat option option" where
  "findNode i c = findNode_walk i c (cache_head c)"

partial_function (option) detach_walk ::
  "nat \<Rightarrow> nat option \<Rightarrow> circuitBreakerCache \<Rightarrow> (bool \<times> circuitBreakerCache) option" where
  "detach_walk node prev c =
     (case prev of
        None \<Rightarrow> Some (False, c)
      | Some p \<Rightarrow>
          let next = nx c p
          in if next = Some node
             then let rest = nx c node in Some (True, set_next node None (set_next p rest c))
             else detach_walk node next c)"

definition detach :: "nat \<Rightarrow> circuitBreakerCache \<Rightarrow> (bool \<times> circuitBreakerCache) option" where
  "detach node c =
     (if cache_head c = Some node
      then let next = nx c node in Some (True, set_next node None (c\<lparr>cache_head := next\<rparr>))
      else detach_walk node (cache_head c) c)"

definition push_node :: "nat \<Rightarrow> circuitBreakerCache \<Rightarrow> circuitBreakerCache" where
  "push_node node c = (set_next node (cache_head c) c)\<lparr>cache_head := Some node\<rparr>"

partial_function (option) promote :: "nat \<Rightarrow> circuitBreakerCache \<Rightarrow> circuitBreakerCache option" where
  "promote node c =
     (if cache_head c = Some node then Some c
      else case detach node c of
             None \<Rightarrow> None
           | Some r \<Rightarrow> if fst r then Some (push_node node (snd r)) else promote node (snd r))"

definition find_breaker :: "string \<Rightarrow> circuitBreakerCache \<Rightarrow> (nat option \<times> circuitBreakerCache) option" where
  "find_breaker i c =
     (case findNode i c of
        None \<Rightarrow> None
      | Some None \<Rightarrow> Some (None, c)
      | Some (Some node) \<Rightarrow>
          (case promote node c of
             None \<Rightarrow> None
           | Some c' \<Rightarrow> Some (Some (entry_breaker (nodes c' node)), c')))"

partial_function (option) evictTail_walk :: "nat \<Rightarrow> circuitBreakerCache \<Rightarrow> (bool \<times> circuitBreakerCache) option" where
  "evictTail_walk prev c =
     (case nx c prev of
        None \<Rightarrow> Some (False, c)
      | Some next \<Rightarrow>
          if nx c next = None
          then Some (True, (set_next prev None c)\<lparr>cache_count := wrap64 (cache_count c - 1)\<rparr>)
          else evictTail_walk next c)"

definition evictTail :: "circuitBreakerCache \<Rightarrow> (bool \<times> circuitBreakerCache) option" where
  "evictTail c =
     (case cache_head c of
        None \<Rightarrow> Some (False, c)
      | Some h \<Rightarrow>
          if nx c h = None
          then Some (True, c\<lparr>cache_head := None, cache_count := wrap64 (cache_count c - 1)\<rparr>)
          else evictTail_walk h c)"

partial_function (option) evictOverflow :: "circuitBreakerCache \<Rightarrow> circuitBreakerCache option" where
  "evictOverflow c =
     (if cache_limit c < cache_count c
      then case evictTail c of
             None \<Rightarrow> None
           | Some r \<Rightarrow> if fst r then evictOverflow (snd r) else Some (snd r)
      else Some c)"

definition new_breaker :: "CircuitBreakerConfig \<Rightarrow> circuitBreakerCache \<Rightarrow> nat \<times> circuitBreakerCache" where
  "new_breaker config c =
     (breakers_free c,
      c\<lparr>breaker_at := (breaker_at c)(breakers_free c := newCircuitBreakerFromConfig config),
        breakers_free := Suc (breakers_free c)\<rparr>)"

definition new_node :: "string \<Rightarrow> nat \<Rightarrow> circuitBreakerCache \<Rightarrow> nat \<times> circuitBreakerCache" where
  "new_node i b c =
     (nodes_free c,
      c\<lparr>nodes := (nodes c)(nodes_free c := \<lparr>entry_id = i, entry_breaker = b, node_next = None\<rparr>),
        nodes_free := Suc (nodes_free c)\<rparr>)"

definition getOrCreate ::
  "string \<Rightarrow> CircuitBreakerConfig option \<Rightarrow> circuitBreakerCache \<Rightarrow> (nat option \<times> circuitBreakerCache) option" where
  "getOrCreate i config c =
     (case config of
        None \<Rightarrow> Some (None, c)
      | Some cfg \<Rightarrow>
          if i = [] then Some (None, c)
          else case find_breaker i c of
                 None \<Rightarrow> None
               | Some (Some b, c') \<Rightarrow> Some (Some b, c')
               | Some (None, c') \<Rightarrow>
                   let (b, c1) = new_breaker cfg c'; (node, c2) = new_node i b c1; c3 = push_node node c2
                   in case find_breaker i c3 of
                        None \<Rightarrow> None
                      | Some (found, c4) \<Rightarrow>
                          if found \<noteq> None \<and> found \<noteq> Some b then Some (found, c4)
                          else map_option (\<lambda>c5. (Some b, c5))
                                 (evictOverflow (c4\<lparr>cache_count := wrap64 (cache_count c4 + 1)\<rparr>)))"

definition breakerFor ::
  "'v Job \<Rightarrow> circuitBreakerCache option \<Rightarrow> (nat option \<times> circuitBreakerCache option) option" where
  "breakerFor job breakers =
     (case breakers of
        None \<Rightarrow> Some (None, None)
      | Some c \<Rightarrow> map_option (map_prod id Some) (getOrCreate (CircuitID job) (CircuitConfig job) c))"

definition breakerForJob ::
  "'v Job \<Rightarrow> circuitBreakerCache option \<Rightarrow> (nat option \<times> circuitBreakerCache option) option" where
  "breakerForJob job breakers =
     (case circuitBreaker job of
        Some b \<Rightarrow> Some (Some b, breakers)
      | None \<Rightarrow> breakerFor job breakers)"

section \<open>The list of entries\<close>

type_synonym lru = "(string \<times> nat) list"

definition entry :: "circuitBreakerCache \<Rightarrow> nat \<Rightarrow> string \<times> nat" where
  "entry c x = (entry_id (nodes c x), entry_breaker (nodes c x))"

text \<open>The nodes of the cache, from the head.\<close>

definition linked :: "circuitBreakerCache \<Rightarrow> nat list \<Rightarrow> bool" where
  "linked c xs \<longleftrightarrow> chain (nx c) (cache_head c) xs \<and> distinct xs \<and> (\<forall>x\<in>set xs. x < nodes_free c)"

definition same_data :: "circuitBreakerCache \<Rightarrow> circuitBreakerCache \<Rightarrow> bool" where
  "same_data c c' \<longleftrightarrow> entry c' = entry c \<and> nodes_free c' = nodes_free c \<and> cache_limit c' = cache_limit c \<and>
     cache_count c' = cache_count c \<and> breaker_at c' = breaker_at c \<and> breakers_free c' = breakers_free c"

lemma entry_set_next [simp]: "entry (set_next x n c) = entry c"
  by (auto simp: entry_def set_next_def fun_eq_iff)

lemma nx_set_next [simp]: "nx (set_next x n c) = (nx c)(x := n)"
  by (auto simp: set_next_def fun_eq_iff)

lemma set_next_fields [simp]:
  "cache_head (set_next x n c) = cache_head c" "cache_count (set_next x n c) = cache_count c"
  "cache_limit (set_next x n c) = cache_limit c" "nodes_free (set_next x n c) = nodes_free c"
  "breaker_at (set_next x n c) = breaker_at c" "breakers_free (set_next x n c) = breakers_free c"
  by (simp_all add: set_next_def)

lemma entry_cache_head [simp]: "entry (c\<lparr>cache_head := h\<rparr>) = entry c" "entry (c\<lparr>cache_count := n\<rparr>) = entry c"
  by (simp_all add: entry_def fun_eq_iff)

lemma same_data_refl [simp]: "same_data c c"
  by (simp add: same_data_def)

lemma findNode_refines:
  assumes "linked c xs"
  shows "findNode i c = Some (List.find (\<lambda>x. entry_id (nodes c x) = i) xs)"
proof -
  have "chain (nx c) h xs \<Longrightarrow> findNode_walk i c h = Some (List.find (\<lambda>x. entry_id (nodes c x) = i) xs)" for h
    by (induction xs arbitrary: h) (auto simp: findNode_walk.simps [of i c])
  with assms show ?thesis by (auto simp: findNode_def linked_def)
qed

lemma detach_walk_refines:
  assumes "chain (nx c) (Some p) (p # as @ node # bs)" "distinct (p # as @ node # bs)"
  shows "detach_walk node (Some p) c =
           Some (True, set_next node None (set_next (last (p # as)) (nx c node) c))"
  using assms
proof (induction as arbitrary: p)
  case Nil
  then show ?case by (simp add: detach_walk.simps)
next
  case (Cons a as)
  then have "nx c p = Some a" "a \<noteq> node" by auto
  moreover have "detach_walk node (Some a) c =
           Some (True, set_next node None (set_next (last (a # as)) (nx c node) c))"
    using Cons by (intro Cons.IH) auto
  ultimately show ?case by (simp add: detach_walk.simps [of node "Some p"])
qed

lemma detach_refines:
  assumes "linked c (as @ node # bs)"
  shows "\<exists>c'. detach node c = Some (True, c') \<and> linked c' (as @ bs) \<and> same_data c c'"
proof (cases as)
  case Nil
  with assms show ?thesis by (auto simp: detach_def linked_def same_data_def Let_def)
next
  case (Cons a as')
  obtain pre q where as: "as = pre @ [q]" using Cons by (metis append_butlast_last_id list.distinct(1))
  have h: "cache_head c = Some a" "a \<noteq> node" using assms Cons by (auto simp: linked_def)
  have q: "last (a # as') = q" using Cons as by (metis last_snoc)
  have d: "detach_walk node (Some a) c = Some (True, set_next node None (set_next q (nx c node) c))"
    using detach_walk_refines [of c a as' node bs] assms Cons h unfolding q by (simp add: linked_def)
  have "chain ((nx c)(q := nx c node)) (cache_head c) (pre @ q # bs)"
    using chain_unlink [of "nx c" "cache_head c" pre q node bs] assms as by (simp add: linked_def)
  with assms as have "linked (set_next node None (set_next q (nx c node) c)) (as @ bs)"
    by (auto simp: linked_def)
  with d h show ?thesis by (auto simp: detach_def same_data_def)
qed

lemma push_node_refines:
  assumes "linked c xs" "node \<notin> set xs" "node < nodes_free c"
  shows "linked (push_node node c) (node # xs) \<and> same_data c (push_node node c)"
  using assms by (auto simp: linked_def push_node_def same_data_def)

lemma same_data_trans: "same_data a b \<Longrightarrow> same_data b c \<Longrightarrow> same_data a c"
  by (simp add: same_data_def)

lemma promote_refines:
  assumes "linked c xs" "node \<in> set xs"
  shows "\<exists>c'. promote node c = Some c' \<and> linked c' (node # remove_first (\<lambda>x. x = node) xs) \<and> same_data c c'"
proof -
  obtain as bs where xs: "xs = as @ node # bs" "node \<notin> set as" using assms(2) split_list_first by metis
  then have rf: "remove_first (\<lambda>x. x = node) xs = as @ bs" by (auto simp: remove_first_append)
  show ?thesis
  proof (cases "cache_head c = Some node")
    case True
    then have "as = []" using assms xs by (cases as) (auto simp: linked_def)
    with True assms xs rf show ?thesis by (auto simp: promote.simps)
  next
    case False
    obtain c' where c': "detach node c = Some (True, c')" "linked c' (as @ bs)" "same_data c c'"
      using detach_refines assms(1) xs(1) by blast
    have "linked (push_node node c') (node # as @ bs) \<and> same_data c' (push_node node c')"
      using assms xs c' by (intro push_node_refines) (auto simp: linked_def same_data_def)
    with False c' rf show ?thesis by (auto simp: promote.simps [of node c] intro: same_data_trans)
  qed
qed

lemma evictTail_walk_refines:
  assumes "chain (nx c) (Some p) (p # as @ [l])"
  shows "evictTail_walk p c =
     Some (True, (set_next (last (p # as)) None c)\<lparr>cache_count := wrap64 (cache_count c - 1)\<rparr>)"
  using assms
proof (induction as arbitrary: p)
  case (Cons a as)
  then have "nx c p = Some a" "nx c a \<noteq> None" by (cases as; auto)+
  with Cons show ?case by (auto simp: evictTail_walk.simps [of p])
qed (auto simp: evictTail_walk.simps)

lemma chain_cut:
  "chain n h (as @ p # l # []) \<Longrightarrow> distinct (as @ p # l # []) \<Longrightarrow> chain (n(p := None)) h (as @ [p])"
  using chain_unlink [of n h as p l "[]"] by (induction as arbitrary: h) auto

lemma evictTail_refines:
  assumes "linked c (xs @ [l])"
  shows "\<exists>c'. evictTail c = Some (True, c') \<and> linked c' xs \<and>
     same_data (c\<lparr>cache_count := wrap64 (cache_count c - 1)\<rparr>) c'"
proof (cases xs)
  case Nil
  with assms show ?thesis by (auto simp: evictTail_def linked_def same_data_def)
next
  case (Cons a as)
  obtain pre q where as: "xs = pre @ [q]" using Cons by (metis append_butlast_last_id list.distinct(1))
  have h: "cache_head c = Some a" "nx c a \<noteq> None" using assms Cons by (cases as; auto simp: linked_def)+
  have q: "last (a # as) = q" using Cons as by (metis last_snoc)
  have "evictTail_walk a c = Some (True, (set_next q None c)\<lparr>cache_count := wrap64 (cache_count c - 1)\<rparr>)"
    using evictTail_walk_refines [of c a as l] assms Cons h unfolding q by (simp add: linked_def)
  moreover have "chain ((nx c)(q := None)) (cache_head c) xs"
    using chain_cut [of "nx c" "cache_head c" pre q l] assms as by (simp add: linked_def)
  ultimately show ?thesis using assms h by (auto simp: evictTail_def linked_def same_data_def)
qed

section \<open>The least recently used discipline\<close>

text \<open>The abstract cache: looking up an identifier moves its entry to the front, a new entry is put in
  front and what exceeds the limit falls off the end.\<close>

definition lru_get :: "nat \<Rightarrow> string \<Rightarrow> nat \<Rightarrow> lru \<Rightarrow> nat \<times> lru" where
  "lru_get cap i fresh l =
     (case map_of l i of
        Some b \<Rightarrow> (b, (i, b) # remove_first (\<lambda>e. fst e = i) l)
      | None \<Rightarrow> (fresh, take cap ((i, fresh) # l)))"

definition cache_holds :: "circuitBreakerCache \<Rightarrow> lru \<Rightarrow> bool" where
  "cache_holds c l \<longleftrightarrow> (\<exists>xs. linked c xs \<and> l = map (entry c) xs)"

definition cache_ok :: "circuitBreakerCache \<Rightarrow> lru \<Rightarrow> bool" where
  "cache_ok c l \<longleftrightarrow> cache_holds c l \<and> distinct (map fst l) \<and> cache_count c = int (length l) \<and>
     int (length l) \<le> cache_limit c \<and> 0 < cache_limit c \<and> cache_limit c < 2 ^ 62 \<and>
     (\<forall>(i, b)\<in>set l. b < breakers_free c)"

lemma find_map_of:
  "distinct (map fst (map f xs)) \<Longrightarrow>
   (case List.find (\<lambda>x. fst (f x) = i) xs of None \<Rightarrow> None | Some x \<Rightarrow> Some (snd (f x))) = map_of (map f xs) i"
  by (induction xs) (auto simp: prod_eq_iff)

lemma remove_first_node:
  assumes "distinct xs" "distinct (map fst (map f xs))" "x \<in> set xs"
  shows "map f (remove_first (\<lambda>y. y = x) xs) = remove_first (\<lambda>e. fst e = fst (f x)) (map f xs)"
  using assms by (induction xs) (auto simp: image_iff)

lemma find_breaker_refines:
  assumes "cache_holds c l" "distinct (map fst l)"
  shows "\<exists>c'. find_breaker i c = Some (map_of l i, c') \<and> same_data c c' \<and>
     cache_holds c' (case map_of l i of None \<Rightarrow> l | Some b \<Rightarrow> (i, b) # remove_first (\<lambda>e. fst e = i) l)"
proof -
  obtain xs where xs: "linked c xs" "l = map (entry c) xs" using assms(1) by (auto simp: cache_holds_def)
  have e: "(\<lambda>x. entry_id (nodes c x) = i) = (\<lambda>x. fst (entry c x) = i)" by (simp add: entry_def)
  have f: "findNode i c = Some (List.find (\<lambda>x. fst (entry c x) = i) xs)"
    using findNode_refines [OF xs(1), of i] by (simp add: e)
  have m: "(case List.find (\<lambda>x. fst (entry c x) = i) xs of None \<Rightarrow> None | Some x \<Rightarrow> Some (snd (entry c x))) = map_of l i"
    using find_map_of [of "entry c" xs i] assms(2) xs(2) by simp
  show ?thesis
  proof (cases "List.find (\<lambda>x. fst (entry c x) = i) xs")
    case None
    with f m assms(1) show ?thesis by (auto simp: find_breaker_def)
  next
    case (Some x)
    then have x: "x \<in> set xs" "fst (entry c x) = i" using find_Some_in [OF Some] by simp_all
    obtain c' where c': "promote x c = Some c'" "linked c' (x # remove_first (\<lambda>y. y = x) xs)" "same_data c c'"
      using promote_refines [OF xs(1) x(1)] by blast
    have d: "distinct xs" using xs(1) by (simp add: linked_def)
    have "map (entry c') (x # remove_first (\<lambda>y. y = x) xs) = entry c x # remove_first (\<lambda>e. fst e = i) l"
      using c'(3) remove_first_node [OF d, of "entry c" x] assms(2) xs(2) x by (simp add: same_data_def)
    moreover have "entry c x = (i, snd (entry c x))" using x(2) by (simp add: prod_eq_iff)
    ultimately have "cache_holds c' ((i, snd (entry c x)) # remove_first (\<lambda>e. fst e = i) l)"
      using c'(2) unfolding cache_holds_def by metis
    moreover have "entry_breaker (nodes c' x) = snd (entry c x)"
      using c'(3) by (simp add: same_data_def entry_def fun_eq_iff)
    moreover have "map_of l i = Some (snd (entry c x))" using m Some by simp
    ultimately show ?thesis using f Some c' by (auto simp: find_breaker_def)
  qed
qed

lemma evictOverflow_refines:
  assumes "cache_holds c l" "cache_count c = int (length l)" "int (length l) \<le> cache_limit c + 1"
    "0 < cache_limit c" "cache_limit c < 2 ^ 62"
  shows "\<exists>c'. evictOverflow c = Some c' \<and> cache_holds c' (take (nat (cache_limit c)) l) \<and>
     cache_count c' = int (length (take (nat (cache_limit c)) l)) \<and>
     cache_limit c' = cache_limit c \<and> breaker_at c' = breaker_at c \<and> breakers_free c' = breakers_free c"
proof (cases "int (length l) \<le> cache_limit c")
  case True
  with assms show ?thesis by (simp add: evictOverflow.simps)
next
  case False
  then have len: "int (length l) = cache_limit c + 1" using assms by simp
  obtain xs where xs: "linked c xs" "l = map (entry c) xs" using assms(1) by (auto simp: cache_holds_def)
  obtain ys y where ys: "xs = ys @ [y]" using len xs(2) assms(4) by (cases xs rule: rev_cases) auto
  obtain c' where c': "evictTail c = Some (True, c')" "linked c' ys"
    "same_data (c\<lparr>cache_count := wrap64 (cache_count c - 1)\<rparr>) c'"
    using evictTail_refines xs(1) ys by blast
  have "wrap64 (cache_count c - 1) = cache_count c - 1" using assms len by (simp add: in64_def)
  then have cnt: "cache_count c' = cache_limit c" "cache_limit c' = cache_limit c" "entry c' = entry c"
    using c'(3) assms(2) len by (simp_all add: same_data_def)
  have n: "cache_limit c = int (length ys)" using len xs(2) ys by simp
  then have tk: "take (nat (cache_limit c)) l = map (entry c') ys" using xs(2) ys cnt(3) by simp
  then have "cache_holds c' (take (nat (cache_limit c)) l)" using c'(2) by (auto simp: cache_holds_def)
  moreover have "cache_count c' = int (length (take (nat (cache_limit c)) l))" unfolding tk using cnt(1) n by simp
  moreover have "evictOverflow c = Some c'"
    using c'(1) cnt assms(2) len by (simp add: evictOverflow.simps [of c] evictOverflow.simps [of c'])
  ultimately show ?thesis using c'(3) cnt by (auto simp: same_data_def)
qed

lemma cache_ok_new: "limit < 2 ^ 62 \<Longrightarrow> cache_ok (newCircuitBreakerCache limit) []"
  by (auto simp: cache_ok_def cache_holds_def newCircuitBreakerCache_def linked_def defaultCircuitBreakerLimit_def)

lemma insert_holds:
  assumes "cache_holds c l" "new_breaker cfg c = (b, c1)" "new_node i b c1 = (node, c2)"
  shows "cache_holds (push_node node c2) ((i, b) # l) \<and> cache_limit (push_node node c2) = cache_limit c \<and>
    cache_count (push_node node c2) = cache_count c \<and> breakers_free (push_node node c2) = Suc b \<and> b = breakers_free c \<and>
    breaker_at (push_node node c2) = (breaker_at c)(b := newCircuitBreakerFromConfig cfg)"
proof -
  obtain xs where xs: "linked c xs" "l = map (entry c) xs" using assms(1) by (auto simp: cache_holds_def)
  have n: "node = nodes_free c" "node \<notin> set xs"
    using assms(2,3) xs(1) by (auto simp: new_breaker_def new_node_def linked_def)
  have nx2: "nx c2 = (nx c)(node := None)" and e2: "entry c2 = (entry c)(node := (i, b))"
    using assms(2,3) by (auto simp: new_breaker_def new_node_def fun_eq_iff entry_def)
  have "linked c2 xs"
    using xs(1) n assms(2,3) nx2 by (auto simp: linked_def new_breaker_def new_node_def)
  moreover have "node < nodes_free c2" using assms(3) by (auto simp: new_node_def)
  ultimately have p: "linked (push_node node c2) (node # xs)" "same_data c2 (push_node node c2)"
    using push_node_refines n(2) by blast+
  have "map (entry (push_node node c2)) (node # xs) = (i, b) # l"
    using p(2) n(2) xs(2) by (auto simp: same_data_def e2)
  with p(1) have "cache_holds (push_node node c2) ((i, b) # l)" unfolding cache_holds_def by metis
  with p(2) assms(2,3) show ?thesis by (auto simp: same_data_def new_breaker_def new_node_def)
qed

lemma moved_front:
  assumes "distinct (map fst l)" "map_of l i = Some b"
  shows "distinct (map fst ((i, b) # remove_first (\<lambda>e. fst e = i) l))"
    "length ((i, b) # remove_first (\<lambda>e. fst e = i) l) = length l"
    "set ((i, b) # remove_first (\<lambda>e. fst e = i) l) = set l"
proof -
  have s: "set (remove_first (\<lambda>e. fst e = i) l) = {e \<in> set l. fst e \<noteq> i}"
    by (rule set_remove_first_key [OF assms(1)])
  have m: "(i, b) \<in> set l" using assms(2) by (rule map_of_SomeD)
  show "distinct (map fst ((i, b) # remove_first (\<lambda>e. fst e = i) l))"
    using distinct_map_remove_first [OF assms(1)] s by auto
  have "\<exists>x\<in>set l. fst x = i" using m by force
  then show "length ((i, b) # remove_first (\<lambda>e. fst e = i) l) = length l"
    using length_pos_if_in_set [OF m] by (simp add: length_remove_first)
  have u: "e = (i, b)" if "e \<in> set l" "fst e = i" for e
  proof -
    have "map_of l i = Some (snd e)" using that by (intro map_of_is_SomeI [OF assms(1)]) (metis prod.collapse)
    with assms(2) that(2) show ?thesis by (simp add: prod_eq_iff)
  qed
  show "set ((i, b) # remove_first (\<lambda>e. fst e = i) l) = set l"
    unfolding list.set s using m u by blast
qed

lemma cache_ok_same_data:
  "cache_ok c l \<Longrightarrow> same_data c c' \<Longrightarrow> cache_holds c' l' \<Longrightarrow> distinct (map fst l') \<Longrightarrow> length l' = length l \<Longrightarrow>
   set l' = set l \<Longrightarrow> cache_ok c' l'"
  by (auto simp: cache_ok_def same_data_def)

lemma getOrCreate_hit:
  assumes "cache_ok c l" "i \<noteq> []" "map_of l i = Some b"
  shows "\<exists>c'. getOrCreate i (Some cfg) c = Some (Some b, c') \<and>
     cache_ok c' ((i, b) # remove_first (\<lambda>e. fst e = i) l) \<and> same_data c c'"
proof -
  have d: "distinct (map fst l)" "cache_holds c l" using assms(1) by (auto simp: cache_ok_def)
  obtain c' where c': "find_breaker i c = Some (Some b, c')" "same_data c c'"
    "cache_holds c' ((i, b) # remove_first (\<lambda>e. fst e = i) l)"
    using find_breaker_refines [OF d(2,1), of i] assms(3) by auto
  have "cache_ok c' ((i, b) # remove_first (\<lambda>e. fst e = i) l)"
    using c' moved_front [OF d(1) assms(3)] by (intro cache_ok_same_data [OF assms(1)]) auto
  with c' assms(2) show ?thesis by (auto simp: getOrCreate_def)
qed

lemma getOrCreate_miss:
  assumes "cache_ok c l" "i \<noteq> []" "map_of l i = None"
  shows "\<exists>c'. getOrCreate i (Some cfg) c = Some (Some (breakers_free c), c') \<and>
     cache_ok c' (take (nat (cache_limit c)) ((i, breakers_free c) # l)) \<and> cache_limit c' = cache_limit c \<and>
     breakers_free c' = Suc (breakers_free c) \<and>
     breaker_at c' = (breaker_at c)(breakers_free c := newCircuitBreakerFromConfig cfg)"
proof -
  let ?l = "(i, breakers_free c) # l"
  have ok: "distinct (map fst l)" "cache_holds c l" using assms(1) by (auto simp: cache_ok_def)
  have d: "distinct (map fst ?l)" using ok(1) assms(3) by (auto simp: map_of_eq_None_iff)
  obtain c0 where c0: "find_breaker i c = Some (None, c0)" "same_data c c0" "cache_holds c0 l"
    using find_breaker_refines [OF ok(2,1), of i] assms(3) by auto
  obtain b c1 where c1: "new_breaker cfg c0 = (b, c1)" by force
  obtain node c2 where c2: "new_node i b c1 = (node, c2)" by force
  define c3 where "c3 = push_node node c2"
  have c3: "cache_holds c3 ?l" "cache_limit c3 = cache_limit c" "cache_count c3 = cache_count c"
    "breakers_free c3 = Suc (breakers_free c)" "b = breakers_free c"
    "breaker_at c3 = (breaker_at c)(breakers_free c := newCircuitBreakerFromConfig cfg)"
    using insert_holds [OF c0(3) c1 c2] c0(2) unfolding c3_def by (auto simp: same_data_def)
  obtain c4 where c4: "find_breaker i c3 = Some (Some b, c4)" "same_data c3 c4" "cache_holds c4 ?l"
    using find_breaker_refines [OF c3(1) d, of i] c3(5) by auto
  define c5 where "c5 = c4\<lparr>cache_count := wrap64 (cache_count c4 + 1)\<rparr>"
  have "wrap64 (cache_count c + 1) = cache_count c + 1" using assms(1) by (auto simp: cache_ok_def in64_def)
  then have c5: "cache_holds c5 ?l" "cache_count c5 = int (length ?l)" "cache_limit c5 = cache_limit c"
    using c4 c3 assms(1) by (auto simp: c5_def same_data_def cache_ok_def cache_holds_def linked_def)
  have "\<exists>c'. evictOverflow c5 = Some c' \<and> cache_holds c' (take (nat (cache_limit c5)) ?l) \<and>
     cache_count c' = int (length (take (nat (cache_limit c5)) ?l)) \<and>
     cache_limit c' = cache_limit c5 \<and> breaker_at c' = breaker_at c5 \<and> breakers_free c' = breakers_free c5"
    using c5 assms(1) by (intro evictOverflow_refines) (auto simp: cache_ok_def)
  then obtain c' where c': "evictOverflow c5 = Some c'" "cache_holds c' (take (nat (cache_limit c)) ?l)"
    "cache_count c' = int (length (take (nat (cache_limit c)) ?l))" "cache_limit c' = cache_limit c"
    "breaker_at c' = breaker_at c5" "breakers_free c' = breakers_free c5"
    using c5(3) by auto
  have fields: "breaker_at c5 = breaker_at c3" "breakers_free c5 = breakers_free c3"
    using c4(2) by (simp_all add: c5_def same_data_def)
  have "\<forall>(j, b')\<in>set ?l. b' < Suc (breakers_free c)" using assms(1) by (auto simp: cache_ok_def)
  then have "\<forall>(j, b')\<in>set (take (nat (cache_limit c)) ?l). b' < breakers_free c'"
    using set_take_subset [of "nat (cache_limit c)" ?l] c'(6) fields c3(4) by auto
  moreover have "distinct (map fst (take (nat (cache_limit c)) ?l))"
    using distinct_take [OF d] by (simp only: take_map [symmetric])
  ultimately have "cache_ok c' (take (nat (cache_limit c)) ?l)"
    using c' assms(1) by (auto simp: cache_ok_def)
  moreover have "getOrCreate i (Some cfg) c = Some (Some b, c')"
    using assms(2) c0(1) c1 c2 c4(1) c'(1) by (simp add: getOrCreate_def c3_def c5_def)
  ultimately show ?thesis using c' c3 fields by auto
qed

text \<open>Sequences of calls.\<close>

type_synonym breaker_call = "string \<times> CircuitBreakerConfig"

fun cache_run :: "breaker_call list \<Rightarrow> circuitBreakerCache \<Rightarrow> (nat option list \<times> circuitBreakerCache) option" where
  "cache_run [] c = Some ([], c)"
| "cache_run ((i, cfg) # calls) c =
     (case getOrCreate i (Some cfg) c of
        None \<Rightarrow> None
      | Some (b, c') \<Rightarrow> map_option (map_prod ((#) b) id) (cache_run calls c'))"

fun lru_run :: "nat \<Rightarrow> breaker_call list \<Rightarrow> nat \<Rightarrow> lru \<Rightarrow> nat list \<times> lru" where
  "lru_run cap [] fresh l = ([], l)"
| "lru_run cap ((i, cfg) # calls) fresh l =
     (let (b, l') = lru_get cap i fresh l;
          (bs, l'') = lru_run cap calls (if map_of l i = None then Suc fresh else fresh) l'
      in (b # bs, l''))"

lemma getOrCreate_refines:
  assumes "cache_ok c l" "i \<noteq> []"
  shows "\<exists>c'. getOrCreate i (Some cfg) c = Some (Some (fst (lru_get (nat (cache_limit c)) i (breakers_free c) l)), c') \<and>
     cache_ok c' (snd (lru_get (nat (cache_limit c)) i (breakers_free c) l)) \<and> cache_limit c' = cache_limit c \<and>
     breakers_free c' = (if map_of l i = None then Suc (breakers_free c) else breakers_free c)"
proof (cases "map_of l i")
  case None
  then show ?thesis using getOrCreate_miss [OF assms None, of cfg] by (auto simp: lru_get_def)
next
  case (Some b)
  then show ?thesis using getOrCreate_hit [OF assms Some, of cfg] by (auto simp: lru_get_def same_data_def)
qed

lemma cache_run_refines:
  assumes "cache_ok c l" "\<forall>(i, cfg)\<in>set calls. i \<noteq> []"
  shows "\<exists>c'. cache_run calls c = Some (map Some (fst (lru_run (nat (cache_limit c)) calls (breakers_free c) l)), c') \<and>
     cache_ok c' (snd (lru_run (nat (cache_limit c)) calls (breakers_free c) l)) \<and> cache_limit c' = cache_limit c"
  using assms
proof (induction calls arbitrary: c l)
  case (Cons call calls)
  obtain i cfg where call: "call = (i, cfg)" by (cases call)
  let ?g = "lru_get (nat (cache_limit c)) i (breakers_free c) l"
  obtain c1 where c1: "getOrCreate i (Some cfg) c = Some (Some (fst ?g), c1)" "cache_ok c1 (snd ?g)"
    "cache_limit c1 = cache_limit c" "breakers_free c1 = (if map_of l i = None then Suc (breakers_free c) else breakers_free c)"
    using getOrCreate_refines [OF Cons.prems(1), of i cfg] Cons.prems(2) call by auto
  obtain c' where "cache_run calls c1 = Some (map Some (fst (lru_run (nat (cache_limit c1)) calls (breakers_free c1) (snd ?g))), c')"
    "cache_ok c' (snd (lru_run (nat (cache_limit c1)) calls (breakers_free c1) (snd ?g)))" "cache_limit c' = cache_limit c1"
    using Cons.IH [OF c1(2)] Cons.prems(2) by auto
  with c1 show ?case by (simp add: call case_prod_unfold Let_def)
qed simp

text \<open>C16: the breaker cache. Any sequence of \<^verbatim>\<open>getOrCreate\<close> calls on a new cache returns, and the
  pointer structure with its counter behaves as the abstract least-recently-used list: same
  breakers, at most the configured number of entries, one entry per circuit, and the
  atomic count equal to the length of the list.\<close>

theorem breaker_cache_is_lru:
  assumes "limit < 2 ^ 62" "\<forall>(i, cfg)\<in>set calls. i \<noteq> []"
  shows "\<exists>c bs l. lru_run (nat (if limit \<le> 0 then 1024 else limit)) calls 0 [] = (bs, l) \<and>
     cache_run calls (newCircuitBreakerCache limit) = Some (map Some bs, c) \<and>
     cache_holds c l \<and> distinct (map fst l) \<and> cache_count c = int (length l) \<and>
     int (length l) \<le> (if limit \<le> 0 then 1024 else limit)"
proof -
  have "cache_limit (newCircuitBreakerCache limit) = (if limit \<le> 0 then 1024 else limit)"
    "breakers_free (newCircuitBreakerCache limit) = 0"
    by (simp_all add: newCircuitBreakerCache_def defaultCircuitBreakerLimit_def)
  moreover define r where "r = lru_run (nat (if limit \<le> 0 then 1024 else limit)) calls 0 []"
  ultimately obtain c where c: "cache_run calls (newCircuitBreakerCache limit) = Some (map Some (fst r), c)"
    "cache_ok c (snd r)" "cache_limit c = (if limit \<le> 0 then 1024 else limit)"
    using cache_run_refines [OF cache_ok_new [OF assms(1)] assms(2)] by auto
  then have "cache_holds c (snd r) \<and> distinct (map fst (snd r)) \<and> cache_count c = int (length (snd r)) \<and>
     int (length (snd r)) \<le> (if limit \<le> 0 then 1024 else limit)"
    by (simp add: cache_ok_def)
  then show ?thesis
    unfolding r_def [symmetric] using c(1)
    by (intro exI [of _ c] exI [of _ "fst r"] exI [of _ "snd r"]) simp
qed

definition sample_config :: CircuitBreakerConfig where
  "sample_config = \<lparr>MaxFailures = 3, ResetTimeout = 10, HalfOpenMax = 2\<rparr>"

theorem breaker_cache_is_lru_witness:
  "\<exists>c. cache_run (map (\<lambda>i. (i, sample_config)) [''a'', ''b'', ''a'', ''c'', ''a'', ''b'']) (newCircuitBreakerCache 2) =
         Some (map Some [0, 1, 0, 2, 0, 3], c) \<and>
       cache_holds c [(''b'', 3), (''a'', 0)]"
proof -
  let ?calls = "map (\<lambda>i. (i, sample_config)) [''a'', ''b'', ''a'', ''c'', ''a'', ''b'']"
  have "lru_run 2 ?calls 0 [] = ([0, 1, 0, 2, 0, 3], [(''b'', 3), (''a'', 0)])"
    by (simp add: lru_get_def)
  then show ?thesis using breaker_cache_is_lru [of 2 ?calls] by auto
qed

section \<open>A circuit keeps its breaker\<close>

text \<open>The entry of a circuit, with only circuits of a given set in front of it.\<close>

definition recent :: "string \<Rightarrow> nat \<Rightarrow> string set \<Rightarrow> lru \<Rightarrow> bool" where
  "recent i b S l \<longleftrightarrow> (\<exists>pre post. l = pre @ (i, b) # post \<and> fst ` set pre \<subseteq> S - {i})"

lemma recent_map_of: "recent i b S l \<Longrightarrow> distinct (map fst l) \<Longrightarrow> map_of l i = Some b"
  by (rule map_of_is_SomeI) (auto simp: recent_def)

lemma recent_front: "recent i b S ((i, b) # l)"
  by (auto simp: recent_def intro: exI [of _ "[]"])

lemma recent_other:
  assumes "recent i b S l" "j \<noteq> i" "j \<in> S"
  shows "recent i b S ((j, b') # remove_first (\<lambda>e. fst e = j) l)"
proof -
  obtain pre post where l: "l = pre @ (i, b) # post" "fst ` set pre \<subseteq> S - {i}"
    using assms(1) by (auto simp: recent_def)
  let ?P = "\<lambda>e::string \<times> nat. fst e = j"
  have "fst ` set ((j, b') # remove_first ?P pre) \<subseteq> S - {i}"
    using assms l(2) set_remove_first_subset [of ?P pre] by auto
  moreover have "(j, b') # remove_first ?P l =
      (if \<exists>x\<in>set pre. fst x = j then ((j, b') # remove_first ?P pre) @ (i, b) # post
       else ((j, b') # remove_first ?P pre) @ (i, b) # remove_first ?P post)"
    using assms(2) by (auto simp: l(1) remove_first_append remove_first_none)
  ultimately show ?thesis unfolding recent_def by metis
qed

lemma recent_insert:
  assumes "recent i b S l" "j \<noteq> i" "j \<in> S" "distinct (map fst ((j, b') # l))" "finite S" "card (S - {i}) < cap"
  shows "recent i b S (take cap ((j, b') # l))"
proof -
  obtain pre post where l: "l = pre @ (i, b) # post" "fst ` set pre \<subseteq> S - {i}"
    using assms(1) by (auto simp: recent_def)
  let ?pre = "(j, b') # pre"
  have sub: "fst ` set ?pre \<subseteq> S - {i}" using l assms(2,3) by auto
  have "length ?pre = card (fst ` set ?pre)"
    using assms(4) distinct_card [of "map fst ?pre"] by (simp add: l(1))
  also have "\<dots> \<le> card (S - {i})" using sub assms(5) by (intro card_mono) auto
  finally have "Suc (length ?pre) \<le> cap" using assms(6) by simp
  then obtain k where "cap = length ?pre + Suc k" by (metis add_Suc_right add_Suc le_Suc_ex)
  then have "take cap ((j, b') # l) = ?pre @ (i, b) # take k post" by (simp add: l(1))
  with sub show ?thesis unfolding recent_def by blast
qed

lemma lru_get_recent:
  assumes "recent i b S l" "j \<in> S \<or> j = i" "distinct (map fst l)" "finite S" "card (S - {i}) < cap"
  shows "recent i b S (snd (lru_get cap j fresh l))"
proof (cases "j = i")
  case True
  then show ?thesis using recent_map_of [OF assms(1,3)] recent_front by (simp add: lru_get_def)
next
  case False
  then have j: "j \<in> S" using assms(2) by simp
  show ?thesis
  proof (cases "map_of l j")
    case None
    then have "distinct (map fst ((j, fresh) # l))" using assms(3) by (auto simp: map_of_eq_None_iff)
    with None show ?thesis using recent_insert [OF assms(1) False j _ assms(4,5)] by (simp add: lru_get_def)
  next
    case (Some b')
    then show ?thesis using recent_other [OF assms(1) False j] by (simp add: lru_get_def)
  qed
qed

lemma cache_run_recent:
  assumes "cache_ok c l" "recent i b S l" "\<forall>(j, cfg)\<in>set calls. j \<noteq> [] \<and> (j \<in> S \<or> j = i)" "finite S"
    "card (S - {i}) < nat (cache_limit c)"
  shows "\<exists>bs c' l'. cache_run calls c = Some (bs, c') \<and> cache_ok c' l' \<and> recent i b S l' \<and> cache_limit c' = cache_limit c"
  using assms
proof (induction calls arbitrary: c l)
  case (Cons call calls)
  obtain j cfg where call: "call = (j, cfg)" by (cases call)
  let ?g = "lru_get (nat (cache_limit c)) j (breakers_free c) l"
  obtain c1 where c1: "getOrCreate j (Some cfg) c = Some (Some (fst ?g), c1)" "cache_ok c1 (snd ?g)"
    "cache_limit c1 = cache_limit c"
    using getOrCreate_refines [OF Cons.prems(1), of j cfg] Cons.prems(3) call by auto
  have "distinct (map fst l)" using Cons.prems(1) by (simp add: cache_ok_def)
  then have "recent i b S (snd ?g)"
    using Cons.prems call by (intro lru_get_recent) auto
  from Cons.IH [OF c1(2) this] Cons.prems c1 show ?case by (fastforce simp: call)
qed auto

lemma lru_get_front: "0 < cap \<Longrightarrow> recent i (fst (lru_get cap i fresh l)) S (snd (lru_get cap i fresh l))"
  by (cases cap) (auto simp: lru_get_def recent_front split: option.split)

lemma cache_run_append:
  "cache_run (xs @ ys) c =
     (case cache_run xs c of
        None \<Rightarrow> None
      | Some (bs, c') \<Rightarrow> map_option (map_prod ((@) bs) id) (cache_run ys c'))"
  by (induction xs c rule: cache_run.induct)
     (auto simp: option.map_comp option.map_ident comp_def map_prod_def case_prod_unfold split: option.splits)

lemma cache_run_length: "cache_run xs c = Some (bs, c') \<Longrightarrow> length bs = length xs"
  by (induction xs c arbitrary: bs c' rule: cache_run.induct) (auto split: option.splits)

text \<open>Two jobs of one circuit share a breaker unless the cache has been flushed in between: when
  a call for a circuit returned a breaker and the calls after it were for fewer other
  circuits than the cache has room for, the next call for the circuit returns the same breaker.\<close>

theorem circuit_keeps_breaker:
  assumes "limit < 2 ^ 62" "0 < limit" "\<forall>(j, cfg)\<in>set before. j \<noteq> []" "i \<noteq> []"
    "\<forall>(j, cfg)\<in>set between. j \<noteq> []" "card (fst ` set between - {i}) < nat limit"
  shows "\<exists>b bs c. cache_run (before @ [(i, cfg)] @ between @ [(i, cfg')]) (newCircuitBreakerCache limit) = Some (bs, c) \<and>
     bs ! length before = Some b \<and> last bs = Some b"
proof -
  have lim: "cache_limit (newCircuitBreakerCache limit) = limit"
    using assms(2) by (simp add: newCircuitBreakerCache_def)
  obtain bs0 c0 l0 where c0: "cache_run before (newCircuitBreakerCache limit) = Some (bs0, c0)" "cache_ok c0 l0"
    "cache_limit c0 = limit"
    using cache_run_refines [OF cache_ok_new [OF assms(1)] assms(3)] lim by auto
  define g where "g = lru_get (nat limit) i (breakers_free c0) l0"
  obtain c1 where c1: "getOrCreate i (Some cfg) c0 = Some (Some (fst g), c1)" "cache_ok c1 (snd g)" "cache_limit c1 = limit"
    using getOrCreate_refines [OF c0(2) assms(4), of cfg] c0(3) by (auto simp: g_def)
  have rec: "recent i (fst g) (fst ` set between) (snd g)"
    unfolding g_def using assms(2) by (intro lru_get_front) simp
  obtain bs2 c2 l2 where c2: "cache_run between c1 = Some (bs2, c2)" "cache_ok c2 l2"
    "recent i (fst g) (fst ` set between) l2"
  proof -
    have "j \<in> fst ` set between" if "(j, cf) \<in> set between" for j cf
      using imageI [OF that, of fst] by simp
    with assms(5) have "\<forall>(j, cfg)\<in>set between. j \<noteq> [] \<and> (j \<in> fst ` set between \<or> j = i)" by blast
    from cache_run_recent [OF c1(2) rec this] assms(6) c1(3) that show ?thesis by auto
  qed
  have "map_of l2 i = Some (fst g)" using c2(2) by (intro recent_map_of [OF c2(3)]) (simp add: cache_ok_def)
  then obtain c3 where "getOrCreate i (Some cfg') c2 = Some (Some (fst g), c3)"
    using getOrCreate_hit [OF c2(2) assms(4)] by blast
  with c0 c1 c2 have "cache_run (before @ [(i, cfg)] @ between @ [(i, cfg')]) (newCircuitBreakerCache limit) =
     Some (bs0 @ Some (fst g) # bs2 @ [Some (fst g)], c3)"
    by (simp add: cache_run_append)
  with cache_run_length [OF c0(1)] show ?thesis by (simp add: nth_append)
qed

theorem circuit_keeps_breaker_witness:
  "\<exists>b bs c. cache_run [(''x'', sample_config), (''a'', sample_config), (''b'', sample_config), (''a'', sample_config)]
        (newCircuitBreakerCache 2) = Some (bs, c) \<and> bs ! 1 = Some b \<and> last bs = Some b"
  using circuit_keeps_breaker [of 2 "[(''x'', sample_config)]" "''a''" "[(''b'', sample_config)]" sample_config sample_config]
  by simp

section \<open>A promotion that never ends\<close>

lemma detach_absent:
  assumes "linked c xs" "node \<notin> set xs"
  shows "detach node c = Some (False, c)"
proof -
  have "chain (nx c) h xs \<Longrightarrow> h \<noteq> Some node \<Longrightarrow> detach_walk node h c = Some (False, c)" for h
    using assms(2)
  proof (induction xs arbitrary: h)
    case (Cons x xs)
    then show ?case by (cases xs) (auto simp: detach_walk.simps [of node])
  qed (auto simp: detach_walk.simps)
  moreover have "cache_head c \<noteq> Some node" using assms by (cases xs) (auto simp: linked_def)
  ultimately show ?thesis using assms(1) by (simp add: detach_def linked_def)
qed

lemma promote_absent:
  assumes "promote node c = Some c'"
  shows "linked c xs \<Longrightarrow> node \<in> set xs"
  using assms
proof (induction node c c' rule: promote.raw_induct [rotated, consumes 1, case_names step])
  case (step pr node c c')
  show ?case
  proof (rule ccontr)
    assume a: "node \<notin> set xs"
    have "detach node c = Some (False, c)" using detach_absent step(3) a by blast
    moreover have "cache_head c \<noteq> Some node" using step(3) a by (cases xs) (auto simp: linked_def)
    ultimately have "pr node c = Some c'" using step(2) by simp
    with step(1) [OF this step(3)] a show False by simp
  qed
qed

text \<open>\<^verbatim>\<open>promote\<close> does not return for a node that is no longer in the list. This is the
  state a lookup is in when another goroutine evicts the node between \<^verbatim>\<open>findNode\<close> and
  \<^verbatim>\<open>promote\<close>; for a node in the list it always returns.\<close>

theorem promote_livelock:
  assumes "linked c xs"
  shows "promote node c = None \<longleftrightarrow> node \<notin> set xs"
proof -
  have "promote node c = None" if "node \<notin> set xs"
    using that promote_absent [of node c] assms by (cases "promote node c") auto
  then show ?thesis using promote_refines [OF assms, of node] by auto
qed

text \<open>A cache of one breaker, whose node is evicted by a second circuit.\<close>

theorem promote_livelock_witness:
  "\<exists>c. cache_run [(''a'', sample_config), (''b'', sample_config)] (newCircuitBreakerCache 1) = Some ([Some 0, Some 1], c) \<and>
       entry_id (nodes c 0) = ''a'' \<and> promote 0 c = None \<and> promote 1 c \<noteq> None"
proof -
  define c where "c = snd (the (cache_run [(''a'', sample_config), (''b'', sample_config)] (newCircuitBreakerCache 1)))"
  note eval = getOrCreate_def find_breaker_def findNode_def findNode_walk.simps newCircuitBreakerCache_def
    new_breaker_def new_node_def push_node_def promote.simps evictOverflow.simps evictTail_def
    evictTail_walk.simps set_next_def in64_def
  have run: "cache_run [(''a'', sample_config), (''b'', sample_config)] (newCircuitBreakerCache 1) = Some ([Some 0, Some 1], c)"
    unfolding c_def by (simp add: eval)
  have l: "linked c [1]" and e: "entry_id (nodes c 0) = ''a''"
    unfolding c_def by (simp_all add: eval linked_def)
  show ?thesis using run e promote_livelock [OF l, of 0] promote_livelock [OF l, of 1] by auto
qed

end
