(* ===== verification/Spsc_Ring.thy ===== *)
theory Spsc_Ring
  imports Prelude
begin

unbundle bit_operations_syntax

text \<open>
  \<^verbatim>\<open>spsc_ring.go\<close>: the ring that carries the values of one subscriber. The first part models the
  operations run by one goroutine, with the 64-bit counters of the source; a loop that
  spins forever is \<open>None\<close>. The second part runs them in atomic steps, with a
  producer and a consumer at work at once.
\<close>

record 'a SPSCRing =
  slots :: "'a option list"
  ring_mask :: u64
  ring_head :: u64
  ring_tail :: u64
  dropOldestOnFull :: bool

definition NewSPSCRing :: "nat \<Rightarrow> bool \<Rightarrow> 'a SPSCRing" where
  "NewSPSCRing capacity dropOldest =
     \<lparr>slots = replicate capacity None, ring_mask = word_of_nat capacity - 1, ring_head = 0, ring_tail = 0,
      dropOldestOnFull = dropOldest\<rparr>"

definition ring_index :: "u64 \<Rightarrow> 'a SPSCRing \<Rightarrow> nat" where
  "ring_index sequence ring = unat (sequence AND ring_mask ring)"

partial_function (option) ring_Pop :: "'a SPSCRing \<Rightarrow> ('a option \<times> 'a SPSCRing) option" where
  "ring_Pop ring =
     (let tail = ring_tail ring; head = ring_head ring
      in if head \<le> tail then Some (None, ring)
         else let index = ring_index tail ring; val = slots ring ! index;
                  ring1 = ring\<lparr>slots := (slots ring)[index := None]\<rparr>
              in case val of
                   None \<Rightarrow> ring_Pop ring1
                 | Some v \<Rightarrow> Some (Some v, ring1\<lparr>ring_tail := tail + 1\<rparr>))"

partial_function (option) push_loop :: "'a \<Rightarrow> 'a SPSCRing \<Rightarrow> (bool \<times> 'a SPSCRing) option" where
  "push_loop v ring =
     (let head = ring_head ring; tail = ring_tail ring
      in if word_of_nat (length (slots ring)) \<le> head - tail
         then if dropOldestOnFull ring
              then case ring_Pop ring of None \<Rightarrow> None | Some r \<Rightarrow> push_loop v (snd r)
              else Some (False, ring)
         else let index = ring_index head ring
              in case slots ring ! index of
                   Some _ \<Rightarrow> push_loop v ring
                 | None \<Rightarrow> Some (True, ring\<lparr>slots := (slots ring)[index := Some v], ring_head := head + 1\<rparr>))"

definition ring_Push :: "'a option \<Rightarrow> 'a SPSCRing \<Rightarrow> (bool \<times> 'a SPSCRing) option" where
  "ring_Push val ring = (case val of None \<Rightarrow> Some (False, ring) | Some v \<Rightarrow> push_loop v ring)"

definition ring_Empty :: "'a SPSCRing option \<Rightarrow> bool" where
  "ring_Empty ring = (case ring of None \<Rightarrow> True | Some r \<Rightarrow> ring_head r \<le> ring_tail r)"

partial_function (option) close_loop :: "'a SPSCRing \<Rightarrow> 'a SPSCRing option" where
  "close_loop ring =
     (case ring_Pop ring of
        None \<Rightarrow> None
      | Some r \<Rightarrow> (case fst r of None \<Rightarrow> Some (snd r) | Some _ \<Rightarrow> close_loop (snd r)))"

datatype ring_error = RingIsNil

definition ring_Close :: "'a SPSCRing option \<Rightarrow> (ring_error + 'a SPSCRing) option" where
  "ring_Close ring = (case ring of None \<Rightarrow> Some (Inl RingIsNil) | Some r \<Rightarrow> map_option Inr (close_loop r))"

section \<open>The bounded queue\<close>

definition queue_push :: "nat \<Rightarrow> bool \<Rightarrow> 'a \<Rightarrow> 'a list \<Rightarrow> bool \<times> 'a list" where
  "queue_push cap dropOldest v q =
     (if length q < cap then (True, q @ [v])
      else if dropOldest then (True, tl q @ [v]) else (False, q))"

definition queue_pop :: "'a list \<Rightarrow> 'a option \<times> 'a list" where
  "queue_pop q = (case q of [] \<Rightarrow> (None, []) | x # xs \<Rightarrow> (Some x, xs))"

text \<open>The ring of capacity \<open>2 ^ k\<close> whose consumer has taken \<open>t\<close> values holds the queue \<open>q\<close>.\<close>

definition ring_holds :: "nat \<Rightarrow> nat \<Rightarrow> 'a list \<Rightarrow> 'a SPSCRing \<Rightarrow> bool" where
  "ring_holds k t q ring \<longleftrightarrow>
     length (slots ring) = 2 ^ k \<and> ring_mask ring = mask k \<and> ring_tail ring = word_of_nat t \<and>
     ring_head ring = word_of_nat (t + length q) \<and> t + length q < 2 ^ 64 \<and> length q \<le> 2 ^ k \<and>
     (\<forall>j<length q. slots ring ! ((t + j) mod 2 ^ k) = Some (q ! j)) \<and>
     (\<forall>i<2 ^ k. (\<forall>j<length q. (t + j) mod 2 ^ k \<noteq> i) \<longrightarrow> slots ring ! i = None)"

lemma mod_offset_inj:
  assumes "(t + j) mod c = (t + j') mod c" "j < c" "j' < (c::nat)"
  shows "j = j'"
proof -
  have le: "b = a" if "a \<le> b" "(t + b) mod c = (t + a) mod c" "b < c" for a b
  proof -
    have "c dvd (t + b) - (t + a)" using that mod_eq_dvd_iff_nat [of "t + a" "t + b" c] by simp
    with that show ?thesis using dvd_imp_le [of c "b - a"] by (cases "a < b") auto
  qed
  show ?thesis
  proof (cases "j \<le> j'")
    case True
    from le [OF this assms(1) [symmetric] assms(3)] show ?thesis by (rule sym)
  next
    case False
    then show ?thesis by (intro le [OF _ assms(1,2)]) simp
  qed
qed

lemma ring_index_holds:
  assumes "ring_holds k t q ring" "n < 2 ^ 64"
  shows "ring_index (word_of_nat n) ring = n mod 2 ^ k"
proof -
  have m: "ring_mask ring = mask k" using assms(1) by (simp add: ring_holds_def)
  have "unat (take_bit k (word_of_nat n :: u64)) = take_bit k (unat (word_of_nat n :: u64))"
    by (rule unsigned_take_bit_eq)
  also have "\<dots> = n mod 2 ^ k" using assms(2) by (simp add: unat_of_nat take_bit_nat_def)
  finally show ?thesis unfolding ring_index_def m take_bit_eq_mask [symmetric] .
qed

lemma word_le_nat: "a < 2 ^ 64 \<Longrightarrow> b < 2 ^ 64 \<Longrightarrow> (word_of_nat a :: u64) \<le> word_of_nat b \<longleftrightarrow> a \<le> b"
  by (simp add: word_le_nat_alt unat_of_nat)

lemma ring_Pop_refines:
  assumes "ring_holds k t q ring"
  shows "\<exists>ring'. ring_Pop ring = Some (fst (queue_pop q), ring') \<and>
     ring_holds k (t + length q - length (snd (queue_pop q))) (snd (queue_pop q)) ring' \<and>
     dropOldestOnFull ring' = dropOldestOnFull ring"
proof (cases q)
  case Nil
  with assms show ?thesis by (simp add: ring_Pop.simps queue_pop_def ring_holds_def)
next
  case (Cons x xs)
  have b: "t < 2 ^ 64" "t + length q < 2 ^ 64" using assms by (auto simp: ring_holds_def)
  have lt: "\<not> ring_head ring \<le> ring_tail ring"
    using assms Cons b by (simp only: ring_holds_def word_le_nat) simp
  let ?i = "t mod 2 ^ k"
  have i: "ring_index (ring_tail ring) ring = ?i"
    using ring_index_holds [OF assms b(1)] assms by (simp add: ring_holds_def)
  have v: "slots ring ! ?i = Some x" using assms Cons by (force simp: ring_holds_def)
  define ring' where "ring' = ring\<lparr>slots := (slots ring)[?i := None], ring_tail := ring_tail ring + 1\<rparr>"
  have "ring_holds k (Suc t) xs ring'"
  proof -
    have "slots ring' ! ((Suc t + j) mod 2 ^ k) = Some (xs ! j)" if "j < length xs" for j
    proof -
      have "(t + Suc j) mod 2 ^ k \<noteq> (t + 0) mod 2 ^ k"
        using mod_offset_inj [of t "Suc j" "2 ^ k" 0] that assms Cons by (auto simp: ring_holds_def)
      then show ?thesis using assms that Cons by (force simp: ring'_def ring_holds_def)
    qed
    moreover have "slots ring' ! i = None" if "i < 2 ^ k" "\<forall>j<length xs. (Suc t + j) mod 2 ^ k \<noteq> i" for i
    proof (cases "i = ?i")
      case True
      then show ?thesis using assms that by (simp add: ring'_def ring_holds_def)
    next
      case False
      then have "\<forall>j<length q. (t + j) mod 2 ^ k \<noteq> i"
        using that(2) Cons by (auto simp: less_Suc_eq_0_disj)
      then show ?thesis using assms that False by (simp add: ring'_def ring_holds_def)
    qed
    ultimately show ?thesis using assms Cons by (simp add: ring_holds_def ring'_def)
  qed
  moreover have "ring_Pop ring = Some (Some x, ring')"
    using lt i v by (subst ring_Pop.simps) (simp add: Let_def ring'_def)
  ultimately show ?thesis using Cons by (auto simp: queue_pop_def ring'_def)
qed

lemma push_store_refines:
  assumes "ring_holds k t q ring" "length q < 2 ^ k" "Suc (t + length q) < 2 ^ 64" "k < 64"
  shows "\<exists>ring'. push_loop v ring = Some (True, ring') \<and> ring_holds k t (q @ [v]) ring' \<and>
     dropOldestOnFull ring' = dropOldestOnFull ring"
proof -
  have b: "t + length q < 2 ^ 64" using assms by simp
  have "ring_head ring - ring_tail ring = word_of_nat (length q)" using assms(1) by (simp add: ring_holds_def)
  moreover have "(2::nat) ^ k < 2 ^ 64" using assms(4) by (intro power_strict_increasing) auto
  ultimately have lt: "\<not> word_of_nat (length (slots ring)) \<le> ring_head ring - ring_tail ring"
    using assms b by (simp only: ring_holds_def word_le_nat)
  let ?i = "(t + length q) mod 2 ^ k"
  have i: "ring_index (ring_head ring) ring = ?i"
    using ring_index_holds [OF assms(1) b] assms by (simp add: ring_holds_def)
  have ne: "(t + j) mod 2 ^ k \<noteq> ?i" if "j < length q" for j
    using mod_offset_inj [of t j "2 ^ k" "length q"] that assms by auto
  then have v: "slots ring ! ?i = None" using assms(1) by (simp add: ring_holds_def)
  define ring' where "ring' = ring\<lparr>slots := (slots ring)[?i := Some v], ring_head := ring_head ring + 1\<rparr>"
  have "ring_holds k t (q @ [v]) ring'"
    using assms ne by (auto simp: ring_holds_def ring'_def nth_append less_Suc_eq nth_list_update)
  moreover have "push_loop v ring = Some (True, ring')"
    using lt i v by (subst push_loop.simps) (simp add: Let_def ring'_def)
  ultimately show ?thesis by (simp add: ring'_def)
qed

lemma push_drop_step:
  assumes "ring_holds k t q ring" "length q = 2 ^ k" "k < 64"
  shows "push_loop v ring =
     (if dropOldestOnFull ring then case ring_Pop ring of None \<Rightarrow> None | Some r \<Rightarrow> push_loop v (snd r)
      else Some (False, ring))"
proof -
  have "word_of_nat (length (slots ring)) \<le> ring_head ring - ring_tail ring"
    using assms by (simp add: ring_holds_def)
  then show ?thesis by (subst push_loop.simps) (simp add: Let_def)
qed

lemma ring_Push_refines:
  assumes "ring_holds k t q ring" "Suc (t + length q) < 2 ^ 64" "k < 64"
  shows "\<exists>ring' t'. ring_Push (Some v) ring = Some (fst (queue_push (2 ^ k) (dropOldestOnFull ring) v q), ring') \<and>
     ring_holds k t' (snd (queue_push (2 ^ k) (dropOldestOnFull ring) v q)) ring' \<and>
     t' + length (snd (queue_push (2 ^ k) (dropOldestOnFull ring) v q)) \<le> Suc (t + length q) \<and>
     dropOldestOnFull ring' = dropOldestOnFull ring"
proof (cases "length q < 2 ^ k")
  case True
  with push_store_refines [OF assms(1) True assms(2,3), of v] show ?thesis
    by (auto simp: ring_Push_def queue_push_def)
next
  case False
  then have full: "length q = 2 ^ k" using assms(1) by (simp add: ring_holds_def)
  then obtain x xs where q: "q = x # xs" by (cases q) auto
  obtain r1 where r1: "ring_Pop ring = Some (Some x, r1)" "ring_holds k (Suc t) xs r1"
    "dropOldestOnFull r1 = dropOldestOnFull ring"
    using ring_Pop_refines [OF assms(1)] q by (auto simp: queue_pop_def)
  have "\<exists>r2. push_loop v r1 = Some (True, r2) \<and> ring_holds k (Suc t) (xs @ [v]) r2 \<and> dropOldestOnFull r2 = dropOldestOnFull r1"
    using full q assms by (intro push_store_refines [OF r1(2)]) auto
  with r1 show ?thesis
    using push_drop_step [OF assms(1) full assms(3), of v] q full assms(1)
    by (cases "dropOldestOnFull ring") (auto simp: ring_Push_def queue_push_def)
qed

text \<open>Sequences of operations.\<close>

datatype 'a ring_op = RPush 'a | RPop

datatype 'a ring_result = Pushed bool | Popped "'a option"

fun ring_run :: "'a ring_op list \<Rightarrow> 'a SPSCRing \<Rightarrow> ('a ring_result list \<times> 'a SPSCRing) option" where
  "ring_run [] ring = Some ([], ring)"
| "ring_run (RPush v # ops) ring =
     (case ring_Push (Some v) ring of
        None \<Rightarrow> None
      | Some (b, ring') \<Rightarrow> map_option (map_prod ((#) (Pushed b)) id) (ring_run ops ring'))"
| "ring_run (RPop # ops) ring =
     (case ring_Pop ring of
        None \<Rightarrow> None
      | Some (v, ring') \<Rightarrow> map_option (map_prod ((#) (Popped v)) id) (ring_run ops ring'))"

fun queue_run :: "nat \<Rightarrow> bool \<Rightarrow> 'a ring_op list \<Rightarrow> 'a list \<Rightarrow> 'a ring_result list \<times> 'a list" where
  "queue_run cap dr [] q = ([], q)"
| "queue_run cap dr (RPush v # ops) q =
     (let (b, q') = queue_push cap dr v q; (rs, q'') = queue_run cap dr ops q' in (Pushed b # rs, q''))"
| "queue_run cap dr (RPop # ops) q =
     (let (v, q') = queue_pop q; (rs, q'') = queue_run cap dr ops q' in (Popped v # rs, q''))"

lemma ring_run_refines:
  assumes "ring_holds k t q ring" "t + length q + length ops < 2 ^ 64" "k < 64"
  shows "\<exists>ring' t'. ring_run ops ring = Some (fst (queue_run (2 ^ k) (dropOldestOnFull ring) ops q), ring') \<and>
     ring_holds k t' (snd (queue_run (2 ^ k) (dropOldestOnFull ring) ops q)) ring'"
  using assms
proof (induction ops arbitrary: t q ring)
  case (Cons a ops)
  show ?case
  proof (cases a)
    case (RPush v)
    let ?p = "queue_push (2 ^ k) (dropOldestOnFull ring) v q"
    obtain ring1 t1 where r: "ring_Push (Some v) ring = Some (fst ?p, ring1)" "ring_holds k t1 (snd ?p) ring1"
      "t1 + length (snd ?p) \<le> Suc (t + length q)" "dropOldestOnFull ring1 = dropOldestOnFull ring"
      using ring_Push_refines [OF Cons.prems(1), of v] Cons.prems by auto
    have "t1 + length (snd ?p) + length ops < 2 ^ 64" using r(3) Cons.prems(2) by simp
    from Cons.IH [OF r(2) this Cons.prems(3)] r show ?thesis
      by (auto simp: RPush case_prod_unfold Let_def)
  next
    case RPop
    obtain ring1 where r: "ring_Pop ring = Some (fst (queue_pop q), ring1)"
      "ring_holds k (t + length q - length (snd (queue_pop q))) (snd (queue_pop q)) ring1"
      "dropOldestOnFull ring1 = dropOldestOnFull ring"
      using ring_Pop_refines [OF Cons.prems(1)] by auto
    have "length (snd (queue_pop q)) \<le> length q" by (simp add: queue_pop_def split: list.split)
    then have "t + length q - length (snd (queue_pop q)) + length (snd (queue_pop q)) + length ops < 2 ^ 64"
      using Cons.prems(2) by simp
    from Cons.IH [OF r(2) this Cons.prems(3)] r show ?thesis
      by (auto simp: RPop case_prod_unfold Let_def)
  qed
qed auto

lemma dropOldest_new [simp]: "dropOldestOnFull (NewSPSCRing c dr) = dr"
  by (simp add: NewSPSCRing_def)

lemma ring_holds_new: "k < 64 \<Longrightarrow> ring_holds k 0 [] (NewSPSCRing (2 ^ k) dr)"
  by (simp add: ring_holds_def NewSPSCRing_def mask_eq_exp_minus_1)

text \<open>A ring whose capacity is a power of two is a bounded queue. Over any sequence of fewer than
  \<open>2 ^ 64\<close> operations every \<^verbatim>\<open>Push\<close> and \<^verbatim>\<open>Pop\<close> returns what the queue returns: values come out once
  each and in order, a full ring refuses, or drops its oldest value when it is built to.\<close>

theorem ring_is_bounded_queue:
  assumes "k < 64" "length ops < 2 ^ 64"
  shows "\<exists>ring. ring_run ops (NewSPSCRing (2 ^ k) dr) = Some (fst (queue_run (2 ^ k) dr ops []), ring)"
  using ring_run_refines [OF ring_holds_new [OF assms(1)], of ops dr] assms by auto

theorem ring_is_bounded_queue_witness:
  "\<exists>ring. ring_run [RPush 1, RPush 2, RPush 3, RPop, RPop, RPop] (NewSPSCRing (2 ^ 1) True) =
     Some ([Pushed True, Pushed True, Pushed True, Popped (Some 2), Popped (Some (3::nat)), Popped None], ring)"
  using ring_is_bounded_queue [of 1 "[RPush 1, RPush 2, RPush 3, RPop, RPop, RPop :: nat ring_op]" True]
  by (simp add: queue_push_def queue_pop_def)

lemma close_loop_refines:
  "ring_holds k t q ring \<Longrightarrow> \<exists>ring' t'. close_loop ring = Some ring' \<and> ring_holds k t' [] ring'"
proof (induction q arbitrary: t ring)
  case Nil
  then show ?case using ring_Pop_refines [OF Nil] by (fastforce simp: close_loop.simps queue_pop_def)
next
  case (Cons x q)
  obtain ring1 where "ring_Pop ring = Some (Some x, ring1)" "ring_holds k (Suc t) q ring1"
    using ring_Pop_refines [OF Cons.prems] by (auto simp: queue_pop_def)
  with Cons.IH [of "Suc t" ring1] show ?case by (auto simp: close_loop.simps [of ring])
qed

section \<open>Other capacities\<close>

text \<open>A producer that finds the slot of its sequence number taken tries again in the same state.\<close>

definition stuck :: "'a SPSCRing \<Rightarrow> bool" where
  "stuck ring \<longleftrightarrow>
     (if word_of_nat (length (slots ring)) \<le> ring_head ring - ring_tail ring
      then dropOldestOnFull ring \<and> ring_Pop ring = Some (None, ring)
      else slots ring ! ring_index (ring_head ring) ring \<noteq> None)"

lemma push_stuck:
  assumes "stuck ring"
  shows "push_loop v ring = None"
proof (cases "push_loop v ring")
  case (Some y)
  then have "\<not> stuck ring"
  proof (induction v ring y rule: push_loop.raw_induct [rotated, consumes 1, case_names step])
    case (step pl v ring y)
    show ?case
    proof
      assume s: "stuck ring"
      then have "pl v ring = Some y"
        using step(2) by (auto simp: stuck_def Let_def split: if_splits option.splits)
      from step(1) [OF this] s show False by simp
    qed
  qed
  with assms show ?thesis by simp
qed

text \<open>The constructor accepts capacities for which the ring does not work. With three slots the
  mask sends the second value to the occupied first slot and \<^verbatim>\<open>Push\<close> never returns; with none the first
  \<^verbatim>\<open>Push\<close> of a dropping ring never returns.\<close>

theorem ring_other_capacities_spin:
  "ring_run [RPush v, RPush w] (NewSPSCRing 3 dr) = None \<and> ring_Push (Some v) (NewSPSCRing 0 True) = None"
proof -
  define ring where "ring = (NewSPSCRing 3 dr)\<lparr>slots := [Some v, None, None], ring_head := 1\<rparr>"
  have p: "ring_Push (Some v) (NewSPSCRing 3 dr) = Some (True, ring)"
    by (simp add: ring_Push_def push_loop.simps NewSPSCRing_def Let_def ring_index_def ring_def numeral_3_eq_3)
  have "stuck ring" by (simp add: stuck_def ring_def NewSPSCRing_def ring_index_def word_le_nat_alt)
  then have "ring_Push (Some w) ring = None" by (simp add: ring_Push_def push_stuck)
  moreover have "stuck (NewSPSCRing 0 True :: 'a SPSCRing)"
    by (simp add: stuck_def NewSPSCRing_def ring_Pop.simps)
  ultimately show ?thesis using p push_stuck [of "NewSPSCRing 0 True"] by (simp add: ring_Push_def)
qed

end
