(* ===== verification/Spsc_Concurrent.thy ===== *)
theory Spsc_Concurrent
  imports Spsc_Ring "HOL-Library.Sublist"
begin

text \<open>
  \<^verbatim>\<open>spsc_ring.go\<close> with a producer and a consumer running at once: every load, swap and
  compare-and-swap of \<^verbatim>\<open>Push\<close> and \<^verbatim>\<open>Pop\<close> is a step, and a schedule says who takes the next one. A
  producer on a full dropping ring runs \<^verbatim>\<open>Pop\<close> itself, so there can be two poppers. The sequence
  counters are unbounded here, which is their behaviour for the first \<open>2 ^ 64\<close> values.
  The index of a sequence number is its remainder by the capacity, as the mask computes it for
  a power of two.
\<close>

record 'a ring_mem =
  m_slots :: "nat \<Rightarrow> 'a option"
  m_head :: nat
  m_tail :: nat

datatype 'a pop_pc =
    QStart
  | QHead nat
  | QSwap nat
  | QCas nat 'a
  | QUndo nat 'a
  | QDone "'a option"

fun pop_step :: "nat \<Rightarrow> 'a pop_pc \<Rightarrow> 'a ring_mem \<Rightarrow> 'a pop_pc \<times> 'a ring_mem" where
  "pop_step cap QStart m = (QHead (m_tail m), m)"
| "pop_step cap (QHead t) m = (if m_head m \<le> t then QDone None else QSwap t, m)"
| "pop_step cap (QSwap t) m =
     (case m_slots m (t mod cap) of
        None \<Rightarrow> (QStart, m)
      | Some v \<Rightarrow> (QCas t v, m\<lparr>m_slots := (m_slots m)(t mod cap := None)\<rparr>))"
| "pop_step cap (QCas t v) m =
     (if m_tail m = t then (QDone (Some v), m\<lparr>m_tail := t + 1\<rparr>) else (QUndo t v, m))"
| "pop_step cap (QUndo t v) m = (QStart, m\<lparr>m_slots := (m_slots m)(t mod cap := Some v)\<rparr>)"
| "pop_step cap (QDone r) m = (QDone r, m)"

datatype 'a push_pc =
    PStart 'a
  | PTail 'a nat
  | PDrop 'a "'a pop_pc"
  | PSlot 'a nat
  | PHead 'a nat
  | PUndo 'a nat
  | PDone bool

fun push_step :: "nat \<Rightarrow> bool \<Rightarrow> 'a push_pc \<Rightarrow> 'a ring_mem \<Rightarrow> 'a push_pc \<times> 'a ring_mem" where
  "push_step cap dr (PStart v) m = (PTail v (m_head m), m)"
| "push_step cap dr (PTail v h) m =
     (if cap \<le> h - m_tail m then if dr then PDrop v QStart else PDone False else PSlot v h, m)"
| "push_step cap dr (PDrop v q) m =
     (let (q', m') = pop_step cap q m in (case q' of QDone _ \<Rightarrow> PStart v | _ \<Rightarrow> PDrop v q', m'))"
| "push_step cap dr (PSlot v h) m =
     (case m_slots m (h mod cap) of
        Some _ \<Rightarrow> (PStart v, m)
      | None \<Rightarrow> (PHead v h, m\<lparr>m_slots := (m_slots m)(h mod cap := Some v)\<rparr>))"
| "push_step cap dr (PHead v h) m =
     (if m_head m = h then (PDone True, m\<lparr>m_head := h + 1\<rparr>) else (PUndo v h, m))"
| "push_step cap dr (PUndo v h) m = (PStart v, m\<lparr>m_slots := (m_slots m)(h mod cap := None)\<rparr>)"
| "push_step cap dr (PDone b) m = (PDone b, m)"

text \<open>The producer and the consumer, with what has been put in and taken out so far.\<close>

record 'a spsc =
  mem :: "'a ring_mem"
  producer :: "'a push_pc"
  consumer :: "'a pop_pc"
  entered :: "'a list"
  left_ring :: "'a list"
  received :: "'a list"

definition spsc_init :: "'a spsc" where
  "spsc_init = \<lparr>mem = \<lparr>m_slots = (\<lambda>_. None), m_head = 0, m_tail = 0\<rparr>, producer = PDone True, consumer = QDone None,
                entered = [], left_ring = [], received = []\<rparr>"

datatype 'a move = CallPush 'a | CallPop | StepProducer | StepConsumer

text \<open>The value a step takes out of the ring or puts into it.\<close>

fun popped_by :: "'a pop_pc \<Rightarrow> 'a ring_mem \<Rightarrow> 'a list" where
  "popped_by (QCas t v) m = (if m_tail m = t then [v] else [])"
| "popped_by _ m = []"

fun pushed_by :: "'a push_pc \<Rightarrow> 'a ring_mem \<Rightarrow> 'a list" where
  "pushed_by (PHead v h) m = (if m_head m = h then [v] else [])"
| "pushed_by _ m = []"

fun dropped_by :: "'a push_pc \<Rightarrow> 'a ring_mem \<Rightarrow> 'a list" where
  "dropped_by (PDrop v q) m = popped_by q m"
| "dropped_by _ m = []"

fun spsc_move :: "nat \<Rightarrow> bool \<Rightarrow> 'a move \<Rightarrow> 'a spsc \<Rightarrow> 'a spsc" where
  "spsc_move cap dr (CallPush v) s = (case producer s of PDone _ \<Rightarrow> s\<lparr>producer := PStart v\<rparr> | _ \<Rightarrow> s)"
| "spsc_move cap dr CallPop s = (case consumer s of QDone _ \<Rightarrow> s\<lparr>consumer := QStart\<rparr> | _ \<Rightarrow> s)"
| "spsc_move cap dr StepProducer s =
     (let (p, m) = push_step cap dr (producer s) (mem s)
      in s\<lparr>producer := p, mem := m, entered := entered s @ pushed_by (producer s) (mem s),
           left_ring := left_ring s @ dropped_by (producer s) (mem s)\<rparr>)"
| "spsc_move cap dr StepConsumer s =
     (let (q, m) = pop_step cap (consumer s) (mem s); out = popped_by (consumer s) (mem s)
      in s\<lparr>consumer := q, mem := m, left_ring := left_ring s @ out, received := received s @ out\<rparr>)"

definition spsc_run :: "nat \<Rightarrow> bool \<Rightarrow> 'a move list \<Rightarrow> 'a spsc" where
  "spsc_run cap dr ms = fold (spsc_move cap dr) ms spsc_init"

section \<open>The ring with values in the hands of poppers\<close>

text \<open>\<open>log\<close> lists all values put into slots so far, \<open>t\<close> of them have left. A live sequence number has its
  value in its slot, or in the hands of exactly one popper, which took it with the
  sequence number recorded in \<open>H\<close>.\<close>

definition held :: "nat \<Rightarrow> (nat \<times> 'a) list \<Rightarrow> nat set" where
  "held cap H = (\<lambda>x. fst x mod cap) ` set H"

definition ring_ok :: "nat \<Rightarrow> (nat \<Rightarrow> 'a option) \<Rightarrow> nat \<Rightarrow> 'a list \<Rightarrow> (nat \<times> 'a) list \<Rightarrow> bool" where
  "ring_ok cap sl t log H \<longleftrightarrow>
     0 < cap \<and> t \<le> length log \<and> length log \<le> t + cap \<and>
     (\<forall>s. t \<le> s \<longrightarrow> s < length log \<longrightarrow>
        sl (s mod cap) = (if s mod cap \<in> held cap H then None else Some (log ! s))) \<and>
     (\<forall>u v. (u, v) \<in> set H \<longrightarrow> (\<exists>s. t \<le> s \<and> s < length log \<and> s mod cap = u mod cap \<and> v = log ! s)) \<and>
     distinct (map (\<lambda>x. fst x mod cap) H) \<and>
     (\<forall>i<cap. (\<forall>s. t \<le> s \<and> s < length log \<longrightarrow> s mod cap \<noteq> i) \<longrightarrow> sl i = None)"

lemma ring_okD:
  assumes "ring_ok cap sl t log H"
  shows "0 < cap" "t \<le> length log" "length log \<le> t + cap" "distinct (map (\<lambda>x. fst x mod cap) H)"
    and "\<And>s. t \<le> s \<Longrightarrow> s < length log \<Longrightarrow> sl (s mod cap) = (if s mod cap \<in> held cap H then None else Some (log ! s))"
    and "\<And>u v. (u, v) \<in> set H \<Longrightarrow> \<exists>s. t \<le> s \<and> s < length log \<and> s mod cap = u mod cap \<and> v = log ! s"
    and "\<And>i. i < cap \<Longrightarrow> (\<And>s. t \<le> s \<Longrightarrow> s < length log \<Longrightarrow> s mod cap \<noteq> i) \<Longrightarrow> sl i = None"
  using assms unfolding ring_ok_def by blast+

lemma ring_okI:
  assumes "0 < cap" "t \<le> length log" "length log \<le> t + cap" "distinct (map (\<lambda>x. fst x mod cap) H)"
    and "\<And>s. t \<le> s \<Longrightarrow> s < length log \<Longrightarrow> sl (s mod cap) = (if s mod cap \<in> held cap H then None else Some (log ! s))"
    and "\<And>u v. (u, v) \<in> set H \<Longrightarrow> \<exists>s. t \<le> s \<and> s < length log \<and> s mod cap = u mod cap \<and> v = log ! s"
    and "\<And>i. i < cap \<Longrightarrow> (\<And>s. t \<le> s \<Longrightarrow> s < length log \<Longrightarrow> s mod cap \<noteq> i) \<Longrightarrow> sl i = None"
  shows "ring_ok cap sl t log H"
  using assms unfolding ring_ok_def by blast

lemma window_inj:
  assumes "(t::nat) \<le> a" "a < t + c" "t \<le> b" "b < t + c" "a mod c = b mod c"
  shows "a = b"
proof -
  have "a - t = b - t" using mod_offset_inj [of t "a - t" c "b - t"] assms by simp
  with assms show ?thesis by simp
qed

lemma held_mid [simp]: "held cap (H1 @ (u, v) # H2) = insert (u mod cap) (held cap (H1 @ H2))"
  by (auto simp: held_def)

text \<open>A popper takes the value of a slot.\<close>

lemma ring_ok_take:
  assumes ok: "ring_ok cap sl t log (H1 @ H2)" and v: "sl (u mod cap) = Some v"
  shows "ring_ok cap (sl(u mod cap := None)) t log (H1 @ (u, v) # H2)"
proof -
  note D = ring_okD [OF ok]
  obtain s where s: "t \<le> s" "s < length log" "s mod cap = u mod cap"
    using D(7) [of "u mod cap"] D(1) v by force
  have nh: "u mod cap \<notin> held cap (H1 @ H2)" and val: "v = log ! s"
    using D(5) [OF s(1,2)] s(3) v by (auto split: if_splits)
  show ?thesis
  proof (rule ring_okI)
    show "distinct (map (\<lambda>x. fst x mod cap) (H1 @ (u, v) # H2))"
      using D(4) nh by (auto simp: held_def)
  qed (use D s nh val in auto)
qed

text \<open>A popper puts back what it took.\<close>

lemma ring_ok_restore:
  assumes ok: "ring_ok cap sl t log (H1 @ (u, v) # H2)"
  shows "ring_ok cap (sl(u mod cap := Some v)) t log (H1 @ H2)"
proof -
  note D = ring_okD [OF ok]
  obtain s where s: "t \<le> s" "s < length log" "s mod cap = u mod cap" "v = log ! s"
    using D(6) [of u v] by auto
  have nh: "u mod cap \<notin> held cap (H1 @ H2)" using D(4) by (auto simp: held_def)
  show ?thesis
  proof (rule ring_okI)
    fix s' assume s': "t \<le> s'" "s' < length log"
    show "(sl(u mod cap := Some v)) (s' mod cap) = (if s' mod cap \<in> held cap (H1 @ H2) then None else Some (log ! s'))"
    proof (cases "s' mod cap = u mod cap")
      case True
      then have "s' = s" using s s' D(3) by (intro window_inj [of t s' cap s]) auto
      then show ?thesis using s nh by simp
    qed (use D(5) [OF s'] in auto)
  qed (use D s in auto)
qed

text \<open>The popper that holds the oldest value moves the tail past it.\<close>

lemma ring_ok_advance:
  assumes ok: "ring_ok cap sl t log (H1 @ (t, v) # H2)" and t: "t < length log"
  shows "ring_ok cap sl (Suc t) log (H1 @ H2) \<and> v = log ! t"
proof -
  note D = ring_okD [OF ok]
  obtain s where s: "t \<le> s" "s < length log" "s mod cap = t mod cap" "v = log ! s" using D(6) [of t v] by auto
  have st: "s = t" using s t D(3) by (intro window_inj [of t s cap t]) auto
  have nh: "t mod cap \<notin> held cap (H1 @ H2)" using D(4) by (auto simp: held_def)
  have ne: "s' mod cap \<noteq> t mod cap" if "Suc t \<le> s'" "s' < length log" for s'
    using window_inj [of t s' cap t] that D(3) t by auto
  have "ring_ok cap sl (Suc t) log (H1 @ H2)"
  proof (rule ring_okI)
    fix i assume i: "i < cap" "\<And>s. Suc t \<le> s \<Longrightarrow> s < length log \<Longrightarrow> s mod cap \<noteq> i"
    show "sl i = None"
    proof (cases "i = t mod cap")
      case True
      then show ?thesis using D(5) [of t] t by simp
    next
      case False
      then show ?thesis using D(7) [OF i(1)] i(2) by (metis Suc_leI le_neq_implies_less)
    qed
  next
    fix u w assume uw: "(u, w) \<in> set (H1 @ H2)"
    then obtain s' where s': "t \<le> s'" "s' < length log" "s' mod cap = u mod cap" "w = log ! s'" using D(6) [of u w] by auto
    have "s' \<noteq> t" using s'(3) uw nh by (force simp: held_def)
    with s' show "\<exists>s. Suc t \<le> s \<and> s < length log \<and> s mod cap = u mod cap \<and> w = log ! s"
      by (intro exI [of _ s']) auto
  qed (use D t ne in auto)
  with s st show ?thesis by simp
qed

text \<open>The producer fills the slot behind the newest value.\<close>

lemma ring_ok_put:
  assumes ok: "ring_ok cap sl t log H" and room: "length log < t + cap"
  shows "sl (length log mod cap) = None \<and>
    ring_ok cap (sl(length log mod cap := Some v)) t (log @ [v]) H"
proof -
  note D = ring_okD [OF ok]
  let ?h = "length log"
  have ne: "s mod cap \<noteq> ?h mod cap" if "t \<le> s" "s < ?h" for s
    using window_inj [of t s cap ?h] that room by auto
  have free: "sl (?h mod cap) = None" using D(7) [of "?h mod cap"] D(1) ne by auto
  have nh: "?h mod cap \<notin> held cap H"
  proof
    assume "?h mod cap \<in> held cap H"
    then obtain u w where "(u, w) \<in> set H" "u mod cap = ?h mod cap" by (auto simp: held_def)
    with D(6) ne show False by metis
  qed
  have "ring_ok cap (sl(?h mod cap := Some v)) t (log @ [v]) H"
  proof (rule ring_okI)
    fix s assume s: "t \<le> s" "s < length (log @ [v])"
    show "(sl(?h mod cap := Some v)) (s mod cap) = (if s mod cap \<in> held cap H then None else Some ((log @ [v]) ! s))"
      using D(5) [of s] s ne [of s] nh by (cases "s = ?h") (auto simp: nth_append)
  next
    fix u w assume "(u, w) \<in> set H"
    from D(6) [OF this] show "\<exists>s. t \<le> s \<and> s < length (log @ [v]) \<and> s mod cap = u mod cap \<and> w = (log @ [v]) ! s"
      by (auto simp: nth_append)
  next
    fix i assume i: "i < cap" "\<And>s. t \<le> s \<Longrightarrow> s < length (log @ [v]) \<Longrightarrow> s mod cap \<noteq> i"
    then have "i \<noteq> ?h mod cap" using D(2) by force
    then show "(sl(?h mod cap := Some v)) i = None" using D(7) [OF i(1)] i(2) by auto
  qed (use D room in auto)
  with free show ?thesis by simp
qed

section \<open>The invariant\<close>

fun holder :: "'a pop_pc \<Rightarrow> (nat \<times> 'a) list" where
  "holder (QCas t v) = [(t, v)]"
| "holder (QUndo t v) = [(t, v)]"
| "holder _ = []"

fun drop_holder :: "'a push_pc \<Rightarrow> (nat \<times> 'a) list" where
  "drop_holder (PDrop v q) = holder q"
| "drop_holder _ = []"

fun tentative :: "'a push_pc \<Rightarrow> 'a list" where
  "tentative (PHead v h) = [v]"
| "tentative _ = []"

fun pop_ok :: "'a pop_pc \<Rightarrow> 'a ring_mem \<Rightarrow> bool" where
  "pop_ok (QHead t) m \<longleftrightarrow> t \<le> m_tail m"
| "pop_ok (QSwap t) m \<longleftrightarrow> t \<le> m_tail m \<and> t < m_head m"
| "pop_ok (QCas t v) m \<longleftrightarrow> t \<le> m_tail m \<and> t < m_head m"
| "pop_ok _ m \<longleftrightarrow> True"

fun push_ok :: "nat \<Rightarrow> bool \<Rightarrow> 'a push_pc \<Rightarrow> 'a ring_mem \<Rightarrow> bool" where
  "push_ok cap dr (PTail v h) m \<longleftrightarrow> h = m_head m"
| "push_ok cap dr (PSlot v h) m \<longleftrightarrow> h = m_head m \<and> h < m_tail m + cap"
| "push_ok cap dr (PHead v h) m \<longleftrightarrow> h = m_head m"
| "push_ok cap dr (PUndo v h) m \<longleftrightarrow> False"
| "push_ok cap dr (PDrop v q) m \<longleftrightarrow> dr \<and> pop_ok q m"
| "push_ok cap dr _ m \<longleftrightarrow> True"

definition spsc_inv :: "nat \<Rightarrow> bool \<Rightarrow> 'a spsc \<Rightarrow> bool" where
  "spsc_inv cap dr s \<longleftrightarrow>
     ring_ok cap (m_slots (mem s)) (m_tail (mem s)) (entered s @ tentative (producer s))
       (holder (consumer s) @ drop_holder (producer s)) \<and>
     m_head (mem s) = length (entered s) \<and> m_tail (mem s) \<le> m_head (mem s) \<and>
     pop_ok (consumer s) (mem s) \<and> push_ok cap dr (producer s) (mem s) \<and>
     left_ring s = take (m_tail (mem s)) (entered s) \<and> subseq (received s) (left_ring s) \<and>
     (dr \<or> received s = left_ring s)"

lemma pop_ok_slots [simp]: "pop_ok q (m\<lparr>m_slots := x\<rparr>) = pop_ok q m"
  by (cases q) auto

lemma pop_ok_mono: "pop_ok q m \<Longrightarrow> m_tail m \<le> m_tail m' \<Longrightarrow> m_head m \<le> m_head m' \<Longrightarrow> pop_ok q m'"
  by (cases q) auto

lemma push_ok_mono: "push_ok cap dr p m \<Longrightarrow> m_tail m \<le> m_tail m' \<Longrightarrow> m_head m = m_head m' \<Longrightarrow> push_ok cap dr p m'"
  using pop_ok_mono by (cases p) fastforce+

lemma pop_step_ok:
  assumes "ring_ok cap (m_slots m) (m_tail m) log (H1 @ holder q @ H2)" "pop_ok q m" "m_head m \<le> length log"
    "pop_step cap q m = (q', m')"
  shows "ring_ok cap (m_slots m') (m_tail m') log (H1 @ holder q' @ H2) \<and> pop_ok q' m' \<and> m_head m' = m_head m \<and>
    (popped_by q m = [] \<and> m_tail m' = m_tail m \<or>
     popped_by q m = [log ! m_tail m] \<and> m_tail m < m_head m \<and> m_tail m' = Suc (m_tail m))"
proof (cases q)
  case (QSwap t)
  then show ?thesis using assms ring_ok_take [of cap "m_slots m" "m_tail m" log H1 H2 t] by (auto split: option.splits)
next
  case (QCas t v)
  show ?thesis
  proof (cases "m_tail m = t")
    case True
    then show ?thesis using assms QCas ring_ok_advance [of cap "m_slots m" t log H1 v H2] by auto
  next
    case False
    then show ?thesis using assms QCas by auto
  qed
next
  case (QUndo t v)
  then show ?thesis using assms ring_ok_restore [of cap "m_slots m" "m_tail m" log H1 t v H2] by auto
qed (use assms in auto)

lemma spsc_inv_init: "0 < cap \<Longrightarrow> spsc_inv cap dr spsc_init"
  by (auto simp: spsc_inv_def spsc_init_def ring_ok_def held_def)

lemma take_leaves:
  "t < length e \<Longrightarrow> take t e @ [(e @ x) ! t] = take (Suc t) e"
  by (simp add: take_Suc_conv_app_nth nth_append)

lemma consumer_keeps_inv:
  assumes "spsc_inv cap dr s"
  shows "spsc_inv cap dr (spsc_move cap dr StepConsumer s)"
proof -
  obtain q' m' where st: "pop_step cap (consumer s) (mem s) = (q', m')" by force
  have ok: "ring_ok cap (m_slots m') (m_tail m') (entered s @ tentative (producer s)) (holder q' @ drop_holder (producer s))"
    "pop_ok q' m'" "m_head m' = m_head (mem s)"
    "popped_by (consumer s) (mem s) = [] \<and> m_tail m' = m_tail (mem s) \<or>
     popped_by (consumer s) (mem s) = [(entered s @ tentative (producer s)) ! m_tail (mem s)] \<and>
       m_tail (mem s) < m_head (mem s) \<and> m_tail m' = Suc (m_tail (mem s))"
    using pop_step_ok [of cap "mem s" "entered s @ tentative (producer s)" "[]" "consumer s" "drop_holder (producer s)" q' m']
      assms st by (auto simp: spsc_inv_def)
  have "push_ok cap dr (producer s) m'"
    by (rule push_ok_mono [of cap dr _ "mem s"]) (use assms ok in \<open>auto simp: spsc_inv_def\<close>)
  moreover have "left_ring s @ popped_by (consumer s) (mem s) = take (m_tail m') (entered s)"
    using ok(4) assms take_leaves by (auto simp: spsc_inv_def)
  moreover have "subseq (received s @ popped_by (consumer s) (mem s)) (left_ring s @ popped_by (consumer s) (mem s))"
    using assms by (auto simp: spsc_inv_def subseq_append)
  ultimately show ?thesis using ok assms st by (auto simp: spsc_inv_def)
qed

lemma producer_keeps_inv:
  assumes "spsc_inv cap dr s"
  shows "spsc_inv cap dr (spsc_move cap dr StepProducer s)"
proof (cases "producer s")
  case (PDrop v q)
  obtain q' m' where st: "pop_step cap q (mem s) = (q', m')" by force
  have ok: "ring_ok cap (m_slots m') (m_tail m') (entered s) (holder (consumer s) @ holder q')"
    "pop_ok q' m'" "m_head m' = m_head (mem s)"
    "popped_by q (mem s) = [] \<and> m_tail m' = m_tail (mem s) \<or>
     popped_by q (mem s) = [entered s ! m_tail (mem s)] \<and>
       m_tail (mem s) < m_head (mem s) \<and> m_tail m' = Suc (m_tail (mem s))"
    using pop_step_ok [of cap "mem s" "entered s" "holder (consumer s)" q "[]" q' m']
      assms st PDrop by (auto simp: spsc_inv_def)
  have "pop_ok (consumer s) m'"
    by (rule pop_ok_mono [of _ "mem s"]) (use assms ok in \<open>auto simp: spsc_inv_def\<close>)
  moreover have "left_ring s @ popped_by q (mem s) = take (m_tail m') (entered s)"
    using ok(4) assms take_leaves [of "m_tail (mem s)" "entered s" "[]"] by (auto simp: spsc_inv_def)
  moreover have "subseq (received s) (left_ring s @ popped_by q (mem s))" "dr"
    using assms PDrop by (auto simp: spsc_inv_def intro: subseq_rev_drop_many)
  moreover have "m_tail m' \<le> m_head m'" using ok(3,4) assms by (auto simp: spsc_inv_def)
  moreover have "entered s = entered s @ tentative (producer s)" using PDrop by simp
  ultimately have "spsc_inv cap dr (s\<lparr>producer := p, mem := m', left_ring := left_ring s @ popped_by q (mem s)\<rparr>)"
    if "p = PStart v \<and> holder q' = [] \<or> p = PDrop v q'" for p
    using that ok(1-3) assms by (auto simp: spsc_inv_def)
  moreover have "spsc_move cap dr StepProducer s =
      s\<lparr>producer := (case q' of QDone _ \<Rightarrow> PStart v | _ \<Rightarrow> PDrop v q'), mem := m',
        left_ring := left_ring s @ popped_by q (mem s)\<rparr>"
    using PDrop st by simp
  ultimately show ?thesis by (cases q') simp_all
next
  case (PSlot v h)
  then show ?thesis
    using assms ring_ok_put [of cap "m_slots (mem s)" "m_tail (mem s)" "entered s" "holder (consumer s)" v] pop_ok_mono
    by (auto simp: spsc_inv_def)
next
  case (PHead v h)
  then show ?thesis using assms by (auto simp: spsc_inv_def intro: pop_ok_mono)
qed (use assms in \<open>auto simp: spsc_inv_def\<close>)

lemma spsc_move_keeps_inv: "spsc_inv cap dr s \<Longrightarrow> spsc_inv cap dr (spsc_move cap dr a s)"
proof (cases a)
  case (CallPush v)
  assume "spsc_inv cap dr s"
  with CallPush show ?thesis by (cases "producer s") (auto simp: spsc_inv_def)
next
  case CallPop
  assume "spsc_inv cap dr s"
  with CallPop show ?thesis by (cases "consumer s") (auto simp: spsc_inv_def)
qed (use consumer_keeps_inv producer_keeps_inv in auto)

lemma spsc_run_inv: "0 < cap \<Longrightarrow> spsc_inv cap dr (spsc_run cap dr ms)"
  unfolding spsc_run_def by (induction ms rule: rev_induct) (simp_all add: spsc_inv_init spsc_move_keeps_inv)


text \<open>A full ring of one slot: the producer drops the value that the consumer is about to take.\<close>

definition contended :: "nat move list" where
  "contended = CallPush 7 # replicate 4 StepProducer @ [CallPop, StepConsumer, StepConsumer] @
     CallPush 8 # replicate 2 StepProducer @ replicate 4 StepProducer @ replicate 3 StepProducer @
     replicate 3 StepConsumer @ StepProducer # replicate 4 StepConsumer"


section \<open>Two producers\<close>

text \<open>\<^verbatim>\<open>BroadcastGroup.Send\<close> pushes into the subscriber's ring without a lock, so two goroutines that
  send at once are two producers.\<close>

datatype 'a actor = First "'a option" | Second "'a option" | Popper bool

text \<open>An actor starts a call when it names a value (or \<open>True\<close>) and steps otherwise.\<close>

fun actor_move ::
  "nat \<Rightarrow> 'a actor \<Rightarrow> 'a push_pc \<times> 'a push_pc \<times> 'a pop_pc \<times> 'a ring_mem \<Rightarrow> 'a push_pc \<times> 'a push_pc \<times> 'a pop_pc \<times> 'a ring_mem" where
  "actor_move cap (First (Some v)) (p, q, c, m) = (PStart v, q, c, m)"
| "actor_move cap (First None) (p, q, c, m) = (let (p', m') = push_step cap True p m in (p', q, c, m'))"
| "actor_move cap (Second (Some v)) (p, q, c, m) = (p, PStart v, c, m)"
| "actor_move cap (Second None) (p, q, c, m) = (let (q', m') = push_step cap True q m in (p, q', c, m'))"
| "actor_move cap (Popper True) (p, q, c, m) = (p, q, QStart, m)"
| "actor_move cap (Popper False) (p, q, c, m) = (let (c', m') = pop_step cap c m in (p, q, c', m'))"

definition racing_sends :: "nat actor list" where
  "racing_sends =
     Second (Some 9) # replicate 2 (Second None) @
     First (Some 1) # replicate 4 (First None) @ Popper True # replicate 2 (Popper False) @
     First (Some 2) # replicate 4 (First None) @
     First (Some 3) # replicate 8 (First None) @
     [Second None, Popper False, First None, First None, Popper False, Popper False, Second None, Second None] @
     replicate 4 (Popper False) @ replicate 4 (Second None)"

definition wedged :: "nat ring_mem" where
  "wedged = \<lparr>m_slots = (\<lambda>_. None)(1 := Some 9), m_head = 4, m_tail = 2\<rparr>"

lemma pop_wedged: "(pop_step 2 q wedged) = (q', m) \<Longrightarrow> q \<in> {QStart, QHead 2, QSwap 2} \<Longrightarrow>
   m = wedged \<and> q' \<in> {QStart, QHead 2, QSwap 2}"
  by (auto simp: wedged_def)

lemma pop_wedged_forever:
  "((\<lambda>(q, m). pop_step 2 q m) ^^ n) (QStart, wedged) = (q, m) \<Longrightarrow> m = wedged \<and> q \<in> {QStart, QHead 2, QSwap 2}"
proof (induction n arbitrary: q m)
  case (Suc n)
  obtain q0 m0 where 0: "((\<lambda>(q, m). pop_step 2 q m) ^^ n) (QStart, wedged) = (q0, m0)" by force
  from Suc.IH [OF 0] Suc.prems 0 pop_wedged [of q0 q m] show ?case by auto
qed simp

text \<open>C38: two concurrent sends can wedge a subscriber. On a dropping ring of two slots there is a
  schedule in which all pushes report success and all three goroutines are idle again, but the value 3 is
  gone: its slot is empty although the tail has not passed it, and a consumer that calls
  \<^verbatim>\<open>Pop\<close> from then on never returns, also when nobody interferes.\<close>

theorem two_producers_wedge:
  "fold (actor_move 2) racing_sends (PDone True, PDone True, QDone None, \<lparr>m_slots = (\<lambda>_. None), m_head = 0, m_tail = 0\<rparr>) =
     (PDone True, PDone True, QDone (Some 2), wedged) \<and>
   m_tail wedged < m_head wedged \<and> m_slots wedged (m_tail wedged mod 2) = None \<and>
   (\<forall>n. fst (((\<lambda>(q, m). pop_step 2 q m) ^^ n) (QStart, wedged)) \<notin> range QDone)"
proof -
  have "fst (((\<lambda>(q, m). pop_step 2 q m) ^^ n) (QStart, wedged)) \<notin> range QDone" for n
    using pop_wedged_forever [of n] by (cases "((\<lambda>(q, m). pop_step 2 q m) ^^ n) (QStart, wedged)") auto
  moreover have "fold (actor_move 2) racing_sends (PDone True, PDone True, QDone None, \<lparr>m_slots = (\<lambda>_. None), m_head = 0, m_tail = 0\<rparr>) =
     (PDone True, PDone True, QDone (Some 2), wedged)"
    by (simp add: racing_sends_def wedged_def eval_nat_numeral fun_eq_iff mod_Suc)
  ultimately show ?thesis by (simp add: wedged_def)
qed

end
