(* ===== verification/Wait_Group.thy ===== *)
theory Wait_Group
  imports Prelude
begin

text \<open>
  \<^verbatim>\<open>waitgroup.go\<close>: the counter and the runtime semaphore behind it. \<^verbatim>\<open>runtime_Semrelease\<close> adds
  a permit and \<^verbatim>\<open>runtime_Semacquire\<close> blocks until it can take one. The counter update and the
  release are two steps, and any number of goroutines may be inside \<^verbatim>\<open>Wait\<close>.
\<close>

datatype wait_pc = Outside | Checking | Sleeping | Returned

record WaitGroup =
  wg_count :: int
  sema :: nat
  releasing :: nat
  waiting :: "nat \<Rightarrow> wait_pc"

definition wg_init :: WaitGroup where
  "wg_init = \<lparr>wg_count = 0, sema = 0, releasing = 0, waiting = (\<lambda>_. Outside)\<rparr>"

text \<open>\<^verbatim>\<open>Add\<close> up to its test; \<open>releasing\<close> counts the calls that are about to release the semaphore.\<close>

definition wg_Add :: "int \<Rightarrow> WaitGroup \<Rightarrow> WaitGroup" where
  "wg_Add delta wg =
     (let next = wrap64 (wg_count wg + delta); wg' = wg\<lparr>wg_count := next\<rparr>
      in if next = 0 then wg'\<lparr>releasing := releasing wg + 1\<rparr> else wg')"

definition wg_Done :: "WaitGroup \<Rightarrow> WaitGroup" where
  "wg_Done wg = wg_Add (- 1) wg"

text \<open>The loop of \<^verbatim>\<open>Wait\<close>, one step at a time.\<close>

definition wait_check :: "nat \<Rightarrow> WaitGroup \<Rightarrow> WaitGroup" where
  "wait_check i wg = wg\<lparr>waiting := (waiting wg)(i := if 0 < wg_count wg then Sleeping else Returned)\<rparr>"

definition wait_wake :: "nat \<Rightarrow> WaitGroup \<Rightarrow> WaitGroup" where
  "wait_wake i wg = wg\<lparr>sema := sema wg - 1, waiting := (waiting wg)(i := Checking)\<rparr>"

text \<open>The counter never goes below zero: \<^verbatim>\<open>Done\<close> is called once for each unit added.\<close>

inductive wg_step :: "WaitGroup \<Rightarrow> WaitGroup \<Rightarrow> bool" where
  add: "0 \<le> wg_count wg + delta \<Longrightarrow> wg_count wg + delta < 2 ^ 63 \<Longrightarrow> delta \<noteq> 0 \<Longrightarrow> wg_step wg (wg_Add delta wg)"
| release: "0 < releasing wg \<Longrightarrow> wg_step wg (wg\<lparr>releasing := releasing wg - 1, sema := sema wg + 1\<rparr>)"
| enter: "waiting wg i = Outside \<Longrightarrow> wg_step wg (wg\<lparr>waiting := (waiting wg)(i := Checking)\<rparr>)"
| check: "waiting wg i = Checking \<Longrightarrow> wg_step wg (wait_check i wg)"
| wake: "waiting wg i = Sleeping \<Longrightarrow> 0 < sema wg \<Longrightarrow> wg_step wg (wait_wake i wg)"

text \<open>The states with at most \<open>n\<close> goroutines inside \<^verbatim>\<open>Wait\<close>.\<close>

inductive wg_reachable :: "nat \<Rightarrow> WaitGroup \<Rightarrow> bool" for n where
  wg_start: "wg_reachable n wg_init"
| wg_next: "wg_reachable n wg \<Longrightarrow> wg_step wg wg' \<Longrightarrow> \<forall>i\<ge>n. waiting wg' i = Outside \<Longrightarrow> wg_reachable n wg'"

lemma wg_invariant:
  assumes "wg_reachable (Suc 0) wg"
  shows "0 \<le> wg_count wg \<and> wg_count wg < 2 ^ 63 \<and> (\<forall>i\<ge>1. waiting wg i = Outside) \<and>
     (waiting wg 0 = Sleeping \<longrightarrow> 0 < wg_count wg \<or> 0 < sema wg + releasing wg)"
  using assms
proof (induction rule: wg_reachable.induct)
  case wg_start
  show ?case by (simp add: wg_init_def)
next
  case (wg_next wg wg')
  from wg_next.hyps(2) show ?case
  proof cases
    case (add delta)
    have "wrap64 (wg_count wg + delta) = wg_count wg + delta" using add by (simp add: in64_def)
    with add wg_next show ?thesis by (auto simp: wg_Add_def Let_def)
  next
    case (wake i)
    then have "i = 0" using wg_next.IH by (cases i) auto
    with wake wg_next show ?thesis by (simp add: wait_wake_def)
  next
    case (check i)
    then have "i = 0" using wg_next.IH by (cases i) auto
    with check wg_next show ?thesis by (simp add: wait_check_def)
  next
    case release
    with wg_next show ?thesis by simp
  next
    case (enter i)
    with wg_next show ?thesis by simp
  qed
qed

text \<open>One goroutine in \<^verbatim>\<open>Wait\<close> is never left asleep: whatever the interleaving of \<^verbatim>\<open>Add\<close> and \<^verbatim>\<open>Done\<close>
  calls with it, when the counter is zero and no \<^verbatim>\<open>Add\<close> is in the middle of its release, a sleeping
  waiter has a permit, and after taking it the waiter returns.\<close>

theorem waiter_wakes:
  assumes "wg_reachable 1 wg" "waiting wg 0 = Sleeping" "wg_count wg = 0" "releasing wg = 0"
  shows "wg_step wg (wait_wake 0 wg) \<and> waiting (wait_check 0 (wait_wake 0 wg)) 0 = Returned"
  using wg_invariant [of wg] assms wg_step.wake [of wg 0] by (simp add: wait_check_def wait_wake_def)

text \<open>Executable runs, for the concrete cases.\<close>

datatype wg_action = MAdd int | MRelease | MEnter nat | MCheck nat | MWake nat

fun wg_move :: "wg_action \<Rightarrow> WaitGroup \<Rightarrow> WaitGroup" where
  "wg_move (MAdd delta) wg = wg_Add delta wg"
| "wg_move MRelease wg = wg\<lparr>releasing := releasing wg - 1, sema := sema wg + 1\<rparr>"
| "wg_move (MEnter i) wg = wg\<lparr>waiting := (waiting wg)(i := Checking)\<rparr>"
| "wg_move (MCheck i) wg = wait_check i wg"
| "wg_move (MWake i) wg = wait_wake i wg"

fun wg_enabled :: "wg_action \<Rightarrow> WaitGroup \<Rightarrow> bool" where
  "wg_enabled (MAdd delta) wg \<longleftrightarrow> 0 \<le> wg_count wg + delta \<and> wg_count wg + delta < 2 ^ 63 \<and> delta \<noteq> 0"
| "wg_enabled MRelease wg \<longleftrightarrow> 0 < releasing wg"
| "wg_enabled (MEnter i) wg \<longleftrightarrow> waiting wg i = Outside"
| "wg_enabled (MCheck i) wg \<longleftrightarrow> waiting wg i = Checking"
| "wg_enabled (MWake i) wg \<longleftrightarrow> waiting wg i = Sleeping \<and> 0 < sema wg"

fun wg_waiter :: "wg_action \<Rightarrow> nat" where
  "wg_waiter (MEnter i) = i"
| "wg_waiter (MCheck i) = i"
| "wg_waiter (MWake i) = i"
| "wg_waiter _ = 0"

fun wg_trace :: "nat \<Rightarrow> wg_action list \<Rightarrow> WaitGroup \<Rightarrow> bool" where
  "wg_trace n [] wg \<longleftrightarrow> True"
| "wg_trace n (m # ms) wg \<longleftrightarrow> wg_enabled m wg \<and> wg_waiter m < n \<and> wg_trace n ms (wg_move m wg)"

lemma wg_move_step: "wg_enabled m wg \<Longrightarrow> wg_step wg (wg_move m wg)"
  using wg_step.release [of wg] by (cases m) (auto intro: wg_step.intros)

lemma wg_trace_reachable:
  "wg_reachable n wg \<Longrightarrow> \<forall>i\<ge>n. waiting wg i = Outside \<Longrightarrow> wg_trace n ms wg \<Longrightarrow> wg_reachable n (fold wg_move ms wg)"
proof (induction ms arbitrary: wg)
  case (Cons m ms)
  then have o: "\<forall>i\<ge>n. waiting (wg_move m wg) i = Outside"
    by (cases m) (auto simp: wg_Add_def Let_def wait_check_def wait_wake_def)
  then have "wg_reachable n (wg_move m wg)" using Cons.prems wg_move_step by (auto intro: wg_next)
  with Cons o show ?case by simp
qed simp

lemma wg_trace_init: "wg_trace n ms wg_init \<Longrightarrow> wg_reachable n (fold wg_move ms wg_init)"
  by (intro wg_trace_reachable wg_start) (simp_all add: wg_init_def)

lemmas wg_eval = wg_init_def wg_Add_def Let_def wait_check_def wait_wake_def in64_def

theorem waiter_wakes_witness:
  "let wg = fold wg_move [MAdd 2, MEnter 0, MCheck 0, MAdd (- 1), MAdd (- 1), MRelease] wg_init
   in wg_step wg (wait_wake 0 wg) \<and> waiting (wait_check 0 (wait_wake 0 wg)) 0 = Returned"
proof -
  let ?wg = "fold wg_move [MAdd 2, MEnter 0, MCheck 0, MAdd (- 1), MAdd (- 1), MRelease] wg_init"
  have "wg_reachable 1 ?wg" by (rule wg_trace_init) (simp add: wg_eval)
  moreover have "waiting ?wg 0 = Sleeping" "wg_count ?wg = 0" "releasing ?wg = 0" by (simp_all add: wg_eval)
  ultimately show ?thesis unfolding Let_def by (rule waiter_wakes)
qed

text \<open>With two goroutines in \<^verbatim>\<open>Wait\<close> one of them can be left asleep for good: the counter reaches zero
  once, which releases one permit, and after the first waiter has returned the second sleeps
  with the counter at zero, no permit and no release under way.\<close>

theorem second_waiter_stuck:
  "\<exists>wg. wg_reachable 2 wg \<and> wg_count wg = 0 \<and> sema wg = 0 \<and> releasing wg = 0 \<and>
        waiting wg 0 = Returned \<and> waiting wg 1 = Sleeping"
proof -
  define ms where "ms = [MAdd 1, MEnter 0, MCheck 0, MEnter 1, MCheck 1, MAdd (- 1), MRelease, MWake 0, MCheck 0]"
  have "wg_reachable 2 (fold wg_move ms wg_init)" unfolding ms_def by (rule wg_trace_init) (simp add: wg_eval)
  then show ?thesis by (intro exI [of _ "fold wg_move ms wg_init"]) (simp add: ms_def wg_eval)
qed

end
