(* ===== verification/Job_Queue.thy ===== *)
theory Job_Queue
  imports Ring_Buffer Cas_Loop Job Metrics "HOL-Library.Multiset"
begin

text \<open>
  \<^verbatim>\<open>disruptor_queue.go\<close> and \<^verbatim>\<open>disruptor_wait.go\<close>. The disruptor itself (\<^verbatim>\<open>go-disruptor\<close>) is a library: its
  answers to \<^verbatim>\<open>TryReserve\<close> are observations of the publishing loop, sequences it has been told to
  commit are collected in \<open>committed\<close>, and it calls \<^verbatim>\<open>Handle\<close> of every handler of the group on every
  committed range. What a handler does with a job is \<^verbatim>\<open>processJob\<close>, the argument \<open>process\<close> here.
  The last section runs the assignment of a slot under any interleaving of the handlers.
\<close>

datatype disruptorWorkKind = disruptorWorkNone | disruptorWorkJob

definition unassignedDisruptorWorker :: int where
  "unassignedDisruptorWorker = - 1"

record 'v jobDisruptorSlot =
  slot_worker :: int
  slot_kind :: disruptorWorkKind
  slot_job :: "'v Job"

record 'v jobDisruptorQueue =
  ring :: "'v jobDisruptorSlot RingBuffer"
  queue_closed :: bool
  activeWorkers :: int
  handlerCount :: int
  committed :: "int list"

definition zero_slot :: "'v jobDisruptorSlot" where
  "zero_slot = \<lparr>slot_worker = 0, slot_kind = disruptorWorkNone, slot_job = zero_Job\<rparr>"

text \<open>\<open>new_err\<close> is the error of \<^verbatim>\<open>disruptor.New\<close>.\<close>

definition newJobDisruptorQueue ::
  "go_error option \<Rightarrow> int \<Rightarrow> int \<Rightarrow> (go_error + 'v jobDisruptorQueue) option" where
  "newJobDisruptorQueue new_err queueCapacity maxWorkers =
     (let mw = (if maxWorkers < 1 then 1 else maxWorkers);
          capacity = max 1 (wrap64 (queueCapacity + mw))
      in case NewRingBuffer zero_slot (word_of_int capacity) of
           None \<Rightarrow> None
         | Some buf \<Rightarrow>
             (let buf' = buf\<lparr>rb_slots := map (\<lambda>s. s\<lparr>slot_worker := unassignedDisruptorWorker\<rparr>) (rb_slots buf)\<rparr>
              in case new_err of
                   Some e \<Rightarrow> Some (Inl (Wrapped ''qpool: initialize disruptor job queue'' e))
                 | None \<Rightarrow> Some (Inr \<lparr>ring = buf', queue_closed = False, activeWorkers = 0, handlerCount = mw,
                                      committed = []\<rparr>)))"

definition setActiveWorkers :: "int \<Rightarrow> 'v jobDisruptorQueue \<Rightarrow> 'v jobDisruptorQueue" where
  "setActiveWorkers workers queue = queue\<lparr>activeWorkers := (if workers < 1 then 1 else workers)\<rparr>"

section \<open>Publishing\<close>

datatype reserve_result = Reserved int | ErrCapacityUnavailable | ErrReservationSize

text \<open>What one round of the publishing loop sees.\<close>

record pub_obs =
  obs_closed :: bool
  obs_pool_err :: "go_error option"
  obs_ctx_err :: "go_error option"
  obs_reserve :: reserve_result
  obs_rand :: int

datatype backoff = Yield | Sleep int

definition backoffReservation :: "int \<Rightarrow> int \<Rightarrow> backoff" where
  "backoffReservation spin rnd_101 = (if spin < 64 then Yield else Sleep ((50 + rnd_101) * microsecond))"

definition update_slot ::
  "int \<Rightarrow> ('v jobDisruptorSlot \<Rightarrow> 'v jobDisruptorSlot) \<Rightarrow> 'v jobDisruptorQueue \<Rightarrow> 'v jobDisruptorQueue" where
  "update_slot sequence f queue =
     (case Slot (ring queue) (word_of_int sequence) of
        None \<Rightarrow> queue
      | Some i \<Rightarrow> queue\<lparr>ring := (ring queue)\<lparr>rb_slots := (rb_slots (ring queue))[i := f (rb_slots (ring queue) ! i)]\<rparr>\<rparr>)"

definition slot_of :: "int \<Rightarrow> 'v jobDisruptorQueue \<Rightarrow> 'v jobDisruptorSlot option" where
  "slot_of sequence queue = map_option (\<lambda>i. rb_slots (ring queue) ! i) (Slot (ring queue) (word_of_int sequence))"

text \<open>The loop over rounds; \<open>None\<close> while it has not returned after the given ones.\<close>

fun publish_loop ::
  "disruptorWorkKind \<Rightarrow> 'v Job \<Rightarrow> int \<Rightarrow> pub_obs list \<Rightarrow> Metrics \<times> 'v jobDisruptorQueue \<Rightarrow>
   (go_error option \<times> Metrics \<times> 'v jobDisruptorQueue) option" where
  "publish_loop kind job spin [] st = None"
| "publish_loop kind job spin (ob # obs) (m, queue) =
     (if obs_closed ob then Some (Some (AppError ''qpool: pool closed''), m, queue)
      else case obs_pool_err ob of
             Some e \<Rightarrow> Some (Some e, m, queue)
           | None \<Rightarrow>
               (case obs_ctx_err ob of
                  Some e \<Rightarrow> Some (Some e, m, queue)
                | None \<Rightarrow>
                    (case obs_reserve ob of
                       ErrCapacityUnavailable \<Rightarrow> publish_loop kind job (spin + 1) obs (m, queue)
                     | ErrReservationSize \<Rightarrow> Some (Some (AppError ''qpool: invalid disruptor reservation''), m, queue)
                     | Reserved upper \<Rightarrow>
                         (let queue1 = update_slot upper
                                (\<lambda>s. \<lparr>slot_worker = unassignedDisruptorWorker, slot_kind = kind, slot_job = job\<rparr>) queue;
                              m1 = (if kind = disruptorWorkJob then incJobQueued m else m)
                          in Some (None, m1, queue1\<lparr>committed := committed queue1 @ [upper]\<rparr>)))))"

definition publish ::
  "disruptorWorkKind \<Rightarrow> 'v Job \<Rightarrow> pub_obs list \<Rightarrow> Metrics \<times> 'v jobDisruptorQueue option \<Rightarrow>
   (go_error option \<times> Metrics \<times> 'v jobDisruptorQueue option) option" where
  "publish kind job obs = (\<lambda>(m, queue).
     case queue of
       None \<Rightarrow> Some (Some (AppError ''qpool: job queue unavailable''), m, None)
     | Some q \<Rightarrow> map_option (\<lambda>(e, m', q'). (e, m', Some q')) (publish_loop kind job 0 obs (m, q)))"

definition publishJob ::
  "'v Job \<Rightarrow> pub_obs list \<Rightarrow> Metrics \<times> 'v jobDisruptorQueue option \<Rightarrow>
   (go_error option \<times> Metrics \<times> 'v jobDisruptorQueue option) option" where
  "publishJob job obs st = publish disruptorWorkJob job obs st"

text \<open>\<^verbatim>\<open>Close\<close> reports whether it closes the disruptor and waits for the listener.\<close>

definition queue_Close :: "'v jobDisruptorQueue option \<Rightarrow> bool \<times> 'v jobDisruptorQueue option" where
  "queue_Close queue =
     (case queue of
        None \<Rightarrow> (False, None)
      | Some q \<Rightarrow> (\<not> queue_closed q, Some (q\<lparr>queue_closed := True\<rparr>)))"

section \<open>Handling\<close>

text \<open>The body of the loop of \<^verbatim>\<open>assignedWorker\<close> on the value it loaded.\<close>

definition assign_body :: "int \<Rightarrow> int \<Rightarrow> int \<Rightarrow> int + int \<times> int" where
  "assign_body active sequence assigned =
     (if assigned \<noteq> unassignedDisruptorWorker then Inl assigned
      else let worker = rem64 sequence (max active 1) in Inr (worker, worker))"

definition assignedWorker :: "int \<Rightarrow> 'v jobDisruptorQueue \<Rightarrow> int \<times> 'v jobDisruptorQueue" where
  "assignedWorker sequence queue =
     (case slot_of sequence queue of
        None \<Rightarrow> (unassignedDisruptorWorker, queue)
      | Some s \<Rightarrow>
          (let (w', r) = atomically (Cas (assign_body (activeWorkers queue) sequence)) (slot_worker s)
           in (r, update_slot sequence (\<lambda>s. s\<lparr>slot_worker := w'\<rparr>) queue)))"

record ('v, 's) jq_world =
  queue :: "'v jobDisruptorQueue"
  mets :: Metrics
  rest :: 's

definition handleJob ::
  "('v Job \<Rightarrow> Metrics \<times> 's \<Rightarrow> Metrics \<times> 's) \<Rightarrow> 'v Job \<Rightarrow> Metrics \<times> 's \<Rightarrow> Metrics \<times> 's" where
  "handleJob process job = (\<lambda>(m, r).
     let (m', r') = process job (incBusyWorker (decJobQueued m), r) in (decBusyWorker m', r'))"

definition clear_slot :: "int \<Rightarrow> 'v jobDisruptorQueue \<Rightarrow> 'v jobDisruptorQueue" where
  "clear_slot sequence = update_slot sequence (\<lambda>s. s\<lparr>slot_kind := disruptorWorkNone, slot_job := zero_Job\<rparr>)"

text \<open>The body of the loop of \<^verbatim>\<open>Handle\<close> up to the call of \<^verbatim>\<open>processJob\<close>: the job the handler has to run, if the slot is its own
  and holds one.\<close>

definition claim_seq ::
  "int \<Rightarrow> int \<Rightarrow> Metrics \<times> 'v jobDisruptorQueue \<Rightarrow> 'v Job option \<times> Metrics \<times> 'v jobDisruptorQueue" where
  "claim_seq workerIndex sequence = (\<lambda>(m, q).
     let (assigned, q1) = assignedWorker sequence q
     in if assigned \<noteq> workerIndex then (None, m, q1)
        else case slot_of sequence q1 of
               None \<Rightarrow> (None, m, q1)
             | Some s \<Rightarrow> (if slot_kind s = disruptorWorkJob then (Some (slot_job s), incBusyWorker (decJobQueued m), q1)
                          else (None, m, clear_slot sequence q1)))"

text \<open>What is left to do when \<^verbatim>\<open>processJob\<close> has returned.\<close>

definition release_seq :: "int \<Rightarrow> Metrics \<times> 'v jobDisruptorQueue \<Rightarrow> Metrics \<times> 'v jobDisruptorQueue" where
  "release_seq sequence = (\<lambda>(m, q). (decBusyWorker m, clear_slot sequence q))"

definition handle_seq ::
  "('v Job \<Rightarrow> Metrics \<times> 's \<Rightarrow> Metrics \<times> 's) \<Rightarrow> int \<Rightarrow> int \<Rightarrow> ('v, 's) jq_world \<Rightarrow> ('v, 's) jq_world" where
  "handle_seq process workerIndex sequence w =
     (case claim_seq workerIndex sequence (mets w, queue w) of
        (None, m, q) \<Rightarrow> w\<lparr>queue := q, mets := m\<rparr>
      | (Some job, m, q) \<Rightarrow>
          (let (m1, r) = process job (m, rest w); (m2, q1) = release_seq sequence (m1, q)
           in w\<lparr>queue := q1, mets := m2, rest := r\<rparr>))"

definition Handle ::
  "('v Job \<Rightarrow> Metrics \<times> 's \<Rightarrow> Metrics \<times> 's) \<Rightarrow> int \<Rightarrow> int \<Rightarrow> int \<Rightarrow> ('v, 's) jq_world \<Rightarrow> ('v, 's) jq_world" where
  "Handle process workerIndex lower upper w = fold (handle_seq process workerIndex) [lower..upper] w"

section \<open>The wait strategy of the listeners\<close>

definition Gate :: "int \<Rightarrow> backoff" where
  "Gate spinCount = Yield"

definition Idle_wait :: "int \<Rightarrow> backoff" where
  "Idle_wait idlingCount =
     (if idlingCount \<le> 64 then Yield
      else if idlingCount \<le> 512 then Sleep (microsecond * (idlingCount - 64))
      else Sleep millisecond)"

definition Reserve_wait :: "int \<Rightarrow> backoff" where
  "Reserve_wait spinCount = Sleep microsecond"

section \<open>Slots\<close>

definition queue_wf :: "nat \<Rightarrow> 'v jobDisruptorQueue \<Rightarrow> bool" where
  "queue_wf k q \<longleftrightarrow> k \<le> 62 \<and> length (rb_slots (ring q)) = 2 ^ k \<and> rb_mask (ring q) = mask k"

definition slot_at :: "nat \<Rightarrow> int \<Rightarrow> 'v jobDisruptorQueue \<Rightarrow> 'v jobDisruptorSlot" where
  "slot_at k sequence q = rb_slots (ring q) ! nat (sequence mod 2 ^ k)"

lemma sint_word_of_int_in64: "in64 x \<Longrightarrow> sint (word_of_int x :: u64) = x"
  by (simp add: in64_def sint_sbintrunc' size_word.rep_eq signed_take_bit_int_eq_self_iff)

lemma Slot_wf: "queue_wf k q \<Longrightarrow> in64 s \<Longrightarrow> Slot (ring q) (word_of_int s) = Some (nat (s mod 2 ^ k))"
  using Slot_mod [of "ring q" k "word_of_int s"] by (simp add: queue_wf_def sint_word_of_int_in64)

lemma slot_of_wf: "queue_wf k q \<Longrightarrow> in64 s \<Longrightarrow> slot_of s q = Some (slot_at k s q)"
  by (simp add: slot_of_def slot_at_def Slot_wf)

lemma update_slot_wf: "queue_wf k q \<Longrightarrow> queue_wf k (update_slot s f q)"
  by (simp add: queue_wf_def update_slot_def split: option.split)

lemma update_slot_active [simp]:
  "activeWorkers (update_slot s f q) = activeWorkers q"
  "committed (update_slot s f q) = committed q"
  by (simp_all add: update_slot_def split: option.split)

lemma slot_at_update:
  assumes "queue_wf k q" "in64 s"
  shows "slot_at k s' (update_slot s f q) = (if s' mod 2 ^ k = s mod 2 ^ k then f (slot_at k s q) else slot_at k s' q)"
proof -
  have lt: "nat (x mod 2 ^ k) < 2 ^ k" for x :: int by (simp add: nat_less_iff)
  have "nat (s' mod 2 ^ k) = nat (s mod 2 ^ k) \<longleftrightarrow> s' mod 2 ^ k = s mod 2 ^ k" by (simp add: nat_eq_iff)
  then show ?thesis
    using assms lt by (auto simp: update_slot_def slot_at_def Slot_wf nth_list_update queue_wf_def)
qed

lemma newJobDisruptorQueue_wf:
  assumes "newJobDisruptorQueue None cap mw = Some (Inr q)"
  shows "\<exists>k. queue_wf k q \<and> (\<forall>s. slot_worker (slot_at k s q) = - 1) \<and> handlerCount q = max 1 mw"
proof -
  let ?c = "word_of_int (max 1 (wrap64 (cap + (if mw < 1 then 1 else mw)))) :: u64"
  obtain buf where b: "NewRingBuffer zero_slot ?c = Some (buf :: 'a jobDisruptorSlot RingBuffer)"
    "q = \<lparr>ring = buf\<lparr>rb_slots := map (\<lambda>s. s\<lparr>slot_worker := unassignedDisruptorWorker\<rparr>) (rb_slots buf)\<rparr>,
          queue_closed = False, activeWorkers = 0, handlerCount = if mw < 1 then 1 else mw, committed = []\<rparr>"
    using assms by (auto simp: newJobDisruptorQueue_def Let_def split: option.splits)
  obtain k where k: "k \<le> 62" "rb_slots buf = replicate (2 ^ k) zero_slot" "rb_mask buf = mask k"
    using NewRingBuffer_shape [OF b(1)] by blast
  have "nat (x mod 2 ^ k) < 2 ^ k" for x :: int by (simp add: nat_less_iff)
  with k b(2) show ?thesis
    by (intro exI [of _ k]) (auto simp: queue_wf_def slot_at_def unassignedDisruptorWorker_def)
qed

section \<open>Publishing a job\<close>

fun refuses :: "pub_obs \<Rightarrow> go_error option" where
  "refuses ob =
     (if obs_closed ob then Some (AppError ''qpool: pool closed'')
      else case obs_pool_err ob of Some e \<Rightarrow> Some e
         | None \<Rightarrow> (case obs_ctx_err ob of Some e \<Rightarrow> Some e
                    | None \<Rightarrow> (if obs_reserve ob = ErrReservationSize
                               then Some (AppError ''qpool: invalid disruptor reservation'') else None)))"

definition waits :: "pub_obs \<Rightarrow> bool" where
  "waits ob \<longleftrightarrow> refuses ob = None \<and> obs_reserve ob = ErrCapacityUnavailable"

lemma publish_loop_waits:
  "\<forall>ob\<in>set obs. waits ob \<Longrightarrow> publish_loop kind job spin (obs @ rest') st = publish_loop kind job (spin + int (length obs)) rest' st"
proof (induction obs arbitrary: spin)
  case (Cons ob obs)
  obtain m q where "st = (m, q)" by (cases st)
  with Cons show ?case by (auto simp: waits_def add.assoc split: if_splits option.splits)
qed simp

lemma publishJob_spec:
  assumes "queue_wf k q" "\<forall>ob\<in>set busy. waits ob" "\<not> waits ob"
  shows "case refuses ob of
      Some e \<Rightarrow> publishJob job (busy @ ob # obs) (m, Some q) = Some (Some e, m, Some q)
    | None \<Rightarrow> \<exists>seq q'. obs_reserve ob = Reserved seq \<and>
        publishJob job (busy @ ob # obs) (m, Some q) = Some (None, incJobQueued m, Some q') \<and>
        queue_wf k q' \<and> committed q' = committed q @ [seq] \<and>
        (in64 seq \<longrightarrow> slot_at k seq q' = \<lparr>slot_worker = - 1, slot_kind = disruptorWorkJob, slot_job = job\<rparr> \<and>
           (\<forall>s. s mod 2 ^ k \<noteq> seq mod 2 ^ k \<longrightarrow> slot_at k s q' = slot_at k s q))"
proof (cases "refuses ob")
  case (Some e)
  then show ?thesis
    using publish_loop_waits [OF assms(2), of disruptorWorkJob job 0 "ob # obs" "(m, q)"]
    by (auto simp: publishJob_def publish_def split: if_splits option.splits reserve_result.splits)
next
  case None
  then obtain seq where seq: "obs_reserve ob = Reserved seq"
    using assms(3) by (cases "obs_reserve ob") (auto simp: waits_def split: if_splits option.splits)
  let ?f = "\<lambda>s. \<lparr>slot_worker = unassignedDisruptorWorker, slot_kind = disruptorWorkJob, slot_job = job\<rparr>"
  let ?q' = "(update_slot seq ?f q)\<lparr>committed := committed q @ [seq]\<rparr>"
  have "publishJob job (busy @ ob # obs) (m, Some q) = Some (None, incJobQueued m, Some ?q')"
    using publish_loop_waits [OF assms(2), of disruptorWorkJob job 0 "ob # obs" "(m, q)"] None seq
    by (auto simp: publishJob_def publish_def Let_def split: if_splits option.splits)
  moreover have "queue_wf k ?q'" using update_slot_wf [OF assms(1), of seq ?f] by (simp add: queue_wf_def)
  moreover have "slot_at k s ?q' = slot_at k s (update_slot seq ?f q)" for s by (simp add: slot_at_def)
  ultimately show ?thesis using None seq slot_at_update [OF assms(1), of seq _ ?f]
    by (auto simp: unassignedDisruptorWorker_def)
qed

text \<open>Publishing. The loop returns at the first round that does not find the ring full. A closed
  queue, an ended pool or caller context and a bad reservation are errors that leave the queue and the
  counters as they were. A reserved sequence number puts the job, unassigned, into the slot of that
  number and into no other, counts it once, and is committed once.\<close>

theorem publish_outcome:
  assumes "queue_wf k q" "\<forall>ob\<in>set busy. waits ob" "\<not> waits ob"
  shows "case refuses ob of
      Some e \<Rightarrow> publishJob job (busy @ ob # obs) (m, Some q) = Some (Some e, m, Some q)
    | None \<Rightarrow> \<exists>seq q'. obs_reserve ob = Reserved seq \<and>
        publishJob job (busy @ ob # obs) (m, Some q) = Some (None, incJobQueued m, Some q') \<and>
        queue_wf k q' \<and> committed q' = committed q @ [seq] \<and>
        (in64 seq \<longrightarrow> slot_at k seq q' = \<lparr>slot_worker = - 1, slot_kind = disruptorWorkJob, slot_job = job\<rparr> \<and>
           (\<forall>s. s mod 2 ^ k \<noteq> seq mod 2 ^ k \<longrightarrow> slot_at k s q' = slot_at k s q))"
  by (rule publishJob_spec [OF assms])

definition small_queue :: "nat jobDisruptorQueue" where
  "small_queue = \<lparr>ring = \<lparr>rb_slots = [zero_slot, zero_slot], rb_mask = 1\<rparr>, queue_closed = False,
                  activeWorkers = 2, handlerCount = 2, committed = []\<rparr>"

lemma small_queue_wf: "queue_wf 1 small_queue"
  by (simp add: queue_wf_def small_queue_def mask_eq_exp_minus_1)

definition round :: "reserve_result \<Rightarrow> pub_obs" where
  "round r = \<lparr>obs_closed = False, obs_pool_err = None, obs_ctx_err = None, obs_reserve = r, obs_rand = 7\<rparr>"

theorem publish_outcome_witness:
  "\<exists>q'. publishJob (zero_Job\<lparr>ID := ''j''\<rparr>) [round ErrCapacityUnavailable, round (Reserved 5)] (NewMetrics, Some small_queue) =
          Some (None, incJobQueued NewMetrics, Some q') \<and>
        ID (slot_job (slot_at 1 5 q')) = ''j'' \<and> slot_at 1 4 q' = slot_at 1 4 small_queue"
proof -
  have "\<not> waits (round (Reserved 5))" "\<forall>ob\<in>set [round ErrCapacityUnavailable]. waits ob"
    "refuses (round (Reserved 5)) = None" "obs_reserve (round (Reserved 5)) = Reserved 5"
    by (simp_all add: waits_def round_def)
  then show ?thesis
    using publish_outcome [OF small_queue_wf, of "[round ErrCapacityUnavailable]" "round (Reserved 5)" "zero_Job\<lparr>ID := ''j''\<rparr>" "[]" NewMetrics]
    by (auto simp: in64_def)
qed

section \<open>Every job is handled once\<close>

text \<open>What the slot of a sequence number looks like to the handlers, when those of the set \<open>D\<close> have
  been there: the job \<open>f s\<close>, until the worker it belongs to has taken it.\<close>

definition slot_state :: "int \<Rightarrow> (int \<Rightarrow> 'v Job) \<Rightarrow> int set \<Rightarrow> int \<Rightarrow> 'v jobDisruptorSlot \<Rightarrow> bool" where
  "slot_state a f D s sl \<longleftrightarrow>
     (slot_worker sl = s mod a \<or> slot_worker sl = - 1 \<and> D = {}) \<and>
     (if s mod a \<in> D then slot_kind sl = disruptorWorkNone
      else slot_kind sl = disruptorWorkJob \<and> slot_job sl = f s)"

lemma assignedWorker_wf:
  assumes "queue_wf k q" "in64 s" "0 \<le> s" "1 \<le> activeWorkers q" "slot_worker (slot_at k s q) \<in> {- 1, s mod activeWorkers q}"
  shows "fst (assignedWorker s q) = s mod activeWorkers q \<and>
    snd (assignedWorker s q) = update_slot s (\<lambda>sl. sl\<lparr>slot_worker := s mod activeWorkers q\<rparr>) q"
proof -
  have "rem64 s (max (activeWorkers q) 1) = s mod activeWorkers q" using assms by (simp add: rem64_nonneg max_def)
  moreover have "0 \<le> s mod activeWorkers q" using assms by simp
  ultimately show ?thesis
    using assms by (auto simp: assignedWorker_def slot_of_wf assign_body_def unassignedDisruptorWorker_def Let_def)
qed

lemma handle_seq_unfold:
  "handle_seq process workerIndex sequence w =
     (let (assigned, q1) = assignedWorker sequence (queue w)
      in if assigned \<noteq> workerIndex then w\<lparr>queue := q1\<rparr>
         else case slot_of sequence q1 of
                None \<Rightarrow> w\<lparr>queue := q1\<rparr>
              | Some s \<Rightarrow>
                  (let (m, r) = (if slot_kind s = disruptorWorkJob then handleJob process (slot_job s) (mets w, rest w)
                                 else (mets w, rest w))
                   in w\<lparr>queue := clear_slot sequence q1, mets := m, rest := r\<rparr>))"
  by (simp add: handle_seq_def claim_seq_def release_seq_def handleJob_def Let_def split: prod.split option.split)

lemma handle_seq_effect:
  assumes "queue_wf k (queue w)" "in64 s" "0 \<le> s" "1 \<le> activeWorkers (queue w)"
    "slot_state (activeWorkers (queue w)) f D s (slot_at k s (queue w))" "i \<notin> D"
  shows "let w' = handle_seq process i s w; a = activeWorkers (queue w) in
     queue_wf k (queue w') \<and> activeWorkers (queue w') = a \<and>
     slot_state a f (insert i D) s (slot_at k s (queue w')) \<and>
     (\<forall>s'. s' mod 2 ^ k \<noteq> s mod 2 ^ k \<longrightarrow> slot_at k s' (queue w') = slot_at k s' (queue w)) \<and>
     (mets w', rest w') = (if s mod a = i then handleJob process (f s) (mets w, rest w) else (mets w, rest w))"
proof -
  let ?a = "activeWorkers (queue w)"
  let ?q1 = "update_slot s (\<lambda>sl. sl\<lparr>slot_worker := s mod ?a\<rparr>) (queue w)"
  have aw: "assignedWorker s (queue w) = (s mod ?a, ?q1)"
    using assignedWorker_wf [OF assms(1-4)] assms(5) by (auto simp: slot_state_def prod_eq_iff)
  have wf1: "queue_wf k ?q1" by (rule update_slot_wf [OF assms(1)])
  have s1: "slot_of s ?q1 = Some ((slot_at k s (queue w))\<lparr>slot_worker := s mod ?a\<rparr>)"
    using slot_of_wf [OF wf1 assms(2)] slot_at_update [OF assms(1,2), of s] by simp
  show ?thesis
  proof (cases "s mod ?a = i")
    case True
    let ?q2 = "update_slot s (\<lambda>sl. sl\<lparr>slot_kind := disruptorWorkNone, slot_job := zero_Job\<rparr>) ?q1"
    have j: "slot_kind (slot_at k s (queue w)) = disruptorWorkJob" "slot_job (slot_at k s (queue w)) = f s"
      using assms(5,6) True by (auto simp: slot_state_def)
    obtain m r where mr: "handleJob process (f s) (mets w, rest w) = (m, r)" by force
    have "handle_seq process i s w = w\<lparr>queue := ?q2, mets := m, rest := r\<rparr>"
      using aw s1 j mr True by (simp add: handle_seq_unfold clear_slot_def)
    then show ?thesis
      using update_slot_wf [OF wf1] slot_at_update [OF wf1 assms(2)] slot_at_update [OF assms(1,2)] mr True
      by (simp add: slot_state_def)
  next
    case False
    have "handle_seq process i s w = w\<lparr>queue := ?q1\<rparr>" using aw False by (simp add: handle_seq_unfold)
    then show ?thesis
      using wf1 slot_at_update [OF assms(1,2)] False assms(5) by (auto simp: slot_state_def)
  qed
qed

text \<open>A handler over a range: it takes the jobs of its own sequence numbers, in order.\<close>

lemma handle_range:
  assumes "queue_wf k (queue w)" "\<forall>s\<in>set ss. in64 s \<and> 0 \<le> s" "1 \<le> activeWorkers (queue w)" "i \<notin> D"
    "\<forall>s\<in>set ss. slot_state (activeWorkers (queue w)) f D s (slot_at k s (queue w))"
    "distinct (map (\<lambda>s. s mod 2 ^ k) ss)"
  shows "let w' = fold (handle_seq process i) ss w; a = activeWorkers (queue w) in
     queue_wf k (queue w') \<and> activeWorkers (queue w') = a \<and>
     (\<forall>s\<in>set ss. slot_state a f (insert i D) s (slot_at k s (queue w'))) \<and>
     (\<forall>s'. s' mod 2 ^ k \<notin> (\<lambda>s. s mod 2 ^ k) ` set ss \<longrightarrow> slot_at k s' (queue w') = slot_at k s' (queue w)) \<and>
     (mets w', rest w') = fold (handleJob process \<circ> f) [s \<leftarrow> ss. s mod a = i] (mets w, rest w)"
  using assms
proof (induction ss arbitrary: w)
  case (Cons s ss)
  define a where "a = activeWorkers (queue w)"
  define w1 where "w1 = handle_seq process i s w"
  have e: "queue_wf k (queue w1)" "activeWorkers (queue w1) = a" "slot_state a f (insert i D) s (slot_at k s (queue w1))"
    "\<And>s'. s' mod 2 ^ k \<noteq> s mod 2 ^ k \<Longrightarrow> slot_at k s' (queue w1) = slot_at k s' (queue w)"
    "(mets w1, rest w1) = (if s mod a = i then handleJob process (f s) (mets w, rest w) else (mets w, rest w))"
    using handle_seq_effect [of k w s f D i process] Cons.prems by (auto simp: Let_def w1_def a_def)
  have ne: "s' mod 2 ^ k \<noteq> s mod 2 ^ k" if "s' \<in> set ss" for s'
    using Cons.prems(6) imageI [OF that, of "\<lambda>s. s mod 2 ^ k"] by auto
  have IH: "let w' = fold (handle_seq process i) ss w1; a = activeWorkers (queue w1) in
     queue_wf k (queue w') \<and> activeWorkers (queue w') = a \<and>
     (\<forall>s\<in>set ss. slot_state a f (insert i D) s (slot_at k s (queue w'))) \<and>
     (\<forall>s'. s' mod 2 ^ k \<notin> (\<lambda>s. s mod 2 ^ k) ` set ss \<longrightarrow> slot_at k s' (queue w') = slot_at k s' (queue w1)) \<and>
     (mets w', rest w') = fold (handleJob process \<circ> f) [s \<leftarrow> ss. s mod a = i] (mets w1, rest w1)"
  proof (rule Cons.IH)
    show "\<forall>s\<in>set ss. slot_state (activeWorkers (queue w1)) f D s (slot_at k s (queue w1))"
      using Cons.prems(5) e(2,4) ne by (simp add: a_def)
  qed (use Cons.prems e in \<open>auto simp: a_def\<close>)
  have "s mod 2 ^ k \<notin> (\<lambda>s. s mod 2 ^ k) ` set ss" using ne by force
  with IH e show ?case unfolding Let_def a_def [symmetric] w1_def [symmetric] by (auto simp: w1_def [symmetric])
qed simp

definition handle_all ::
  "('v Job \<Rightarrow> Metrics \<times> 's \<Rightarrow> Metrics \<times> 's) \<Rightarrow> int list \<Rightarrow> int \<Rightarrow> int \<Rightarrow> ('v, 's) jq_world \<Rightarrow> ('v, 's) jq_world" where
  "handle_all process hs lower upper w = fold (\<lambda>i. Handle process i lower upper) hs w"

lemma handle_group:
  assumes "queue_wf k (queue w)" "\<forall>s\<in>set ss. in64 s \<and> 0 \<le> s" "1 \<le> activeWorkers (queue w)"
    "distinct hs" "set hs \<inter> D = {}"
    "\<forall>s\<in>set ss. slot_state (activeWorkers (queue w)) f D s (slot_at k s (queue w))"
    "distinct (map (\<lambda>s. s mod 2 ^ k) ss)"
  shows "let w' = fold (\<lambda>i. fold (handle_seq process i) ss) hs w; a = activeWorkers (queue w) in
     (\<forall>s\<in>set ss. slot_state a f (set hs \<union> D) s (slot_at k s (queue w'))) \<and>
     (mets w', rest w') = fold (handleJob process \<circ> f) (concat (map (\<lambda>i. [s \<leftarrow> ss. s mod a = i]) hs)) (mets w, rest w)"
  using assms
proof (induction hs arbitrary: w D)
  case (Cons i hs)
  define w1 where "w1 = fold (handle_seq process i) ss w"
  have e: "queue_wf k (queue w1)" "activeWorkers (queue w1) = activeWorkers (queue w)"
    "\<forall>s\<in>set ss. slot_state (activeWorkers (queue w)) f (insert i D) s (slot_at k s (queue w1))"
    "(mets w1, rest w1) = fold (handleJob process \<circ> f) [s \<leftarrow> ss. s mod activeWorkers (queue w) = i] (mets w, rest w)"
    using handle_range [of k w ss i D f process] Cons.prems by (auto simp: Let_def w1_def)
  have "let w' = fold (\<lambda>i. fold (handle_seq process i) ss) hs w1; a = activeWorkers (queue w1) in
     (\<forall>s\<in>set ss. slot_state a f (set hs \<union> insert i D) s (slot_at k s (queue w'))) \<and>
     (mets w', rest w') = fold (handleJob process \<circ> f) (concat (map (\<lambda>i. [s \<leftarrow> ss. s mod a = i]) hs)) (mets w1, rest w1)"
    by (rule Cons.IH) (use Cons.prems e in auto)
  with e show ?case by (simp add: Let_def w1_def comp_def)
qed simp

lemma mset_split_by:
  "distinct hs \<Longrightarrow> mset (concat (map (\<lambda>i. [s \<leftarrow> ss. g s = i]) hs)) = mset [s \<leftarrow> ss. g s \<in> set hs]"
proof (induction hs)
  case (Cons i hs)
  then have "i \<notin> set hs" by simp
  then have "mset [s \<leftarrow> ss. g s = i \<or> g s \<in> set hs] = mset [s \<leftarrow> ss. g s = i] + mset [s \<leftarrow> ss. g s \<in> set hs]"
    by (induction ss) auto
  with Cons show ?case by simp
qed simp

lemma upto_mod_distinct: "hi - lo < 2 ^ k \<Longrightarrow> distinct (map (\<lambda>s. s mod 2 ^ k) [lo..hi :: int])"
proof -
  assume d: "hi - lo < 2 ^ k"
  have "x = y" if "x mod 2 ^ k = y mod 2 ^ k" "lo \<le> x" "x \<le> hi" "lo \<le> y" "y \<le> hi" for x y
  proof -
    have "(2 ^ k :: int) dvd x - y" using that(1) by (simp add: mod_eq_dvd_iff)
    moreover have "\<bar>x - y\<bar> < 2 ^ k" using that d by linarith
    ultimately show ?thesis using zdvd_not_zless [of "\<bar>x - y\<bar>" "2 ^ k"] by (cases "x = y") auto
  qed
  then show ?thesis by (auto simp: distinct_map inj_on_def)
qed

text \<open>C9: every published job is processed exactly once. When the slots of a committed range that fits
  into the ring hold unassigned jobs, the handlers 0 to \<open>n - 1\<close> run over the range in any order,
  and the active workers number between 1 and \<open>n\<close>, the jobs are given to \<^verbatim>\<open>processJob\<close> once each (in an
  order that is a permutation of the range), and no slot has a job left.\<close>

theorem every_job_handled_once:
  assumes "queue_wf k (queue w)" "0 \<le> lower" "upper < 2 ^ 63" "upper - lower < 2 ^ k"
    "1 \<le> activeWorkers (queue w)" "activeWorkers (queue w) \<le> n" "distinct hs" "set hs = {0..<n}"
    "\<forall>s\<in>{lower..upper}. slot_at k s (queue w) = \<lparr>slot_worker = - 1, slot_kind = disruptorWorkJob, slot_job = f s\<rparr>"
  shows "\<exists>order. mset order = mset [lower..upper] \<and>
     (let w' = handle_all process hs lower upper w in
        (mets w', rest w') = fold (handleJob process \<circ> f) order (mets w, rest w) \<and>
        (\<forall>s\<in>{lower..upper}. slot_kind (slot_at k s (queue w')) = disruptorWorkNone))"
proof -
  let ?a = "activeWorkers (queue w)"
  let ?order = "concat (map (\<lambda>i. [s \<leftarrow> [lower..upper]. s mod ?a = i]) hs)"
  have r: "s mod ?a \<in> set hs" for s
  proof -
    have "0 \<le> s mod ?a" "s mod ?a < ?a" using assms(5) by simp_all
    then show ?thesis unfolding assms(8) using assms(6) by (simp add: order_less_le_trans)
  qed
  have "handle_all process hs lower upper w = fold (\<lambda>i. fold (handle_seq process i) [lower..upper]) hs w"
    unfolding handle_all_def by (rule fold_cong) (auto simp: Handle_def fun_eq_iff)
  moreover have "let w' = fold (\<lambda>i. fold (handle_seq process i) [lower..upper]) hs w; a = ?a in
     (\<forall>s\<in>set [lower..upper]. slot_state a f (set hs \<union> {}) s (slot_at k s (queue w'))) \<and>
     (mets w', rest w') = fold (handleJob process \<circ> f) (concat (map (\<lambda>i. [s \<leftarrow> [lower..upper]. s mod a = i]) hs)) (mets w, rest w)"
    by (rule handle_group)
       (use assms in \<open>auto simp: in64_def slot_state_def upto_mod_distinct simp del: distinct_map\<close>)
  moreover have "mset ?order = mset [lower..upper]"
    using mset_split_by [OF assms(7), of "\<lambda>s. s mod ?a" "[lower..upper]"] r by simp
  ultimately show ?thesis using r by (intro exI [of _ ?order]) (auto simp: Let_def slot_state_def)
qed

definition named_job :: "int \<Rightarrow> nat Job" where
  "named_job s = zero_Job\<lparr>TTL := s\<rparr>"

definition loaded_world :: "(nat, int list) jq_world" where
  "loaded_world =
     \<lparr>queue = small_queue\<lparr>ring := \<lparr>rb_slots = map (\<lambda>s. \<lparr>slot_worker = - 1, slot_kind = disruptorWorkJob, slot_job = named_job s\<rparr>) [4, 5],
                                  rb_mask = 1\<rparr>\<rparr>,
      mets = NewMetrics, rest = []\<rparr>"

theorem every_job_handled_once_witness:
  "\<exists>order. mset order = mset [4, 5 :: int] \<and>
     rest (handle_all (\<lambda>j (m, r). (m, r @ [TTL j])) [1, 0] 4 5 loaded_world) = order"
proof -
  let ?p = "\<lambda>(j :: nat Job) (m, r). (m, r @ [TTL j])"
  have wf: "queue_wf 1 (queue loaded_world)"
    by (simp add: queue_wf_def loaded_world_def small_queue_def mask_eq_exp_minus_1)
  have a: "activeWorkers (queue loaded_world) = 2" by (simp add: loaded_world_def small_queue_def)
  have sl: "\<forall>s\<in>{4..5}. slot_at 1 s (queue loaded_world) =
      \<lparr>slot_worker = - 1, slot_kind = disruptorWorkJob, slot_job = named_job s\<rparr>"
  proof
    fix s :: int assume "s \<in> {4..5}"
    then have "s = 4 \<or> s = 5" by auto
    then show "slot_at 1 s (queue loaded_world) = \<lparr>slot_worker = - 1, slot_kind = disruptorWorkJob, slot_job = named_job s\<rparr>"
      by (auto simp: slot_at_def loaded_world_def)
  qed
  have hs: "set [1, 0] = {0..<2::int}" by auto
  obtain order where o: "mset order = mset [4..5]"
    "(mets (handle_all ?p [1, 0] 4 5 loaded_world), rest (handle_all ?p [1, 0] 4 5 loaded_world)) =
       fold (handleJob ?p \<circ> named_job) order (mets loaded_world, rest loaded_world)"
    using every_job_handled_once [OF wf, of 4 5 2 "[1, 0]" named_job ?p] a sl hs by (auto simp: Let_def)
  have "snd (fold (handleJob ?p \<circ> named_job) xs (m, r)) = r @ xs" for xs m r
    by (induction xs arbitrary: m r) (simp_all add: handleJob_def named_job_def)
  then have "rest (handle_all ?p [1, 0] 4 5 loaded_world) = order"
    using arg_cong [OF o(2), of snd] by (simp add: loaded_world_def)
  moreover have "[4..5] = [4, 5 :: int]" by (simp add: upto_rec1)
  ultimately show ?thesis using o(1) by metis
qed

section \<open>Handlers racing for a slot\<close>

text \<open>An access is the call of \<^verbatim>\<open>assignedWorker\<close> by a handler that sees a number of active workers.\<close>

fun assign_code :: "int \<Rightarrow> int \<times> int \<Rightarrow> (int, int) access" where
  "assign_code sequence (handler, active) = Cas (assign_body active sequence)"

interpretation slot_cell: cas_object "assign_code sequence" "- 1" "\<lambda>w. 0 \<le> sequence \<longrightarrow> - 1 \<le> w"
proof unfold_locales
  fix v :: int and op :: "int \<times> int"
  assume v: "0 \<le> sequence \<longrightarrow> - 1 \<le> v"
  obtain h a where op: "op = (h, a)" by (cases op)
  have "0 < max a 1" by simp
  then show "0 \<le> sequence \<longrightarrow> - 1 \<le> fst (atomically (assign_code sequence op) v)"
    using v rem64_bounds [of sequence "max a 1"]
    by (auto simp: op assign_body_def unassignedDisruptorWorker_def Let_def)
qed simp

lemma assigned_stays:
  "serial_run (assign_code sequence) w h = Some v \<Longrightarrow> w \<noteq> - 1 \<Longrightarrow> v = w \<and> (\<forall>(op, r)\<in>set h. r = w)"
proof (induction h)
  case (Cons x h)
  then show ?case
    by (cases x) (auto simp: assign_body_def unassignedDisruptorWorker_def split: if_splits)
qed simp

lemma assigned_history:
  assumes "serial_run (assign_code sequence) (- 1) h = Some v" "h \<noteq> []" "0 \<le> sequence"
    "\<forall>((i, a), r)\<in>set h. 1 \<le> a \<and> a \<le> n"
  shows "0 \<le> v \<and> v < n \<and> (\<forall>(op, r)\<in>set h. r = v)"
proof -
  obtain i a r h' where h: "h = ((i, a), r) # h'" using assms(2) by (cases h) auto
  have a: "1 \<le> a" "a \<le> n" using assms(4) h by auto
  define w where "w = rem64 sequence (max a 1)"
  have w: "0 \<le> w" "w < n" using rem64_bounds [of sequence "max a 1"] assms(3) a unfolding w_def by auto
  have "serial_run (assign_code sequence) w h' = Some v" "r = w"
    using assms(1) by (auto simp: h assign_body_def unassignedDisruptorWorker_def Let_def w_def split: if_splits)
  with assigned_stays [of sequence w h' v] w show ?thesis by (auto simp: h)
qed

text \<open>Handlers agree on who owns a slot. However the loads and compare-and-swaps of the
  handlers interleave, and even if they see different numbers of active workers, all get the same
  answer; so once every handler of the group has asked, exactly one was told its own index.\<close>

theorem slot_owner_unique:
  assumes "cas_reachable (assign_code sequence) (- 1) s" "0 \<le> sequence" "0 < n"
    "\<forall>((i, a), r)\<in>set (completed s). 1 \<le> a \<and> a \<le> n"
    "\<forall>i\<in>{0..<n}. \<exists>a r. ((i, a), r) \<in> set (completed s)"
  shows "\<exists>!i. i \<in> {0..<n} \<and> (\<exists>a. ((i, a), i) \<in> set (completed s))"
proof -
  have ne: "completed s \<noteq> []" using assms(3,5) by force
  have own: "0 \<le> cell s \<and> cell s < n \<and> (\<forall>(op, r)\<in>set (completed s). r = cell s)"
    by (rule assigned_history [OF slot_cell.linearizable [OF assms(1)] ne assms(2,4)])
  then obtain a r where "((cell s, a), r) \<in> set (completed s)" using assms(5) by force
  with own have "((cell s, a), cell s) \<in> set (completed s)" by force
  with own show ?thesis by (intro ex1I [of _ "cell s"]) force+
qed

theorem slot_owner_unique_witness:
  "let s = cas_exec (assign_code 5) (- 1) [Begin 0 (0, 2), Begin 1 (1, 1), Advance 0, Advance 1, Advance 1, Advance 0, Advance 0]
   in \<exists>!i. i \<in> {0..<2} \<and> (\<exists>a. ((i, a), i) \<in> set (completed s))"
proof -
  let ?s = "cas_exec (assign_code 5) (- 1) [Begin 0 (0, 2), Begin 1 (1, 1), Advance 0, Advance 1, Advance 1, Advance 0, Advance 0]"
  have c: "completed ?s = [((1, 1), 0), ((0, 2), 0)]"
    by (simp add: cas_exec_def cas_init_def assign_body_def unassignedDisruptorWorker_def rem64_def quot64_def)
  have "\<forall>i\<in>{0..<2::int}. \<exists>a r. ((i, a), r) \<in> set (completed ?s)"
  proof
    fix i :: int assume "i \<in> {0..<2}"
    then have "i = 0 \<or> i = 1" by auto
    then show "\<exists>a r. ((i, a), r) \<in> set (completed ?s)" unfolding c by auto
  qed
  moreover have "\<forall>((i, a), r)\<in>set (completed ?s). 1 \<le> a \<and> a \<le> 2" unfolding c by simp
  ultimately show ?thesis unfolding Let_def by (intro slot_owner_unique [OF cas_exec_reachable]) simp_all
qed

section \<open>Backing off\<close>

fun pause_of :: "backoff \<Rightarrow> int" where
  "pause_of Yield = 0"
| "pause_of (Sleep d) = d"

lemma Idle_wait_mono: "i \<le> j \<Longrightarrow> pause_of (Idle_wait i) \<le> pause_of (Idle_wait j)"
  by (simp add: Idle_wait_def microsecond_def millisecond_def)

lemma Idle_wait_bounds: "0 \<le> pause_of (Idle_wait i) \<and> pause_of (Idle_wait i) \<le> millisecond"
  by (simp add: Idle_wait_def microsecond_def millisecond_def)

lemma backoffReservation_bounds:
  "0 \<le> r \<Longrightarrow> r \<le> 100 \<Longrightarrow> pause_of (backoffReservation spin r) \<le> 150 * microsecond"
  by (simp add: backoffReservation_def microsecond_def)

end
