(* ===== verification/Lifecycle.thy ===== *)
theory Lifecycle
  imports Job_Queue Intrusive_List Wait_Group
begin

text \<open>
  \<^verbatim>\<open>lifecycle.go\<close>: the registry of worker tokens, the second client of the intrusive list, and
  the operations that start and stop workers. A worker is a token in the registry and a unit of the
  worker counter; the job queue is told the new count. The part of the pool these
  operations touch is the record \<open>lifecycle\<close>. Telemetry artifacts are recorded as events,
  in the order they are published. An operation that panics or never returns is \<open>None\<close>.
\<close>

section \<open>The worker registry\<close>

record workerToken =
  token_id :: u64

record workerStackNode =
  node_token :: workerToken
  wnode_next :: "nat option"

record worker_heap =
  wnode_at :: "nat \<Rightarrow> workerStackNode"
  wnode_free :: nat

definition set_wnode_next :: "nat \<Rightarrow> nat option \<Rightarrow> worker_heap \<Rightarrow> worker_heap" where
  "set_wnode_next x n m = m\<lparr>wnode_at := (wnode_at m)(x := (wnode_at m x)\<lparr>wnode_next := n\<rparr>)\<rparr>"

definition worker_ops :: "worker_heap node_ops" where
  "worker_ops =
     \<lparr>loadNext = (\<lambda>m node. wnode_next (wnode_at m node)),
      linkBefore = set_wnode_next,
      tryUnlink = (\<lambda>prev current next m.
        if wnode_next (wnode_at m prev) = Some current then (True, set_wnode_next prev next m) else (False, m))\<rparr>"

interpretation workers: bound_list worker_ops "\<lambda>m x. wnode_next (wnode_at m x)"
    "\<lambda>m. (\<lambda>x. node_token (wnode_at m x), wnode_free m)"
  by unfold_locales (auto simp: worker_ops_def set_wnode_next_def)

type_synonym workerRegistry = "worker_heap il_state"

definition empty_worker_heap :: worker_heap where
  "empty_worker_heap = \<lparr>wnode_at = (\<lambda>_. \<lparr>node_token = \<lparr>token_id = 0\<rparr>, wnode_next = None\<rparr>), wnode_free = 0\<rparr>"

definition newWorkerRegistry :: "workerRegistry option" where
  "newWorkerRegistry =
     (case bind (Some (loadNext worker_ops)) (Some (linkBefore worker_ops)) (Some (tryUnlink worker_ops))
             \<lparr>head = None, callbacks = None\<rparr> of
        Inl _ \<Rightarrow> None
      | Inr list \<Rightarrow> Some (list, empty_worker_heap))"

text \<open>A panic of the list becomes \<open>None\<close>.\<close>

fun returned :: "('p + 'a) option \<Rightarrow> 'a option" where
  "returned (Some (Inr x)) = Some x"
| "returned _ = None"

definition registry_push :: "workerToken option \<Rightarrow> workerRegistry \<Rightarrow> workerRegistry option" where
  "registry_push token registry =
     (case token of
        None \<Rightarrow> Some registry
      | Some t \<Rightarrow>
          (let m = snd registry; x = wnode_free m;
               m' = m\<lparr>wnode_at := (wnode_at m)(x := \<lparr>node_token = t, wnode_next = None\<rparr>), wnode_free := Suc x\<rparr>
           in returned (Prepend (Some x) (fst registry, m'))))"

definition popLast :: "workerRegistry \<Rightarrow> (workerToken option \<times> workerRegistry) option" where
  "popLast registry =
     (case returned (PopHead registry) of
        None \<Rightarrow> None
      | Some (node, registry') \<Rightarrow> Some (map_option (\<lambda>x. node_token (wnode_at (snd registry') x)) node, registry'))"

section \<open>Starting and stopping workers\<close>

datatype telemetry =
    WorkerStarted int
  | WorkerDeactivated u64
  | ScaledUp int int
  | ScaledDown int int
  | ClosingPool
  | PoolClosed
  | JobStarted string
  | JobErrored string
  | JobCompleted string int int
  | JobScheduled string
  | DependenciesUnmet string int

record 'v lifecycle =
  lc_metrics :: Metrics
  lc_registry :: workerRegistry
  nextWorker :: u64
  minWorkers :: int
  maxWorkers :: int
  jobQueue :: "'v jobDisruptorQueue option"
  telemetryOn :: bool
  events :: "telemetry list"
  stopping :: bool
  poolCancelled :: bool

definition publishTelemetry :: "telemetry \<Rightarrow> 'v lifecycle \<Rightarrow> 'v lifecycle" where
  "publishTelemetry ev pool = (if telemetryOn pool then pool\<lparr>events := events pool @ [ev]\<rparr> else pool)"

text \<open>A call on a nil job queue panics.\<close>

definition tell_active :: "'v lifecycle \<Rightarrow> 'v lifecycle option" where
  "tell_active pool =
     (case jobQueue pool of
        None \<Rightarrow> None
      | Some q \<Rightarrow> Some (pool\<lparr>jobQueue := Some (setActiveWorkers (workerCount (lc_metrics pool)) q)\<rparr>))"

definition startWorker :: "'v lifecycle \<Rightarrow> 'v lifecycle option" where
  "startWorker pool =
     (let (below, m) = tryIncWorkerIfBelow (maxWorkers pool) (lc_metrics pool); pool1 = pool\<lparr>lc_metrics := m\<rparr>
      in if \<not> below then Some pool1
         else let i = nextWorker pool1 + 1; pool2 = pool1\<lparr>nextWorker := i\<rparr>
              in case registry_push (Some \<lparr>token_id = i\<rparr>) (lc_registry pool2) of
                   None \<Rightarrow> None
                 | Some r \<Rightarrow>
                     map_option (\<lambda>p. publishTelemetry (WorkerStarted (workerCount (lc_metrics p))) p)
                       (tell_active (pool2\<lparr>lc_registry := r\<rparr>)))"

fun scaleDown_loop :: "nat \<Rightarrow> 'v lifecycle \<Rightarrow> 'v lifecycle option" where
  "scaleDown_loop 0 pool = Some pool"
| "scaleDown_loop (Suc n) pool =
     (case popLast (lc_registry pool) of
        None \<Rightarrow> None
      | Some (None, r) \<Rightarrow> Some (pool\<lparr>lc_registry := r\<rparr>)
      | Some (Some token, r) \<Rightarrow>
          (case tell_active (pool\<lparr>lc_registry := r, lc_metrics := decWorkerCount (lc_metrics pool)\<rparr>) of
             None \<Rightarrow> None
           | Some p \<Rightarrow> scaleDown_loop n (publishTelemetry (WorkerDeactivated (token_id token)) p)))"

text \<open>\<^verbatim>\<open>for range count\<close> does not run for a negative count.\<close>

definition scaleDownWorkers :: "int \<Rightarrow> 'v lifecycle \<Rightarrow> 'v lifecycle option" where
  "scaleDownWorkers n pool = scaleDown_loop (nat n) pool"

partial_function (option) deactivateWorkers :: "'v lifecycle \<Rightarrow> 'v lifecycle option" where
  "deactivateWorkers pool =
     (case popLast (lc_registry pool) of
        None \<Rightarrow> None
      | Some r \<Rightarrow>
          (case fst r of
             None \<Rightarrow> Some (pool\<lparr>lc_registry := snd r\<rparr>)
           | Some token \<Rightarrow>
               deactivateWorkers (pool\<lparr>lc_registry := snd r, lc_metrics := decWorkerCount (lc_metrics pool)\<rparr>)))"

text \<open>The part of \<^verbatim>\<open>closePool\<close> that turns new work away.\<close>

definition begin_close :: "'v lifecycle \<Rightarrow> 'v lifecycle" where
  "begin_close pool =
     (let p1 = publishTelemetry ClosingPool pool;
          p2 = p1\<lparr>stopping := True, poolCancelled := True\<rparr>
      in p2\<lparr>jobQueue := snd (queue_Close (jobQueue p2))\<rparr>)"

text \<open>The rest: the two \<^verbatim>\<open>Wait\<close> calls return when their counters are zero (\<open>waits_end\<close>); closing the result
  space is the argument \<open>close_space\<close>.\<close>

definition end_close :: "bool \<Rightarrow> ('s \<Rightarrow> 's) \<Rightarrow> 'v lifecycle \<times> 's \<Rightarrow> ('v lifecycle \<times> 's) option" where
  "end_close waits_end close_space = (\<lambda>(pool, space).
     case deactivateWorkers pool of
       None \<Rightarrow> None
     | Some p4 \<Rightarrow> if waits_end then Some (publishTelemetry PoolClosed p4, close_space space) else None)"

definition closePool :: "bool \<Rightarrow> ('s \<Rightarrow> 's) \<Rightarrow> 'v lifecycle \<times> 's \<Rightarrow> ('v lifecycle \<times> 's) option" where
  "closePool waits_end close_space = (\<lambda>(pool, space). end_close waits_end close_space (begin_close pool, space))"

section \<open>The registry as a stack of tokens\<close>

definition wr_list :: "workerRegistry \<Rightarrow> workerToken list \<Rightarrow> bool" where
  "wr_list r ts \<longleftrightarrow>
     (\<exists>xs. workers.holds r xs \<and> ts = map (\<lambda>x. node_token (wnode_at (snd r) x)) xs \<and> (\<forall>x\<in>set xs. x < wnode_free (snd r)))"

lemma newWorkerRegistry_empty: "\<exists>r. newWorkerRegistry = Some r \<and> wr_list r []"
  by (simp add: newWorkerRegistry_def bind_def wr_list_def workers.holds_def)

lemma registry_push_refines:
  assumes "wr_list r ts"
  shows "\<exists>r'. registry_push (Some t) r = Some r' \<and> wr_list r' (t # ts)"
proof -
  obtain xs where xs: "workers.holds r xs" "ts = map (\<lambda>x. node_token (wnode_at (snd r) x)) xs"
    "\<forall>x\<in>set xs. x < wnode_free (snd r)"
    using assms by (auto simp: wr_list_def)
  define a where "a = wnode_free (snd r)"
  define r1 where "r1 = (fst r, (snd r)\<lparr>wnode_at := (wnode_at (snd r))(a := \<lparr>node_token = t, wnode_next = None\<rparr>), wnode_free := Suc a\<rparr>)"
  have fresh: "a \<notin> set xs" using xs(3) by (auto simp: a_def)
  have "(\<lambda>x. wnode_next (wnode_at (snd r1) x)) = (\<lambda>x. wnode_next (wnode_at (snd r) x))(a := None)"
    by (auto simp: r1_def)
  with xs(1) fresh have h: "workers.holds r1 xs" by (simp add: workers.holds_def r1_def)
  obtain r' where r': "Prepend (Some a) r1 = Some (Inr r')" "workers.holds r' (a # xs)"
    "(\<lambda>x. node_token (wnode_at (snd r') x)) = (\<lambda>x. node_token (wnode_at (snd r1) x))"
    "wnode_free (snd r') = wnode_free (snd r1)"
    using workers.Prepend_refines [OF h fresh] by blast
  have "wr_list r' (t # ts)" unfolding wr_list_def
    by (rule exI [of _ "a # xs"])
       (use r'(2) xs fresh in \<open>auto simp: fun_cong [OF r'(3)] r'(4) r1_def a_def\<close>)
  with r'(1) show ?thesis by (simp add: registry_push_def Let_def r1_def a_def)
qed

lemma popLast_refines:
  assumes "wr_list r ts"
  shows "\<exists>r'. popLast r = Some (case ts of [] \<Rightarrow> None | t # _ \<Rightarrow> Some t, r') \<and> wr_list r' (tl ts)"
proof -
  obtain xs where xs: "workers.holds r xs" "ts = map (\<lambda>x. node_token (wnode_at (snd r) x)) xs"
    "\<forall>x\<in>set xs. x < wnode_free (snd r)"
    using assms by (auto simp: wr_list_def)
  obtain r' where r': "PopHead r = Some (Inr (case xs of [] \<Rightarrow> None | x # _ \<Rightarrow> Some x, r'))" "workers.holds r' (tl xs)"
    "(\<lambda>x. node_token (wnode_at (snd r') x)) = (\<lambda>x. node_token (wnode_at (snd r) x))"
    "wnode_free (snd r') = wnode_free (snd r)"
    using workers.PopHead_refines [OF xs(1)] by blast
  have "wr_list r' (tl ts)" unfolding wr_list_def
    by (rule exI [of _ "tl xs"]) (use r' xs in \<open>cases xs; auto simp: fun_cong [OF r'(3)]\<close>)
  moreover have "popLast r = Some (case ts of [] \<Rightarrow> None | t # _ \<Rightarrow> Some t, r')"
    using r'(1) xs(2) fun_cong [OF r'(3)] by (cases xs) (simp_all add: popLast_def)
  ultimately show ?thesis by blast
qed

section \<open>Counting workers\<close>

text \<open>The worker counter is the number of tokens, between zero and the maximum.\<close>

definition lc_inv :: "'v lifecycle \<Rightarrow> workerToken list \<Rightarrow> bool" where
  "lc_inv pool ts \<longleftrightarrow> wr_list (lc_registry pool) ts \<and> workerCount (lc_metrics pool) = int (length ts) \<and>
     workerCount (lc_metrics pool) \<le> maxWorkers pool \<and> maxWorkers pool < 2 ^ 63 \<and> jobQueue pool \<noteq> None"

definition told_active :: "'v lifecycle \<Rightarrow> bool" where
  "told_active pool \<longleftrightarrow>
     (case jobQueue pool of None \<Rightarrow> False | Some q \<Rightarrow> activeWorkers q = max 1 (workerCount (lc_metrics pool)))"

lemma publishTelemetry_fields [simp]:
  "lc_metrics (publishTelemetry ev p) = lc_metrics p" "lc_registry (publishTelemetry ev p) = lc_registry p"
  "maxWorkers (publishTelemetry ev p) = maxWorkers p" "minWorkers (publishTelemetry ev p) = minWorkers p"
  "jobQueue (publishTelemetry ev p) = jobQueue p" "stopping (publishTelemetry ev p) = stopping p"
  "poolCancelled (publishTelemetry ev p) = poolCancelled p" "nextWorker (publishTelemetry ev p) = nextWorker p"
  by (simp_all add: publishTelemetry_def)

lemma lc_inv_publish [simp]: "lc_inv (publishTelemetry ev p) ts = lc_inv p ts" "told_active (publishTelemetry ev p) = told_active p"
  by (simp_all add: lc_inv_def told_active_def split: option.split)

lemma tell_active_refines:
  "jobQueue p \<noteq> None \<Longrightarrow> \<exists>p'. tell_active p = Some p' \<and> told_active p' \<and> lc_metrics p' = lc_metrics p \<and>
     lc_registry p' = lc_registry p \<and> maxWorkers p' = maxWorkers p \<and> minWorkers p' = minWorkers p \<and> jobQueue p' \<noteq> None \<and>
     stopping p' = stopping p \<and> telemetryOn p' = telemetryOn p \<and> events p' = events p"
  by (auto simp: tell_active_def told_active_def setActiveWorkers_def)

lemma startWorker_refines:
  assumes "lc_inv pool ts"
  shows "\<exists>pool'. startWorker pool = Some pool' \<and> maxWorkers pool' = maxWorkers pool \<and> minWorkers pool' = minWorkers pool \<and>
     (if int (length ts) < maxWorkers pool
      then \<exists>t. lc_inv pool' (t # ts) \<and> told_active pool'
      else pool' = pool)"
proof -
  define below where "below \<longleftrightarrow> int (length ts) < maxWorkers pool"
  have wc: "workerCount (lc_metrics pool) = int (length ts)" "wr_list (lc_registry pool) ts" "jobQueue pool \<noteq> None"
    using assms by (auto simp: lc_inv_def)
  show ?thesis
  proof (cases below)
    case False
    then show ?thesis using wc
      by (auto simp: startWorker_def tryIncWorkerIfBelow_def try_inc_body_def below_def)
  next
    case True
    then have w: "wrap64 (int (length ts) + 1) = int (length ts) + 1"
      using assms by (simp add: lc_inv_def below_def in64_def)
    define t where "t = \<lparr>token_id = nextWorker pool + 1\<rparr>"
    obtain r where r: "registry_push (Some t) (lc_registry pool) = Some r" "wr_list r (t # ts)"
      using registry_push_refines [OF wc(2)] by blast
    define p2 where "p2 = pool\<lparr>lc_metrics := (lc_metrics pool)\<lparr>workerCount := int (length ts) + 1\<rparr>,
      nextWorker := nextWorker pool + 1, lc_registry := r\<rparr>"
    obtain p3 where p3: "tell_active p2 = Some p3" "told_active p3" "lc_metrics p3 = lc_metrics p2"
      "lc_registry p3 = lc_registry p2" "maxWorkers p3 = maxWorkers p2" "minWorkers p3 = minWorkers p2" "jobQueue p3 \<noteq> None"
      using tell_active_refines [of p2] wc(3) by (auto simp: p2_def)
    have "startWorker pool = Some (publishTelemetry (WorkerStarted (workerCount (lc_metrics p3))) p3)"
      using True wc(1) w r(1) p3(1)
      by (simp add: startWorker_def tryIncWorkerIfBelow_def try_inc_body_def below_def t_def [symmetric] p2_def)
    moreover have "lc_inv p3 (t # ts)"
      using p3 r(2) assms True by (simp add: lc_inv_def p2_def below_def)
    ultimately show ?thesis using True p3 by (auto simp: below_def p2_def)
  qed
qed

lemma scaleDown_loop_refines:
  assumes "lc_inv pool ts"
  shows "\<exists>pool'. scaleDown_loop n pool = Some pool' \<and> lc_inv pool' (drop n ts) \<and> maxWorkers pool' = maxWorkers pool \<and>
     minWorkers pool' = minWorkers pool \<and> (told_active pool \<longrightarrow> told_active pool')"
  using assms
proof (induction n arbitrary: pool ts)
  case (Suc n)
  obtain r where r: "popLast (lc_registry pool) = Some (case ts of [] \<Rightarrow> None | t # _ \<Rightarrow> Some t, r)" "wr_list r (tl ts)"
    using popLast_refines [of "lc_registry pool" ts] Suc.prems unfolding lc_inv_def by blast
  show ?case
  proof (cases ts)
    case Nil
    then show ?thesis using r Suc.prems by (auto simp: lc_inv_def told_active_def split: option.splits)
  next
    case (Cons t ts')
    define p1 where "p1 = pool\<lparr>lc_registry := r, lc_metrics := decWorkerCount (lc_metrics pool)\<rparr>"
    have w: "wrap64 (int (length ts) - 1) = int (length ts')"
      using Suc.prems Cons by (simp add: lc_inv_def in64_def)
    obtain p2 where p2: "tell_active p1 = Some p2" "told_active p2" "lc_metrics p2 = lc_metrics p1"
      "lc_registry p2 = lc_registry p1" "maxWorkers p2 = maxWorkers p1" "minWorkers p2 = minWorkers p1" "jobQueue p2 \<noteq> None"
      using tell_active_refines [of p1] Suc.prems by (auto simp: p1_def lc_inv_def)
    have "lc_inv p2 ts'"
      using p2 r Cons Suc.prems w by (simp add: lc_inv_def p1_def decWorkerCount_def)
    then show ?thesis
      using Suc.IH [of "publishTelemetry (WorkerDeactivated (token_id t)) p2" ts'] r Cons p2
      by (auto simp: p1_def)
  qed
qed simp

lemma deactivateWorkers_refines:
  assumes "lc_inv pool ts"
  shows "\<exists>pool'. deactivateWorkers pool = Some pool' \<and> lc_inv pool' [] \<and> maxWorkers pool' = maxWorkers pool \<and>
    minWorkers pool' = minWorkers pool \<and> stopping pool' = stopping pool \<and> jobQueue pool' = jobQueue pool"
  using assms
proof (induction ts arbitrary: pool)
  case Nil
  obtain r where "popLast (lc_registry pool) = Some (None, r)" "wr_list r []"
    using popLast_refines [of "lc_registry pool" "[]"] Nil by (auto simp: lc_inv_def)
  with Nil show ?case by (subst deactivateWorkers.simps) (simp add: lc_inv_def)
next
  case (Cons t ts)
  obtain r where r: "popLast (lc_registry pool) = Some (Some t, r)" "wr_list r ts"
    using popLast_refines [of "lc_registry pool" "t # ts"] Cons.prems by (auto simp: lc_inv_def)
  let ?p = "pool\<lparr>lc_registry := r, lc_metrics := decWorkerCount (lc_metrics pool)\<rparr>"
  have w: "wrap64 (int (length (t # ts)) - 1) = int (length ts)"
    using Cons.prems by (simp add: lc_inv_def in64_def)
  have "lc_inv ?p ts" using Cons.prems r w by (simp add: lc_inv_def decWorkerCount_def)
  from Cons.IH [OF this] r show ?case by (subst deactivateWorkers.simps) simp
qed

text \<open>Sequences of lifecycle operations on a new pool.\<close>

definition new_lifecycle :: "int \<Rightarrow> int \<Rightarrow> 'v jobDisruptorQueue option \<Rightarrow> bool \<Rightarrow> 'v lifecycle option" where
  "new_lifecycle mn mx q tel =
     map_option (\<lambda>r. \<lparr>lc_metrics = NewMetrics, lc_registry = r, nextWorker = 0, minWorkers = mn, maxWorkers = mx,
       jobQueue = q, telemetryOn = tel, events = [], stopping = False, poolCancelled = False\<rparr>) newWorkerRegistry"

datatype lc_op = OpStart | OpScaleDown int | OpDeactivate

fun lc_apply :: "lc_op \<Rightarrow> 'v lifecycle \<Rightarrow> 'v lifecycle option" where
  "lc_apply OpStart p = startWorker p"
| "lc_apply (OpScaleDown n) p = scaleDownWorkers n p"
| "lc_apply OpDeactivate p = deactivateWorkers p"

fun lc_run :: "lc_op list \<Rightarrow> 'v lifecycle option \<Rightarrow> 'v lifecycle option" where
  "lc_run [] p = p"
| "lc_run (a # as) None = None"
| "lc_run (a # as) (Some p) = lc_run as (lc_apply a p)"

fun workers_after :: "int \<Rightarrow> lc_op list \<Rightarrow> int \<Rightarrow> int" where
  "workers_after mx [] n = n"
| "workers_after mx (OpStart # as) n = workers_after mx as (if n < mx then n + 1 else n)"
| "workers_after mx (OpScaleDown k # as) n = workers_after mx as (max 0 (n - max 0 k))"
| "workers_after mx (OpDeactivate # as) n = workers_after mx as 0"

lemma lc_run_refines:
  assumes "lc_inv pool ts"
  shows "\<exists>pool' ts'. lc_run as (Some pool) = Some pool' \<and> lc_inv pool' ts' \<and> maxWorkers pool' = maxWorkers pool \<and>
     int (length ts') = workers_after (maxWorkers pool) as (int (length ts))"
  using assms
proof (induction as arbitrary: pool ts)
  case (Cons a as)
  have "\<exists>p' ts'. lc_apply a pool = Some p' \<and> lc_inv p' ts' \<and> maxWorkers p' = maxWorkers pool \<and>
     workers_after (maxWorkers pool) (a # as) (int (length ts)) = workers_after (maxWorkers pool) as (int (length ts'))"
  proof (cases a)
    case OpStart
    show ?thesis
    proof (cases "int (length ts) < maxWorkers pool")
      case True
      then obtain p' t where "startWorker pool = Some p'" "lc_inv p' (t # ts)" "maxWorkers p' = maxWorkers pool"
        using startWorker_refines [OF Cons.prems] by auto
      with OpStart True show ?thesis by (intro exI [of _ p'] exI [of _ "t # ts"]) (simp add: algebra_simps)
    next
      case False
      then have "startWorker pool = Some pool" using startWorker_refines [OF Cons.prems] by auto
      with OpStart False Cons.prems show ?thesis by auto
    qed
  next
    case (OpScaleDown k)
    obtain p' where "scaleDown_loop (nat k) pool = Some p'" "lc_inv p' (drop (nat k) ts)" "maxWorkers p' = maxWorkers pool"
      using scaleDown_loop_refines [OF Cons.prems, of "nat k"] by auto
    moreover have "int (length (drop (nat k) ts)) = max 0 (int (length ts) - max 0 k)" by auto
    ultimately show ?thesis using OpScaleDown by (auto simp: scaleDownWorkers_def)
  next
    case OpDeactivate
    obtain p' where "deactivateWorkers pool = Some p'" "lc_inv p' []" "maxWorkers p' = maxWorkers pool"
      using deactivateWorkers_refines [OF Cons.prems] by blast
    with OpDeactivate show ?thesis by (intro exI [of _ p'] exI [of _ "[]"]) simp
  qed
  then obtain p' ts' where p': "lc_apply a pool = Some p'" "lc_inv p' ts'" "maxWorkers p' = maxWorkers pool"
    "workers_after (maxWorkers pool) (a # as) (int (length ts)) = workers_after (maxWorkers pool) as (int (length ts'))" by blast
  from Cons.IH [OF p'(2)] p' show ?case by auto
qed auto

lemma new_lifecycle_inv:
  assumes "0 \<le> mx" "mx < 2 ^ 63"
  shows "\<exists>p. new_lifecycle mn mx (Some q) tel = Some p \<and> lc_inv p [] \<and> maxWorkers p = mx \<and> minWorkers p = mn"
proof -
  obtain r where r: "newWorkerRegistry = Some r" "wr_list r []" using newWorkerRegistry_empty by blast
  show ?thesis unfolding new_lifecycle_def r(1) option.map
    by (rule exI, rule conjI, rule refl) (use r assms in \<open>simp add: lc_inv_def NewMetrics_def\<close>)
qed

text \<open>Starting and stopping workers. Any sequence of \<^verbatim>\<open>startWorker\<close>, \<^verbatim>\<open>scaleDownWorkers\<close> and
  \<^verbatim>\<open>deactivateWorkers\<close> calls on a new pool returns; the worker counter always is the number of
  registered tokens, follows the arithmetic of the calls, and stays between zero and the
  configured maximum.\<close>

theorem lifecycle_counts_workers:
  assumes "0 \<le> mx" "mx < 2 ^ 63"
  shows "\<exists>pool ts. lc_run as (new_lifecycle mn mx (Some q) tel) = Some pool \<and> wr_list (lc_registry pool) ts \<and>
     workerCount (lc_metrics pool) = int (length ts) \<and> int (length ts) = workers_after mx as 0 \<and> int (length ts) \<le> mx"
proof -
  obtain p where p: "new_lifecycle mn mx (Some q) tel = Some p" "lc_inv p []" "maxWorkers p = mx"
    using new_lifecycle_inv [OF assms] by blast
  from lc_run_refines [OF p(2), of as] p obtain pool ts where
    "lc_run as (Some p) = Some pool" "lc_inv pool ts" "maxWorkers pool = mx" "int (length ts) = workers_after mx as 0"
    by auto
  with p(1) show ?thesis by (intro exI [of _ pool] exI [of _ ts]) (simp add: lc_inv_def)
qed

theorem lifecycle_counts_workers_witness:
  "\<exists>pool ts. lc_run [OpStart, OpStart, OpStart, OpStart, OpScaleDown 2, OpStart] (new_lifecycle 1 3 (Some small_queue) False) = Some pool \<and>
     wr_list (lc_registry pool) ts \<and> workerCount (lc_metrics pool) = 2"
  using lifecycle_counts_workers [of 3 "[OpStart, OpStart, OpStart, OpStart, OpScaleDown 2, OpStart]" 1 small_queue False]
  by auto

text \<open>Closing: all workers are gone, the queue is closed, and the pool is marked as stopping.\<close>

lemma end_close_refines:
  assumes "lc_inv pool ts"
  shows "\<exists>pool'. end_close True close_space (pool, space) = Some (pool', close_space space) \<and> lc_inv pool' [] \<and>
    stopping pool' = stopping pool \<and> jobQueue pool' = jobQueue pool"
proof -
  obtain p4 where "deactivateWorkers pool = Some p4" "lc_inv p4 []" "stopping p4 = stopping pool" "jobQueue p4 = jobQueue pool"
    using deactivateWorkers_refines [OF assms] by blast
  then show ?thesis by (simp add: end_close_def)
qed

lemma closePool_refines:
  assumes "lc_inv pool ts"
  shows "\<exists>pool'. closePool True close_space (pool, space) = Some (pool', close_space space) \<and> lc_inv pool' [] \<and> stopping pool' \<and>
     (\<exists>q. jobQueue pool' = Some q \<and> queue_closed q)"
proof -
  obtain q where q: "jobQueue pool = Some q" using assms by (auto simp: lc_inv_def)
  have "stopping (begin_close pool)" "jobQueue (begin_close pool) = Some (q\<lparr>queue_closed := True\<rparr>)"
    using q by (simp_all add: begin_close_def queue_Close_def Let_def)
  moreover have "lc_inv (begin_close pool) ts" using assms q by (simp add: begin_close_def queue_Close_def lc_inv_def Let_def)
  ultimately show ?thesis using end_close_refines [of "begin_close pool" ts close_space space] by (auto simp: closePool_def)
qed

end
