(* ===== verification/Scaler.thy ===== *)
theory Scaler
  imports Lifecycle Regulators
begin

text \<open>
  \<^verbatim>\<open>scaler.go\<close> and \<^verbatim>\<open>config.go\<close>: the periodic scaler and the pool's configuration. The arithmetic on
  loads is that of \<^verbatim>\<open>float64\<close>; the clock readings of one evaluation are the record
  \<open>clk\<close>. The scaler changes the pool only through \<^verbatim>\<open>startWorker\<close>, \<^verbatim>\<open>scaleDownWorkers\<close>, \<^verbatim>\<open>NoteLastScale\<close> and
  telemetry. A nil scaler returns at once and is not represented.
\<close>

record ScalerConfig =
  TargetLoad :: f64
  ScaleUpThreshold :: f64
  ScaleDownThreshold :: f64
  Cooldown :: int
  Interval :: int

record Config =
  SchedulingTimeout :: int
  Regulators_of :: "any_regulator list"
  JobChannelCapacity :: int
  CircuitBreakerLimit :: int
  ScalerConfig_of :: "ScalerConfig option"
  TelemetryPublish :: bool

definition NewConfig :: "int \<Rightarrow> Config" where
  "NewConfig defaultLimit =
     \<lparr>SchedulingTimeout = 10 * second, Regulators_of = [], JobChannelCapacity = 0,
      CircuitBreakerLimit = defaultLimit,
      ScalerConfig_of = Some \<lparr>TargetLoad = Fin 2, ScaleUpThreshold = Fin 4, ScaleDownThreshold = Fin 1,
                               Cooldown = 500 * millisecond, Interval = second\<rparr>,
      TelemetryPublish = False\<rparr>"

definition jobQueueCapacity :: "ScalerConfig option \<Rightarrow> int \<Rightarrow> int" where
  "jobQueueCapacity config maxW =
     (case config of
        None \<Rightarrow> f_to_int (math_Max (Fin 1) (f_of_int maxW))
      | Some c \<Rightarrow>
          (let threshold = math_Max (Fin 1) (ScaleUpThreshold c)
           in f_to_int (math_Ceil (f_mul (f_of_int maxW) threshold))))"

record Scaler =
  sc_minWorkers :: int
  sc_maxWorkers :: int
  targetLoad :: f64
  scaleUpThreshold :: f64
  scaleDownThreshold :: f64
  cooldown :: int
  evalInterval :: int
  lastScaleDownNano :: int
  sc_reading :: "MetricReading option"

record clk =
  up_now :: int
  check_now :: int
  down_now :: int

section \<open>One evaluation\<close>

definition currentLoad :: "MetricReading \<Rightarrow> f64" where
  "currentLoad read = f_div (f_of_int (JobQueueSize read)) (f_of_int (max 1 (WorkerCount read)))"

definition needed_workers :: "Scaler \<Rightarrow> MetricReading \<Rightarrow> int" where
  "needed_workers sc read =
     f_to_int (math_Ceil (f_div (f_of_int (JobQueueSize read)) (f_max (Fin 1) (targetLoad sc))))"

definition toAdd :: "Scaler \<Rightarrow> MetricReading \<Rightarrow> int" where
  "toAdd sc read =
     (if f_lt (scaleUpThreshold sc) (currentLoad read) \<and> WorkerCount read < sc_maxWorkers sc
      then let delta = max 0 (wrap64 (needed_workers sc read - WorkerCount read))
           in min (wrap64 (sc_maxWorkers sc - WorkerCount read)) delta
      else 0)"

definition toRemove :: "Scaler \<Rightarrow> MetricReading \<Rightarrow> int" where
  "toRemove sc read =
     (if f_lt (currentLoad read) (scaleDownThreshold sc) \<and> sc_minWorkers sc < WorkerCount read
      then let needed = max (needed_workers sc read) (sc_minWorkers sc)
           in min (wrap64 (WorkerCount read - sc_minWorkers sc))
                  (max 1 (quot64 (wrap64 (WorkerCount read - needed)) 2))
      else 0)"

fun start_loop :: "nat \<Rightarrow> 'v lifecycle \<Rightarrow> 'v lifecycle option" where
  "start_loop 0 pool = Some pool"
| "start_loop (Suc n) pool = (case startWorker pool of None \<Rightarrow> None | Some p \<Rightarrow> start_loop n p)"

definition scaleUp :: "int \<Rightarrow> Scaler \<Rightarrow> 'v lifecycle \<Rightarrow> 'v lifecycle option" where
  "scaleUp n sc pool = start_loop (nat (min (wrap64 (sc_maxWorkers sc - workerCount (lc_metrics pool))) n)) pool"

definition noteScaleUp :: "int \<Rightarrow> int \<Rightarrow> 'v lifecycle \<Rightarrow> 'v lifecycle" where
  "noteScaleUp now delta pool =
     (let p = pool\<lparr>lc_metrics := NoteLastScale now (lc_metrics pool)\<rparr>
      in publishTelemetry (ScaledUp delta (workerCount (lc_metrics p))) p)"

definition noteScaleDown :: "int \<Rightarrow> int \<Rightarrow> Scaler \<times> 'v lifecycle \<Rightarrow> Scaler \<times> 'v lifecycle" where
  "noteScaleDown now delta = (\<lambda>(sc, pool).
     let p = pool\<lparr>lc_metrics := NoteLastScale now (lc_metrics pool)\<rparr>
     in (sc\<lparr>lastScaleDownNano := now\<rparr>, publishTelemetry (ScaledDown delta (workerCount (lc_metrics p))) p))"

definition evaluate :: "clk \<Rightarrow> Scaler \<times> 'v lifecycle \<Rightarrow> (Scaler \<times> 'v lifecycle) option" where
  "evaluate c = (\<lambda>(sc0, pool).
     let (sc, read) = (case sc_reading sc0 of
                         Some r \<Rightarrow> (sc0, r)
                       | None \<Rightarrow> (let r = CollectReading (lc_metrics pool) in (sc0\<lparr>sc_reading := Some r\<rparr>, r)));
         up = (if 0 < toAdd sc read
               then map_option (noteScaleUp (up_now c) (toAdd sc read)) (scaleUp (toAdd sc read) sc pool)
               else Some pool)
     in case up of
          None \<Rightarrow> None
        | Some p1 \<Rightarrow>
            if since (check_now c) (lastScaleDownNano sc) < cooldown sc then Some (sc, p1)
            else if 0 < toRemove sc read
                 then map_option (\<lambda>p2. noteScaleDown (down_now c) (toRemove sc read) (sc, p2))
                        (scaleDownWorkers (toRemove sc read) p1)
                 else Some (sc, p1))"

definition SC_Observe :: "clk \<Rightarrow> MetricReading \<Rightarrow> Scaler \<times> 'v lifecycle \<Rightarrow> (Scaler \<times> 'v lifecycle) option" where
  "SC_Observe c reading = (\<lambda>(sc, pool). evaluate c (sc\<lparr>sc_reading := Some reading\<rparr>, pool))"

definition SC_Limit :: "Scaler \<Rightarrow> bool" where
  "SC_Limit sc = False"

definition SC_Renormalize :: "int \<Rightarrow> clk \<Rightarrow> Scaler \<times> 'v lifecycle \<Rightarrow> (Scaler \<times> 'v lifecycle) option" where
  "SC_Renormalize now c st =
     (if cooldown (fst st) \<le> since now (lastScaleDownNano (fst st)) then evaluate c st else Some st)"

text \<open>\<^verbatim>\<open>NewScaler\<close> without the goroutine it starts, and one turn of that goroutine's loop.\<close>

definition NewScaler :: "int \<Rightarrow> int \<Rightarrow> int \<Rightarrow> ScalerConfig \<Rightarrow> Scaler" where
  "NewScaler now mn mx config =
     \<lparr>sc_minWorkers = mn, sc_maxWorkers = mx, targetLoad = TargetLoad config, scaleUpThreshold = ScaleUpThreshold config,
      scaleDownThreshold = ScaleDownThreshold config, cooldown = Cooldown config, evalInterval = Interval config,
      lastScaleDownNano = now, sc_reading = None\<rparr>"

definition tick_period :: "Scaler \<Rightarrow> int" where
  "tick_period sc = max second (evalInterval sc)"

definition scaler_tick ::
  "env \<Rightarrow> clk \<Rightarrow> any_regulator list \<times> Scaler \<times> 'v lifecycle \<Rightarrow> (any_regulator list \<times> Scaler \<times> 'v lifecycle) option" where
  "scaler_tick e c = (\<lambda>(regs, sc, pool).
     map_option (\<lambda>st. (renormalize_all any_ops e regs, st))
       (SC_Observe c (CollectReading (lc_metrics pool)) (sc, pool)))"

section \<open>The bounds on workers\<close>

lemma start_loop_refines:
  assumes "lc_inv pool ts" "int n + int (length ts) \<le> maxWorkers pool"
  shows "\<exists>pool' ts'. start_loop n pool = Some pool' \<and> lc_inv pool' (ts' @ ts) \<and> length ts' = n \<and> maxWorkers pool' = maxWorkers pool \<and>
    minWorkers pool' = minWorkers pool \<and> (0 < n \<or> told_active pool \<longrightarrow> told_active pool')"
  using assms
proof (induction n arbitrary: pool ts)
  case (Suc n)
  then obtain p t where p: "startWorker pool = Some p" "lc_inv p (t # ts)" "maxWorkers p = maxWorkers pool"
    "minWorkers p = minWorkers pool" "told_active p"
    using startWorker_refines [OF Suc.prems(1)] by auto
  obtain p' ts' where "start_loop n p = Some p'" "lc_inv p' (ts' @ t # ts)" "length ts' = n" "maxWorkers p' = maxWorkers p"
    "minWorkers p' = minWorkers p" "told_active p'"
    using Suc.IH [OF p(2)] Suc.prems(2) p(3,5) by auto
  with p show ?case by (intro exI [of _ p'] exI [of _ "ts' @ [t]"]) simp
qed auto

lemma noteScale_fields [simp]:
  "lc_inv (noteScaleUp now d p) ts = lc_inv p ts"
  "lc_inv (snd (noteScaleDown now d (sc, p))) ts = lc_inv p ts"
  "maxWorkers (noteScaleUp now d p) = maxWorkers p"
  "maxWorkers (snd (noteScaleDown now d (sc, p))) = maxWorkers p"
  "minWorkers (noteScaleUp now d p) = minWorkers p"
  "minWorkers (snd (noteScaleDown now d (sc, p))) = minWorkers p"
  "told_active (noteScaleUp now d p) = told_active p"
  "told_active (snd (noteScaleDown now d (sc, p))) = told_active p"
  "sc_minWorkers (fst (noteScaleDown now d (sc, p))) = sc_minWorkers sc"
  "sc_maxWorkers (fst (noteScaleDown now d (sc, p))) = sc_maxWorkers sc"
  by (simp_all add: noteScaleUp_def noteScaleDown_def lc_inv_def told_active_def NoteLastScale_def Let_def cong: option.case_cong)

lemma toAdd_bounds:
  assumes "WorkerCount r \<le> sc_maxWorkers sc" "0 \<le> WorkerCount r" "sc_maxWorkers sc < 2 ^ 63"
  shows "0 \<le> toAdd sc r" "toAdd sc r \<le> sc_maxWorkers sc - WorkerCount r"
proof -
  have w: "wrap64 (sc_maxWorkers sc - WorkerCount r) = sc_maxWorkers sc - WorkerCount r"
    using assms by (simp add: in64_def)
  show "0 \<le> toAdd sc r" "toAdd sc r \<le> sc_maxWorkers sc - WorkerCount r"
    using assms(1) unfolding toAdd_def Let_def w by auto
qed

lemma toRemove_bounds:
  assumes "WorkerCount r < 2 ^ 63" "0 \<le> sc_minWorkers sc" "0 \<le> WorkerCount r"
  shows "0 \<le> toRemove sc r" "0 < toRemove sc r \<Longrightarrow> toRemove sc r \<le> WorkerCount r - sc_minWorkers sc"
proof -
  have w: "sc_minWorkers sc < WorkerCount r \<Longrightarrow> wrap64 (WorkerCount r - sc_minWorkers sc) = WorkerCount r - sc_minWorkers sc"
    using assms by (simp add: in64_def)
  then show "0 \<le> toRemove sc r" by (auto simp: toRemove_def Let_def)
  show "0 < toRemove sc r \<Longrightarrow> toRemove sc r \<le> WorkerCount r - sc_minWorkers sc"
    using w by (auto simp: toRemove_def Let_def split: if_splits)
qed

lemma scaleUp_refines:
  assumes "lc_inv pool ts" "sc_maxWorkers sc = maxWorkers pool" "0 < n" "n \<le> sc_maxWorkers sc - int (length ts)"
  shows "\<exists>p ts'. scaleUp n sc pool = Some p \<and> lc_inv p (ts' @ ts) \<and> int (length ts') = n \<and>
    maxWorkers p = maxWorkers pool \<and> minWorkers p = minWorkers pool \<and> (told_active pool \<longrightarrow> told_active p)"
proof -
  have "wrap64 (sc_maxWorkers sc - workerCount (lc_metrics pool)) = sc_maxWorkers sc - int (length ts)"
    using assms(1,2) by (auto simp: lc_inv_def in64_def)
  then have "scaleUp n sc pool = start_loop (nat n) pool" using assms(2-) by (simp add: scaleUp_def min_absorb2)
  moreover have "int (nat n) = n" "int (nat n) + int (length ts) \<le> maxWorkers pool" using assms(2-) by simp_all
  ultimately show ?thesis using start_loop_refines [OF assms(1), of "nat n"] by metis
qed

lemma evaluate_refines:
  assumes "lc_inv pool ts" "sc_maxWorkers sc = maxWorkers pool" "sc_minWorkers sc \<le> int (length ts)" "0 \<le> sc_minWorkers sc"
    "sc_reading sc = Some r" "WorkerCount r = int (length ts)"
  shows "\<exists>sc' pool' ts'. evaluate c (sc, pool) = Some (sc', pool') \<and> lc_inv pool' ts' \<and>
     sc_minWorkers sc \<le> int (length ts') \<and> int (length ts') \<le> sc_maxWorkers sc \<and>
     int (length ts') = int (length ts) + toAdd sc r -
       (if since (check_now c) (lastScaleDownNano sc) < cooldown sc then 0 else toRemove sc r) \<and>
     maxWorkers pool' = maxWorkers pool \<and> minWorkers pool' = minWorkers pool \<and> (told_active pool \<longrightarrow> told_active pool') \<and>
     sc_minWorkers sc' = sc_minWorkers sc \<and> sc_maxWorkers sc' = sc_maxWorkers sc"
proof -
  have len: "int (length ts) \<le> sc_maxWorkers sc" "sc_maxWorkers sc < 2 ^ 63"
    using assms(1,2) by (auto simp: lc_inv_def)
  have a: "0 \<le> toAdd sc r" "toAdd sc r \<le> sc_maxWorkers sc - int (length ts)"
    using toAdd_bounds [of r sc] len assms(6) by auto
  have d: "0 \<le> toRemove sc r" "0 < toRemove sc r \<Longrightarrow> toRemove sc r \<le> int (length ts) - sc_minWorkers sc"
    using toRemove_bounds [of r sc] len assms(4,6) by auto
  define up where "up = (if 0 < toAdd sc r then map_option (noteScaleUp (up_now c) (toAdd sc r)) (scaleUp (toAdd sc r) sc pool) else Some pool)"
  obtain p1 ts1 where p1: "up = Some p1" "lc_inv p1 (ts1 @ ts)" "int (length ts1) = toAdd sc r"
    "maxWorkers p1 = maxWorkers pool" "minWorkers p1 = minWorkers pool" "told_active pool \<longrightarrow> told_active p1"
  proof (cases "0 < toAdd sc r")
    case True
    then obtain p' ts' where "scaleUp (toAdd sc r) sc pool = Some p'" "lc_inv p' (ts' @ ts)" "int (length ts') = toAdd sc r"
      "maxWorkers p' = maxWorkers pool" "minWorkers p' = minWorkers pool" "told_active pool \<longrightarrow> told_active p'"
      using scaleUp_refines [OF assms(1,2) True a(2)] by blast
    then show thesis using that [of "noteScaleUp (up_now c) (toAdd sc r) p'" ts'] True by (simp add: up_def)
  next
    case False
    then show thesis using that [of pool "[]"] a assms(1) by (simp add: up_def)
  qed
  have ev: "evaluate c (sc, pool) =
      (if since (check_now c) (lastScaleDownNano sc) < cooldown sc then Some (sc, p1)
       else if 0 < toRemove sc r
            then map_option (\<lambda>p2. noteScaleDown (down_now c) (toRemove sc r) (sc, p2)) (scaleDownWorkers (toRemove sc r) p1)
            else Some (sc, p1))"
    using assms(5) p1(1) by (simp add: evaluate_def up_def)
  show ?thesis
  proof (cases "since (check_now c) (lastScaleDownNano sc) < cooldown sc \<or> toRemove sc r = 0")
    case True
    with ev p1 a d len assms(3) show ?thesis by (intro exI [of _ sc] exI [of _ p1] exI [of _ "ts1 @ ts"]) auto
  next
    case False
    let ?n = "nat (toRemove sc r)"
    obtain p2 where p2: "scaleDownWorkers (toRemove sc r) p1 = Some p2" "lc_inv p2 (drop ?n (ts1 @ ts))"
      "maxWorkers p2 = maxWorkers p1" "minWorkers p2 = minWorkers p1" "told_active p1 \<longrightarrow> told_active p2"
      using scaleDown_loop_refines [OF p1(2), of ?n] by (auto simp: scaleDownWorkers_def)
    have "int (length (drop ?n (ts1 @ ts))) = int (length ts) + toAdd sc r - toRemove sc r"
      using d False p1(3) a assms(4) by auto
    with False ev p1(4-) p2 d a assms(3,4) show ?thesis
      by (intro exI [of _ "fst (noteScaleDown (down_now c) (toRemove sc r) (sc, p2))"]
          exI [of _ "snd (noteScaleDown (down_now c) (toRemove sc r) (sc, p2))"] exI [of _ "drop ?n (ts1 @ ts)"]) auto
  qed
qed

text \<open>C21: an evaluation of a reading that has the pool's current worker count changes the number of
  workers by exactly the computed amounts, and keeps it between the configured
  minimum and maximum, whatever the thresholds, the target load and the queue length are.\<close>

theorem scaler_keeps_bounds:
  assumes "lc_inv pool ts" "sc_maxWorkers sc = maxWorkers pool" "sc_minWorkers sc \<le> int (length ts)" "0 \<le> sc_minWorkers sc"
    "sc_reading sc = Some r" "WorkerCount r = int (length ts)"
  shows "\<exists>sc' pool' ts'. evaluate c (sc, pool) = Some (sc', pool') \<and> lc_inv pool' ts' \<and>
     sc_minWorkers sc \<le> int (length ts') \<and> int (length ts') \<le> sc_maxWorkers sc \<and>
     int (length ts') = int (length ts) + toAdd sc r -
       (if since (check_now c) (lastScaleDownNano sc) < cooldown sc then 0 else toRemove sc r)"
  using evaluate_refines [OF assms, of c] by metis

definition still :: "int \<Rightarrow> clk" where
  "still t = \<lparr>up_now = t, check_now = t, down_now = t\<rparr>"

definition default_scaler :: "int \<Rightarrow> int \<Rightarrow> MetricReading \<Rightarrow> Scaler" where
  "default_scaler mn mx r =
     (NewScaler 0 mn mx \<lparr>TargetLoad = Fin 2, ScaleUpThreshold = Fin 4, ScaleDownThreshold = Fin 1,
                          Cooldown = 10, Interval = second\<rparr>)\<lparr>sc_reading := Some r\<rparr>"

lemma started_pool:
  "0 \<le> mx \<Longrightarrow> mx < 2 ^ 63 \<Longrightarrow> int n \<le> mx \<Longrightarrow>
   \<exists>pool ts. lc_run (replicate n OpStart) (new_lifecycle mn mx (Some small_queue) False) = Some pool \<and> lc_inv pool ts \<and>
     length ts = n \<and> maxWorkers pool = mx"
proof -
  assume mx: "0 \<le> mx" "mx < 2 ^ 63" "int n \<le> mx"
  obtain p :: "nat lifecycle" where p: "new_lifecycle mn mx (Some small_queue) False = Some p" "lc_inv p []" "maxWorkers p = mx"
    using new_lifecycle_inv [OF mx(1,2)] by blast
  have "workers_after mx (replicate k OpStart) j = j + int k" if "j + int k \<le> mx" for j k
    using that by (induction k arbitrary: j) auto
  then have "workers_after mx (replicate n OpStart) 0 = int n" using mx(3) by simp
  with lc_run_refines [OF p(2), of "replicate n OpStart"] p show ?thesis by auto
qed

theorem scaler_keeps_bounds_witness:
  "\<exists>pool sc' pool' ts'. lc_run [OpStart, OpStart] (new_lifecycle 1 4 (Some small_queue) False) = Some pool \<and>
     evaluate (still 5) (default_scaler 1 4 (sample_reading 9 2), pool) = Some (sc', pool') \<and> lc_inv pool' ts' \<and>
     1 \<le> length ts' \<and> length ts' \<le> 4"
proof -
  have two: "replicate 2 OpStart = [OpStart, OpStart]" by (simp add: numeral_2_eq_2)
  obtain pool ts where p: "lc_run [OpStart, OpStart] (new_lifecycle 1 4 (Some small_queue) False) = Some pool"
    "lc_inv pool ts" "length ts = 2" "maxWorkers pool = 4"
    using started_pool [of 4 2 1] unfolding two by auto
  have "\<exists>sc' pool' ts'. evaluate (still 5) (default_scaler 1 4 (sample_reading 9 2), pool) = Some (sc', pool') \<and> lc_inv pool' ts' \<and>
     sc_minWorkers (default_scaler 1 4 (sample_reading 9 2)) \<le> int (length ts') \<and>
     int (length ts') \<le> sc_maxWorkers (default_scaler 1 4 (sample_reading 9 2)) \<and>
     int (length ts') = int (length ts) + toAdd (default_scaler 1 4 (sample_reading 9 2)) (sample_reading 9 2) -
       (if since (check_now (still 5)) (lastScaleDownNano (default_scaler 1 4 (sample_reading 9 2))) <
             cooldown (default_scaler 1 4 (sample_reading 9 2))
        then 0 else toRemove (default_scaler 1 4 (sample_reading 9 2)) (sample_reading 9 2))"
    by (rule scaler_keeps_bounds)
       (use p in \<open>simp_all add: default_scaler_def NewScaler_def sample_reading_def\<close>)
  with p(1) show ?thesis by (auto simp: default_scaler_def NewScaler_def)
qed

section \<open>Evaluating a stale reading\<close>

fun renorm_run :: "int list \<Rightarrow> Scaler \<times> 'v lifecycle \<Rightarrow> (Scaler \<times> 'v lifecycle) option" where
  "renorm_run [] st = Some st"
| "renorm_run (t # ts) st = (case SC_Renormalize t (still t) st of None \<Rightarrow> None | Some st' \<Rightarrow> renorm_run ts st')"

text \<open>An idle pool of four workers, minimum one: each evaluation of its reading removes one worker.\<close>

lemma idle_amounts:
  assumes "sc = (default_scaler 1 4 (sample_reading 0 4))\<lparr>lastScaleDownNano := t\<rparr>"
  shows "toAdd sc (sample_reading 0 4) = 0" "toRemove sc (sample_reading 0 4) = 1"
proof -
  have f: "f_of_int 0 = Fin 0" "f_of_int 4 = Fin 4" using f_of_int_small [of 0] f_of_int_small [of 4] by simp_all
  have rnd0: "rnd 0 = Fin 0" by (simp add: rnd_def Let_def)
  have l: "currentLoad (sample_reading 0 4) = Fin 0" by (simp add: currentLoad_def sample_reading_def f rnd0)
  have n: "needed_workers sc (sample_reading 0 4) = 0"
    by (simp add: needed_workers_def sample_reading_def f assms default_scaler_def NewScaler_def f_max_def rnd0)
  show "toAdd sc (sample_reading 0 4) = 0"
    by (simp add: toAdd_def l assms default_scaler_def NewScaler_def)
  have w: "wrap64 3 = 3" by (simp add: in64_def)
  have fields: "sc_minWorkers sc = 1" "scaleDownThreshold sc = Fin 1" "WorkerCount (sample_reading 0 4) = 4"
    by (simp_all add: assms default_scaler_def NewScaler_def sample_reading_def)
  show "toRemove sc (sample_reading 0 4) = 1"
    using n fields by (simp add: toRemove_def l w quot64_def)
qed

lemma renorm_idle_step:
  assumes "lc_inv pool (x # ts)" "sc = (default_scaler 1 4 (sample_reading 0 4))\<lparr>lastScaleDownNano := t\<rparr>"
    "10 \<le> t' - t" "t' - t < 2 ^ 62"
  shows "\<exists>pool'. SC_Renormalize t' (still t') (sc, pool) = Some (sc\<lparr>lastScaleDownNano := t'\<rparr>, pool') \<and> lc_inv pool' ts"
proof -
  have s: "since t' (lastScaleDownNano sc) = t' - t" "cooldown sc = 10" "sc_reading sc = Some (sample_reading 0 4)"
    using assms by (simp_all add: since_def default_scaler_def NewScaler_def)
  obtain p2 where p2: "scaleDownWorkers 1 pool = Some p2" "lc_inv p2 ts"
    using scaleDown_loop_refines [OF assms(1), of "Suc 0"] by (auto simp: scaleDownWorkers_def)
  have "evaluate (still t') (sc, pool) = Some (noteScaleDown t' 1 (sc, p2))"
    using s assms(3) idle_amounts [OF assms(2)] p2(1) by (simp add: evaluate_def still_def)
  moreover have "fst (noteScaleDown t' 1 (sc, p2)) = sc\<lparr>lastScaleDownNano := t'\<rparr>"
    by (simp add: noteScaleDown_def Let_def)
  ultimately show ?thesis
    using s assms(3) p2(2) by (intro exI [of _ "snd (noteScaleDown t' 1 (sc, p2))"]) (simp add: SC_Renormalize_def prod_eq_iff)
qed

text \<open>\<^verbatim>\<open>Renormalize\<close> evaluates the reading stored by the last \<^verbatim>\<open>Observe\<close>, whose worker count it never
  refreshes: an idle pool of four workers with a minimum of one has none left after four
  calls a cooldown apart.\<close>

theorem renormalize_drains_below_minimum:
  assumes "lc_inv pool ts" "length ts = 4"
  shows "\<exists>sc' pool'. renorm_run [10, 20, 30, 40] (default_scaler 1 4 (sample_reading 0 4), pool) = Some (sc', pool') \<and>
     lc_inv pool' [] \<and> workerCount (lc_metrics pool') < sc_minWorkers sc'"
proof -
  obtain a b c d where ts: "ts = [a, b, c, d]" using assms(2) by (auto simp: length_Suc_conv numeral_eq_Suc)
  let ?sc = "\<lambda>t. (default_scaler 1 4 (sample_reading 0 4))\<lparr>lastScaleDownNano := t\<rparr>"
  have 0: "default_scaler 1 4 (sample_reading 0 4) = ?sc 0" by (simp add: default_scaler_def NewScaler_def)
  obtain p1 where 1: "SC_Renormalize 10 (still 10) (?sc 0, pool) = Some (?sc 10, p1)" "lc_inv p1 [b, c, d]"
    using renorm_idle_step [of pool a "[b, c, d]" "?sc 0" 0 10] assms(1) ts by auto
  obtain p2 where 2: "SC_Renormalize 20 (still 20) (?sc 10, p1) = Some (?sc 20, p2)" "lc_inv p2 [c, d]"
    using renorm_idle_step [of p1 b "[c, d]" "?sc 10" 10 20] 1 by auto
  obtain p3 where 3: "SC_Renormalize 30 (still 30) (?sc 20, p2) = Some (?sc 30, p3)" "lc_inv p3 [d]"
    using renorm_idle_step [of p2 c "[d]" "?sc 20" 20 30] 2 by auto
  obtain p4 where 4: "SC_Renormalize 40 (still 40) (?sc 30, p3) = Some (?sc 40, p4)" "lc_inv p4 []"
    using renorm_idle_step [of p3 d "[]" "?sc 30" 30 40] 3 by auto
  have "renorm_run [10, 20, 30, 40] (?sc 0, pool) = Some (?sc 40, p4)" using 1(1) 2(1) 3(1) 4(1) by simp
  moreover have "sc_minWorkers (?sc 40) = 1" by (simp add: default_scaler_def NewScaler_def)
  ultimately show ?thesis using 4(2) 0 by (auto simp: lc_inv_def)
qed

theorem renormalize_drains_below_minimum_witness:
  "\<exists>pool sc' pool'. lc_run (replicate 4 OpStart) (new_lifecycle 1 4 (Some small_queue) False) = Some pool \<and>
     renorm_run [10, 20, 30, 40] (default_scaler 1 4 (sample_reading 0 4), pool) = Some (sc', pool') \<and>
     workerCount (lc_metrics pool') < sc_minWorkers sc'"
proof -
  obtain pool ts where p: "lc_run (replicate 4 OpStart) (new_lifecycle 1 4 (Some small_queue) False) = Some pool"
    "lc_inv pool ts" "length ts = 4"
    using started_pool [of 4 4 1] by auto
  from renormalize_drains_below_minimum [OF p(2,3)] p(1) show ?thesis by blast
qed

section \<open>The capacity of the job queue\<close>

text \<open>The queue has room for every worker: with a finite scale-up threshold and no overflow the
  derived capacity is at least the maximal number of workers, and without a scaler it is
  that number (at least one).\<close>

theorem queue_capacity_covers_workers:
  assumes "0 \<le> mw" "mw \<le> 2 ^ 52" "ScaleUpThreshold cfg = Fin t" "of_int mw * max 1 t \<le> 2 ^ 52"
  shows "mw \<le> jobQueueCapacity (Some cfg) mw \<and> jobQueueCapacity None mw = max 1 mw"
proof -
  have f: "f_of_int mw = Fin (of_int mw)" using assms(1,2) by (intro f_of_int_small) simp
  have m: "math_Max (Fin 1) (Fin x) = Fin (max 1 x)" for x by (simp add: math_Max_def f_max_def max_def)
  define x where "x = of_int mw * max 1 t"
  have x: "of_int mw \<le> x" "0 \<le> x" "x \<le> 2 ^ 52"
    using assms mult_left_mono [of 1 "max 1 t" "of_int mw"] by (simp_all add: x_def)
  have "\<bar>x\<bar> \<le> 2 ^ 1000" using x power_increasing [of 52 1000 "2::rat"] by simp
  then have r: "rnd x = Fin (round53 x)" by (rule rnd_Fin)
  have e: "round53 (of_int mw) = of_int mw" "round53 (of_int (2 ^ 52)) = of_int (2 ^ 52)"
    using assms(1,2) by (intro round53_int; simp)+
  have lo: "of_int mw \<le> round53 x" using round53_mono [OF x(1)] e(1) by simp
  have hi: "round53 x \<le> of_int (2 ^ 52)" using round53_mono [of x "of_int (2 ^ 52)"] x(3) e(2) by simp
  have c: "mw \<le> \<lceil>round53 x\<rceil>" "\<lceil>round53 x\<rceil> \<le> 2 ^ 52" using lo hi by (simp_all add: le_ceiling_iff ceiling_le_iff)
  have "0 \<le> \<lceil>round53 x\<rceil>" using c(1) assms(1) by linarith
  moreover have "\<lceil>round53 x\<rceil> < 2 ^ 63" using c(2) by (rule order_le_less_trans) simp
  ultimately have "in64 \<lceil>round53 x\<rceil>" by (rule in64_small)
  then have "jobQueueCapacity (Some cfg) mw = \<lceil>round53 x\<rceil>"
    by (simp add: jobQueueCapacity_def assms(3) f m r x_def [symmetric])
  moreover have "jobQueueCapacity None mw = max 1 mw"
    using assms(1,2) by (simp add: jobQueueCapacity_def f m max_def in64_def)
  ultimately show ?thesis using c by simp
qed

theorem queue_capacity_covers_workers_witness:
  "8 \<le> jobQueueCapacity (ScalerConfig_of (NewConfig 1024)) 8"
  using queue_capacity_covers_workers [of 8 "the (ScalerConfig_of (NewConfig 1024))" 4]
  by (simp add: NewConfig_def)

end
