(* ===== verification/Artifact_Frame.thy ===== *)
theory Artifact_Frame
  imports Job
begin

text \<open>
  \<^verbatim>\<open>artifact_frame.go\<close>: the envelopes that carry results, errors and bus messages. Artifacts belong to the
  library \<^verbatim>\<open>datura\<close>: the functions of it that the package calls are the record \<open>datura\<close>, an
  argument of every definition, and what the package relies on is the predicate \<open>datura_laws\<close>.
  JSON coding of values other than strings and byte slices is an argument as well. A Go string is
  a sequence of bytes, so strings and byte slices are both character lists.
\<close>

type_synonym bytes = string

text \<open>A value of type \<^verbatim>\<open>any\<close>: nil, a byte slice, a string, or something that goes through JSON.\<close>

datatype 'v any_value = VNil | VBytes bytes | VString string | VOther 'v

record ('art, 'err) datura =
  d_Acquire :: "'art option"
  d_SetScope :: "string \<Rightarrow> 'art \<Rightarrow> go_error option \<times> 'art"
  d_WithPayload :: "bytes \<Rightarrow> 'art \<Rightarrow> 'art"
  d_DecryptPayload :: "'art \<Rightarrow> bytes"
  d_Poke :: "string \<Rightarrow> string \<Rightarrow> 'art \<Rightarrow> 'art"
  d_Peek :: "string \<Rightarrow> 'art \<Rightarrow> string"
  d_HasError :: "'art \<Rightarrow> bool"
  d_Error :: "'art \<Rightarrow> go_error + 'err"
  d_Message :: "'err \<Rightarrow> go_error + string"
  d_NewError :: "'art \<Rightarrow> go_error + 'err"
  d_SetMessage :: "string \<Rightarrow> 'err \<Rightarrow> go_error option \<times> 'err"
  d_SetError :: "'err \<Rightarrow> 'art \<Rightarrow> 'art"
  d_Clone :: "'art \<Rightarrow> go_error + 'art"
  d_SetOrigin :: "string \<Rightarrow> 'art \<Rightarrow> go_error option \<times> 'art"
  d_SetDestination :: "string \<Rightarrow> 'art \<Rightarrow> go_error option \<times> 'art"
  d_SetRole :: "string \<Rightarrow> 'art \<Rightarrow> go_error option \<times> 'art"
  d_Role :: "'art \<Rightarrow> go_error + string"
  d_Destination :: "'art \<Rightarrow> go_error + string"
  d_Timestamp :: "'art \<Rightarrow> int"

record 'v codec =
  json_Marshal :: "'v \<Rightarrow> go_error + bytes"
  json_Unmarshal :: "bytes \<Rightarrow> go_error + 'v"
  sonic_Unmarshal :: "bytes \<Rightarrow> go_error + 'v any_value"

section \<open>Decimal numbers (\<^verbatim>\<open>strconv\<close>)\<close>

definition digit :: "nat \<Rightarrow> char" where
  "digit d = char_of (48 + d)"

fun format_nat :: "nat \<Rightarrow> string" where
  "format_nat n = (if n < 10 then [digit n] else format_nat (n div 10) @ [digit (n mod 10)])"

declare format_nat.simps [simp del]

definition FormatInt :: "int \<Rightarrow> string" where
  "FormatInt n = (if n < 0 then CHR ''-'' # format_nat (nat (- n)) else format_nat (nat n))"

definition digit_value :: "char \<Rightarrow> nat option" where
  "digit_value c = (let k = of_char c :: nat in if 48 \<le> k \<and> k \<le> 57 then Some (k - 48) else None)"

fun parse_digits :: "string \<Rightarrow> nat \<Rightarrow> nat option" where
  "parse_digits [] acc = Some acc"
| "parse_digits (c # cs) acc = (case digit_value c of None \<Rightarrow> None | Some d \<Rightarrow> parse_digits cs (acc * 10 + d))"

text \<open>\<^verbatim>\<open>ParseInt(s, 10, 64)\<close>: \<open>None\<close> for a syntax or range error.\<close>

definition ParseInt :: "string \<Rightarrow> int option" where
  "ParseInt s =
     (let (neg, ds) = (case s of
                         [] \<Rightarrow> (False, [])
                       | c # cs \<Rightarrow> if c = CHR ''+'' then (False, cs) else if c = CHR ''-'' then (True, cs) else (False, s))
      in if ds = [] then None
         else case parse_digits ds 0 of
                None \<Rightarrow> None
              | Some n \<Rightarrow> (let v = (if neg then - int n else int n) in if in64 v then Some v else None))"

lemma digit_value_digit [simp]: "d < 10 \<Longrightarrow> digit_value (digit d) = Some d"
  by (simp add: digit_value_def digit_def Let_def)

lemma parse_digits_append:
  "parse_digits (xs @ ys) acc = (case parse_digits xs acc of None \<Rightarrow> None | Some a \<Rightarrow> parse_digits ys a)"
  by (induction xs arbitrary: acc) (auto split: option.split)

lemma parse_format_nat: "parse_digits (format_nat n) 0 = Some n"
proof (induction n rule: less_induct)
  case (less n)
  show ?case
  proof (cases "n < 10")
    case False
    then have "n div 10 < n" by simp
    from less [OF this] False show ?thesis
      by (subst format_nat.simps) (simp add: parse_digits_append)
  qed (simp add: format_nat.simps)
qed

lemma format_nat_first: "\<exists>d cs. d < 10 \<and> format_nat n = digit d # cs"
proof (induction n rule: less_induct)
  case (less n)
  show ?case
  proof (cases "n < 10")
    case True
    then show ?thesis by (subst format_nat.simps) auto
  next
    case False
    then have "n div 10 < n" by simp
    from less [OF this] False show ?thesis by (subst format_nat.simps) auto
  qed
qed

lemma digit_not_sign: "d < 10 \<Longrightarrow> digit d \<noteq> CHR ''-'' \<and> digit d \<noteq> CHR ''+''"
proof -
  assume "d < 10"
  then have "of_char (digit d) = 48 + d" by (simp add: digit_def)
  moreover have "of_char (CHR ''-'') = (45::nat)" "of_char (CHR ''+'') = (43::nat)" by simp_all
  ultimately show ?thesis by force
qed

lemma ParseInt_FormatInt: "in64 n \<Longrightarrow> ParseInt (FormatInt n) = Some n"
proof -
  assume n: "in64 n"
  obtain d cs where d: "d < 10" "format_nat (nat (if n < 0 then - n else n)) = digit d # cs"
    using format_nat_first by blast
  have p: "parse_digits (digit d # cs) 0 = Some (nat (if n < 0 then - n else n))"
    using parse_format_nat d(2) by metis
  show ?thesis
  proof (cases "n < 0")
    case True
    then have "FormatInt n = CHR ''-'' # digit d # cs" using d(2) by (simp add: FormatInt_def)
    then show ?thesis using p True n unfolding ParseInt_def by (simp del: parse_digits.simps)
  next
    case False
    then have "FormatInt n = digit d # cs" using d(2) by (simp add: FormatInt_def)
    then show ?thesis using p False n digit_not_sign [OF d(1)] unfolding ParseInt_def by (simp del: parse_digits.simps)
  qed
qed

section \<open>The operations of the file\<close>

definition artifactAttrTTLNs :: string where "artifactAttrTTLNs = ''ttl_ns''"
definition artifactAttrSenderID :: string where "artifactAttrSenderID = ''sender_id''"
definition artifactAttrReceiverID :: string where "artifactAttrReceiverID = ''receiver_id''"
definition artifactAttrMessageType :: string where "artifactAttrMessageType = ''message_type''"

definition ArtifactError :: "('art, 'err) datura \<Rightarrow> 'art option \<Rightarrow> go_error option" where
  "ArtifactError D artifact =
     (case artifact of
        None \<Rightarrow> None
      | Some a \<Rightarrow>
          if \<not> d_HasError D a then None
          else case d_Error D a of
                 Inl e \<Rightarrow> Some e
               | Inr err \<Rightarrow>
                   (case d_Message D err of
                      Inl e \<Rightarrow> Some e
                    | Inr message \<Rightarrow> if message = [] then Some (AppError ''qpool: artifact error'') else Some (AppError message)))"

text \<open>\<^verbatim>\<open>ArtifactValue[T]\<close> for the three kinds of result type.\<close>

datatype value_kind = KString | KBytes | KOther

definition ArtifactValue ::
  "('art, 'err) datura \<Rightarrow> 'v codec \<Rightarrow> 'v \<Rightarrow> value_kind \<Rightarrow> 'art \<Rightarrow> 'v any_value \<times> go_error option" where
  "ArtifactValue D J zero kind artifact =
     (let zeroV = (case kind of KString \<Rightarrow> VString [] | KBytes \<Rightarrow> VNil | KOther \<Rightarrow> VOther zero)
      in case ArtifactError D (Some artifact) of
           Some e \<Rightarrow> (zeroV, Some e)
         | None \<Rightarrow>
             (let payload = d_DecryptPayload D artifact
              in case kind of
                   KString \<Rightarrow> (VString payload, None)
                 | KBytes \<Rightarrow> (VBytes payload, None)
                 | KOther \<Rightarrow>
                     if length payload = 0 then (zeroV, None)
                     else case json_Unmarshal J payload of
                            Inl e \<Rightarrow> (zeroV, Some (Wrapped ''qpool: decode artifact payload'' e))
                          | Inr v \<Rightarrow> (VOther v, None)))"

definition artifactTTL :: "('art, 'err) datura \<Rightarrow> 'art option \<Rightarrow> int" where
  "artifactTTL D artifact =
     (case artifact of
        None \<Rightarrow> 0
      | Some a \<Rightarrow>
          (let raw = d_Peek D artifactAttrTTLNs a
           in if raw = [] then 0 else case ParseInt raw of None \<Rightarrow> 0 | Some ns \<Rightarrow> ns))"

definition encodePayload :: "'v codec \<Rightarrow> 'v any_value \<Rightarrow> go_error + bytes" where
  "encodePayload J val =
     (case val of
        VNil \<Rightarrow> Inr []
      | VBytes b \<Rightarrow> Inr b
      | VString s \<Rightarrow> Inr s
      | VOther v \<Rightarrow> (case json_Marshal J v of
                       Inl e \<Rightarrow> Inl (Wrapped ''qpool: encode artifact payload'' e)
                     | Inr p \<Rightarrow> Inr p))"

definition newResultArtifact ::
  "('art, 'err) datura \<Rightarrow> 'v codec \<Rightarrow> string \<Rightarrow> 'v any_value \<Rightarrow> int \<Rightarrow> go_error + 'art" where
  "newResultArtifact D J jobID val ttl =
     (case d_Acquire D of
        None \<Rightarrow> Inl (AppError ''qpool: artifact acquire failed'')
      | Some a \<Rightarrow>
          (case encodePayload J val of
             Inl e \<Rightarrow> Inl e
           | Inr payload \<Rightarrow>
               (case d_SetScope D jobID a of
                  (Some e, _) \<Rightarrow> Inl e
                | (None, a1) \<Rightarrow>
                    (let a2 = (if 0 < length payload then d_WithPayload D payload a1 else a1)
                     in Inr (d_Poke D artifactAttrTTLNs (FormatInt ttl) a2)))))"

text \<open>The text of an error, as \<^verbatim>\<open>Error()\<close> gives it.\<close>

fun error_text :: "go_error \<Rightarrow> string" where
  "error_text Canceled = ''context canceled''"
| "error_text DeadlineExceeded = ''context deadline exceeded''"
| "error_text (AppError s) = s"
| "error_text (PanicError j p) = ''qpool: panic in job '' @ j @ '': '' @ p"
| "error_text (Wrapped s e) = s @ '': '' @ error_text e"

definition newErrorArtifact ::
  "('art, 'err) datura \<Rightarrow> 'v codec \<Rightarrow> string \<Rightarrow> go_error option \<Rightarrow> int \<Rightarrow> go_error + 'art" where
  "newErrorArtifact D J jobID terminalErr ttl =
     (case newResultArtifact D J jobID VNil ttl of
        Inl e \<Rightarrow> Inl e
      | Inr a \<Rightarrow>
          (case d_NewError D a of
             Inl e \<Rightarrow> Inl e
           | Inr err \<Rightarrow>
               (let te = (case terminalErr of None \<Rightarrow> AppError ''qpool: job failed'' | Some e \<Rightarrow> e)
                in case d_SetMessage D (error_text te) err of
                     (Some e, _) \<Rightarrow> Inl e
                   | (None, err') \<Rightarrow> Inr (d_SetError D err' a))))"

definition cloneArtifact :: "('art, 'err) datura \<Rightarrow> 'art option \<Rightarrow> 'art option" where
  "cloneArtifact D source =
     (case source of
        None \<Rightarrow> None
      | Some a \<Rightarrow> (case d_Clone D a of Inl _ \<Rightarrow> None | Inr a' \<Rightarrow> Some a'))"

definition NewBusArtifact ::
  "('art, 'err) datura \<Rightarrow> 'v codec \<Rightarrow> string \<Rightarrow> string \<Rightarrow> string \<Rightarrow> 'v any_value \<Rightarrow> int \<Rightarrow> go_error + 'art" where
  "NewBusArtifact D J senderID receiverID messageType val ttl =
     (case newResultArtifact D J messageType val ttl of
        Inl e \<Rightarrow> Inl e
      | Inr a \<Rightarrow>
          (case d_SetOrigin D senderID a of
             (Some e, _) \<Rightarrow> Inl e
           | (None, a1) \<Rightarrow>
               (case d_SetDestination D receiverID a1 of
                  (Some e, _) \<Rightarrow> Inl e
                | (None, a2) \<Rightarrow>
                    (case d_SetRole D messageType a2 of
                       (Some e, _) \<Rightarrow> Inl e
                     | (None, a3) \<Rightarrow>
                         Inr (d_Poke D artifactAttrMessageType messageType
                               (d_Poke D artifactAttrReceiverID receiverID
                                 (d_Poke D artifactAttrSenderID senderID a3)))))))"

definition BusMessageType :: "('art, 'err) datura \<Rightarrow> 'art option \<Rightarrow> string" where
  "BusMessageType D artifact =
     (case artifact of
        None \<Rightarrow> []
      | Some a \<Rightarrow>
          (case d_Role D a of
             Inr role \<Rightarrow> if role \<noteq> [] then role else d_Peek D artifactAttrMessageType a
           | Inl _ \<Rightarrow> d_Peek D artifactAttrMessageType a))"

definition BusMessageValue :: "('art, 'err) datura \<Rightarrow> 'v codec \<Rightarrow> 'art option \<Rightarrow> go_error + 'v any_value" where
  "BusMessageValue D J artifact =
     (case artifact of
        None \<Rightarrow> Inl (AppError ''qpool: nil bus artifact'')
      | Some a \<Rightarrow>
          (let payload = d_DecryptPayload D a
           in if length payload = 0 then Inr VNil
              else case sonic_Unmarshal J payload of
                     Inl _ \<Rightarrow> Inr (VString payload)
                   | Inr v \<Rightarrow> Inr v))"

section \<open>What is relied on\<close>

text \<open>An artifact is an envelope with named attributes, a payload and an optional error: what has been
  set is read back, and setting one part leaves the others.\<close>

definition keeps :: "('art, 'err) datura \<Rightarrow> 'art \<Rightarrow> 'art \<Rightarrow> bool" where
  "keeps D a a' \<longleftrightarrow> (\<forall>k. d_Peek D k a' = d_Peek D k a) \<and> d_DecryptPayload D a' = d_DecryptPayload D a \<and>
     d_HasError D a' = d_HasError D a \<and> d_Error D a' = d_Error D a"

definition datura_laws :: "('art, 'err) datura \<Rightarrow> bool" where
  "datura_laws D \<longleftrightarrow>
     (\<forall>a. d_Acquire D = Some a \<longrightarrow> \<not> d_HasError D a \<and> d_DecryptPayload D a = []) \<and>
     (\<forall>k v a. d_Peek D k (d_Poke D k v a) = v) \<and>
     (\<forall>k k' v a. k \<noteq> k' \<longrightarrow> d_Peek D k (d_Poke D k' v a) = d_Peek D k a) \<and>
     (\<forall>k v a. d_DecryptPayload D (d_Poke D k v a) = d_DecryptPayload D a \<and>
        d_HasError D (d_Poke D k v a) = d_HasError D a \<and> d_Role D (d_Poke D k v a) = d_Role D a \<and>
        d_Destination D (d_Poke D k v a) = d_Destination D a) \<and>
     (\<forall>p a. d_DecryptPayload D (d_WithPayload D p a) = p \<and> d_HasError D (d_WithPayload D p a) = d_HasError D a) \<and>
     (\<forall>x a a'. d_SetScope D x a = (None, a') \<or> d_SetOrigin D x a = (None, a') \<or>
        d_SetDestination D x a = (None, a') \<or> d_SetRole D x a = (None, a') \<longrightarrow> keeps D a a') \<and>
     (\<forall>x a a'. d_SetDestination D x a = (None, a') \<longrightarrow> d_Destination D a' = Inr x) \<and>
     (\<forall>x a a'. d_SetRole D x a = (None, a') \<longrightarrow> d_Role D a' = Inr x \<and> d_Destination D a' = d_Destination D a) \<and>
     (\<forall>e a. d_HasError D (d_SetError D e a) \<and> d_Error D (d_SetError D e a) = Inr e \<and>
        (\<forall>k. d_Peek D k (d_SetError D e a) = d_Peek D k a)) \<and>
     (\<forall>m e e'. d_SetMessage D m e = (None, e') \<longrightarrow> d_Message D e' = Inr m)"

definition codec_laws :: "'v codec \<Rightarrow> bool" where
  "codec_laws J \<longleftrightarrow> (\<forall>v p. json_Marshal J v = Inr p \<longrightarrow> p \<noteq> [] \<and> json_Unmarshal J p = Inr v)"

text \<open>The laws one at a time.\<close>

lemma law_fresh: "datura_laws D \<Longrightarrow> d_Acquire D = Some a \<Longrightarrow> \<not> d_HasError D a \<and> d_DecryptPayload D a = []"
  by (simp add: datura_laws_def)

lemma law_poke:
  "datura_laws D \<Longrightarrow> d_Peek D k (d_Poke D k v a) = v"
  "datura_laws D \<Longrightarrow> d_DecryptPayload D (d_Poke D k v a) = d_DecryptPayload D a"
  "datura_laws D \<Longrightarrow> d_HasError D (d_Poke D k v a) = d_HasError D a"
  "datura_laws D \<Longrightarrow> d_Role D (d_Poke D k v a) = d_Role D a"
  "datura_laws D \<Longrightarrow> d_Destination D (d_Poke D k v a) = d_Destination D a"
  by (simp_all add: datura_laws_def)

lemma law_payload:
  "datura_laws D \<Longrightarrow> d_DecryptPayload D (d_WithPayload D p a) = p"
  "datura_laws D \<Longrightarrow> d_HasError D (d_WithPayload D p a) = d_HasError D a"
  by (simp_all add: datura_laws_def)

lemma law_scope: "datura_laws D \<Longrightarrow> d_SetScope D x a = (None, a') \<Longrightarrow> keeps D a a'"
  by (simp add: datura_laws_def)

lemma law_destination: "datura_laws D \<Longrightarrow> d_SetDestination D x a = (None, a') \<Longrightarrow> d_Destination D a' = Inr x"
  by (simp add: datura_laws_def)

lemma law_role:
  "datura_laws D \<Longrightarrow> d_SetRole D x a = (None, a') \<Longrightarrow> d_Role D a' = Inr x \<and> d_Destination D a' = d_Destination D a"
  by (simp add: datura_laws_def)

lemma law_error:
  "datura_laws D \<Longrightarrow> d_HasError D (d_SetError D e a)"
  "datura_laws D \<Longrightarrow> d_Error D (d_SetError D e a) = Inr e"
  "datura_laws D \<Longrightarrow> d_Peek D k (d_SetError D e a) = d_Peek D k a"
  by (simp_all add: datura_laws_def)

lemma law_message: "datura_laws D \<Longrightarrow> d_SetMessage D m e = (None, e') \<Longrightarrow> d_Message D e' = Inr m"
  by (simp add: datura_laws_def)

lemmas datura_law = law_poke law_payload law_error

lemma newResultArtifact_parts:
  assumes "datura_laws D" "newResultArtifact D J jid v ttl = Inr a"
  shows "\<exists>payload. encodePayload J v = Inr payload \<and> d_DecryptPayload D a = payload \<and> \<not> d_HasError D a \<and>
     d_Peek D artifactAttrTTLNs a = FormatInt ttl"
proof -
  obtain a0 a1 payload where p: "d_Acquire D = Some a0" "encodePayload J v = Inr payload" "d_SetScope D jid a0 = (None, a1)"
    "a = d_Poke D artifactAttrTTLNs (FormatInt ttl) (if 0 < length payload then d_WithPayload D payload a1 else a1)"
    using assms(2) by (auto simp: newResultArtifact_def Let_def split: option.splits sum.splits prod.splits)
  have k: "keeps D a0 a1" "\<not> d_HasError D a0" "d_DecryptPayload D a0 = []"
    using law_scope [OF assms(1) p(3)] law_fresh [OF assms(1) p(1)] by simp_all
  show ?thesis using k p(2) unfolding p(4) by (simp add: datura_law [OF assms(1)] keeps_def)
qed

text \<open>A formatted number is never empty.\<close>

lemma FormatInt_nonempty: "FormatInt n \<noteq> []"
  using format_nat_first [of "nat n"] by (auto simp: FormatInt_def)

lemma artifactTTL_read:
  "d_Peek D artifactAttrTTLNs a = FormatInt ttl \<Longrightarrow> in64 ttl \<Longrightarrow> artifactTTL D (Some a) = ttl"
  by (simp add: artifactTTL_def FormatInt_nonempty ParseInt_FormatInt)

lemma result_artifact_reads:
  assumes "datura_laws D" "codec_laws J" "newResultArtifact D J jid v ttl = Inr a" "in64 ttl"
  shows "artifactTTL D (Some a) = ttl \<and> ArtifactError D (Some a) = None \<and>
    (case v of
       VString s \<Rightarrow> ArtifactValue D J zero KString a = (VString s, None)
     | VBytes b \<Rightarrow> ArtifactValue D J zero KBytes a = (VBytes b, None)
     | VOther x \<Rightarrow> ArtifactValue D J zero KOther a = (VOther x, None)
     | VNil \<Rightarrow> ArtifactValue D J zero KOther a = (VOther zero, None))"
proof -
  obtain payload where p: "encodePayload J v = Inr payload" "d_DecryptPayload D a = payload" "\<not> d_HasError D a"
    "d_Peek D artifactAttrTTLNs a = FormatInt ttl"
    using newResultArtifact_parts [OF assms(1,3)] by blast
  have e: "ArtifactError D (Some a) = None" using p(3) by (simp add: ArtifactError_def)
  show ?thesis
  proof (cases v)
    case (VOther x)
    then have "json_Marshal J x = Inr payload" using p(1) by (auto simp: encodePayload_def split: sum.splits)
    then have "payload \<noteq> []" "json_Unmarshal J payload = Inr x" using assms(2) by (auto simp: codec_laws_def)
    with VOther e p artifactTTL_read [OF p(4) assms(4)] show ?thesis by (simp add: ArtifactValue_def)
  qed (use e p artifactTTL_read [OF p(4) assms(4)] in \<open>auto simp: ArtifactValue_def encodePayload_def\<close>)
qed


lemma error_artifact_reads:
  assumes "datura_laws D" "newErrorArtifact D J jid err ttl = Inr a" "in64 ttl"
    "text = error_text (case err of None \<Rightarrow> AppError ''qpool: job failed'' | Some e \<Rightarrow> e)" "text \<noteq> []"
  shows "ArtifactError D (Some a) = Some (AppError text) \<and> artifactTTL D (Some a) = ttl \<and>
    snd (ArtifactValue D J' zero kind a) = Some (AppError text)"
proof -
  obtain a0 e0 e1 where p: "newResultArtifact D J jid VNil ttl = Inr a0" "d_NewError D a0 = Inr e0"
    "d_SetMessage D text e0 = (None, e1)" "a = d_SetError D e1 a0"
    using assms(2,4) by (auto simp: newErrorArtifact_def Let_def split: sum.splits prod.splits option.splits)
  have l: "d_HasError D a" "d_Error D a = Inr e1" "d_Peek D artifactAttrTTLNs a = d_Peek D artifactAttrTTLNs a0"
    "d_Message D e1 = Inr text"
    using law_message [OF assms(1) p(3)] by (simp_all add: p(4) datura_law [OF assms(1)])
  have "d_Peek D artifactAttrTTLNs a0 = FormatInt ttl" using newResultArtifact_parts [OF assms(1) p(1)] by blast
  with l have "artifactTTL D (Some a) = ttl" by (intro artifactTTL_read) (simp_all add: assms(3))
  moreover have "ArtifactError D (Some a) = Some (AppError text)" using l assms(5) by (simp add: ArtifactError_def)
  ultimately show ?thesis by (simp add: ArtifactValue_def Let_def)
qed

text \<open>An error survives its envelope as its text, a missing error is stored as a generic
  failure, and the time to live is kept; decoding the artifact as a value of any type returns that error.\<close>

theorem error_roundtrip:
  assumes "datura_laws D" "newErrorArtifact D J jid err ttl = Inr a" "in64 ttl"
    "text = error_text (case err of None \<Rightarrow> AppError ''qpool: job failed'' | Some e \<Rightarrow> e)" "text \<noteq> []"
  shows "ArtifactError D (Some a) = Some (AppError text) \<and> artifactTTL D (Some a) = ttl \<and>
    snd (ArtifactValue D J' zero kind a) = Some (AppError text)"
  by (rule error_artifact_reads [OF assms])

lemma bus_roundtrip:
  assumes "datura_laws D" "NewBusArtifact D J from dest ty v ttl = Inr a" "ty \<noteq> []"
  shows "BusMessageType D (Some a) = ty \<and> d_Destination D a = Inr dest"
proof -
  obtain a1 a2 a3 where p: "d_SetDestination D dest a1 = (None, a2)" "d_SetRole D ty a2 = (None, a3)"
    "a = d_Poke D artifactAttrMessageType ty (d_Poke D artifactAttrReceiverID dest (d_Poke D artifactAttrSenderID from a3))"
    using assms(2) by (auto simp: NewBusArtifact_def split: sum.splits prod.splits option.splits)
  have "d_Role D a = d_Role D a3" "d_Destination D a = d_Destination D a3"
    by (simp_all add: p(3) datura_law [OF assms(1)])
  moreover have "d_Role D a3 = Inr ty" "d_Destination D a3 = d_Destination D a2" "d_Destination D a2 = Inr dest"
    using law_role [OF assms(1) p(2)] law_destination [OF assms(1) p(1)] by simp_all
  ultimately show ?thesis using assms(3) by (simp add: BusMessageType_def)
qed

section \<open>An envelope with these laws\<close>

record envelope =
  env_attrs :: "string \<Rightarrow> string"
  env_payload :: bytes
  env_error :: "string option"
  env_scope :: string
  env_origin :: string
  env_dest :: string
  env_role :: string

definition envelopes :: "(envelope, string) datura" where
  "envelopes =
     \<lparr>d_Acquire = Some \<lparr>env_attrs = (\<lambda>_. []), env_payload = [], env_error = None, env_scope = [], env_origin = [], env_dest = [], env_role = []\<rparr>,
      d_SetScope = (\<lambda>x a. (None, a\<lparr>env_scope := x\<rparr>)),
      d_WithPayload = (\<lambda>p a. a\<lparr>env_payload := p\<rparr>),
      d_DecryptPayload = env_payload,
      d_Poke = (\<lambda>k v a. a\<lparr>env_attrs := (env_attrs a)(k := v)\<rparr>),
      d_Peek = (\<lambda>k a. env_attrs a k),
      d_HasError = (\<lambda>a. env_error a \<noteq> None),
      d_Error = (\<lambda>a. case env_error a of None \<Rightarrow> Inl (AppError ''none'') | Some e \<Rightarrow> Inr e),
      d_Message = Inr,
      d_NewError = (\<lambda>a. Inr []),
      d_SetMessage = (\<lambda>m e. (None, m)),
      d_SetError = (\<lambda>e a. a\<lparr>env_error := Some e\<rparr>),
      d_Clone = Inr,
      d_SetOrigin = (\<lambda>x a. (None, a\<lparr>env_origin := x\<rparr>)),
      d_SetDestination = (\<lambda>x a. (None, a\<lparr>env_dest := x\<rparr>)),
      d_SetRole = (\<lambda>x a. (None, a\<lparr>env_role := x\<rparr>)),
      d_Role = (\<lambda>a. Inr (env_role a)),
      d_Destination = (\<lambda>a. Inr (env_dest a)),
      d_Timestamp = (\<lambda>a. 0)\<rparr>"

definition number_codec :: "int codec" where
  "number_codec =
     \<lparr>json_Marshal = (\<lambda>n. if in64 n then Inr (FormatInt n) else Inl (AppError ''range'')),
      json_Unmarshal = (\<lambda>p. case ParseInt p of None \<Rightarrow> Inl (AppError ''syntax'') | Some n \<Rightarrow> Inr n),
      sonic_Unmarshal = (\<lambda>p. case ParseInt p of None \<Rightarrow> Inl (AppError ''syntax'') | Some n \<Rightarrow> Inr (VOther n))\<rparr>"

lemma envelopes_laws: "datura_laws envelopes"
  by (auto simp: datura_laws_def envelopes_def keeps_def)

lemma number_codec_laws: "codec_laws number_codec"
  using ParseInt_FormatInt FormatInt_nonempty
  by (auto simp: codec_laws_def number_codec_def split: if_splits)


theorem error_roundtrip_witness:
  "\<exists>a. newErrorArtifact envelopes number_codec ''job'' None 5 = Inr a \<and>
       ArtifactError envelopes (Some a) = Some (AppError ''qpool: job failed'')"
proof -
  have "\<exists>a. newErrorArtifact envelopes number_codec ''job'' None 5 = Inr a"
    by (simp add: newErrorArtifact_def newResultArtifact_def envelopes_def encodePayload_def Let_def)
  then obtain a where a: "newErrorArtifact envelopes number_codec ''job'' None 5 = Inr a" ..
  from error_roundtrip [OF envelopes_laws a _ refl, of number_codec 0 KOther] a show ?thesis by (simp add: in64_def)
qed

end
