(* ===== verification/Result_Slot.thy ===== *)
theory Result_Slot
  imports Artifact_Frame Intrusive_List
begin

text \<open>
  \<^verbatim>\<open>result_wait.go\<close>: the slot a result is delivered into, and the handle a caller waits on. A slot
  has a state word, the value and a stack of waiter nodes, one per goroutine that goes
  to sleep. This theory has the operations run without interference; \<^verbatim>\<open>Result_Wait\<close> runs
  them in single steps. A call of \<^verbatim>\<open>Wait\<close> that has to sleep is \<open>None\<close> here.
\<close>

datatype slot_state = slotPending | slotReady | slotClosed

record waiterNode =
  waiter_gp :: nat
  waiter_sema :: nat
  waiter_next :: "nat option"

record waiter_heap =
  waiter_at :: "nat \<Rightarrow> waiterNode"
  waiter_free :: nat

record 'a resultSlot =
  state :: slot_state
  slot_value :: "'a option"
  waiters :: "nat option"

definition newResultSlot :: "'a resultSlot" where
  "newResultSlot = \<lparr>state = slotPending, slot_value = None, waiters = None\<rparr>"

definition errResultClosed :: go_error where
  "errResultClosed = AppError ''qpool: result closed''"

definition semrelease :: "nat \<Rightarrow> waiter_heap \<Rightarrow> waiter_heap" where
  "semrelease x m = m\<lparr>waiter_at := (waiter_at m)(x := (waiter_at m x)\<lparr>waiter_sema := waiter_sema (waiter_at m x) + 1\<rparr>)\<rparr>"

partial_function (option) wake_walk :: "nat option \<Rightarrow> waiter_heap \<Rightarrow> waiter_heap option" where
  "wake_walk node m =
     (case node of
        None \<Rightarrow> Some m
      | Some x \<Rightarrow> (let m' = semrelease x m in wake_walk (waiter_next (waiter_at m' x)) m'))"

definition wakeWaiters :: "'a resultSlot \<Rightarrow> waiter_heap \<Rightarrow> ('a resultSlot \<times> waiter_heap) option" where
  "wakeWaiters slot m = map_option (\<lambda>m'. (slot\<lparr>waiters := None\<rparr>, m')) (wake_walk (waiters slot) m)"

definition Deliver :: "'a option \<Rightarrow> 'a resultSlot \<Rightarrow> waiter_heap \<Rightarrow> ('a resultSlot \<times> waiter_heap) option" where
  "Deliver v slot m =
     (let slot1 = slot\<lparr>slot_value := v\<rparr>
      in if state slot1 = slotPending then wakeWaiters (slot1\<lparr>state := slotReady\<rparr>) m else Some (slot1, m))"

definition slot_Close :: "'a resultSlot \<Rightarrow> waiter_heap \<Rightarrow> ('a resultSlot \<times> waiter_heap) option" where
  "slot_Close slot m =
     (case state slot of
        slotClosed \<Rightarrow> Some (slot, m)
      | slotPending \<Rightarrow> wakeWaiters (slot\<lparr>state := slotClosed\<rparr>) m
      | slotReady \<Rightarrow> wakeWaiters (slot\<lparr>state := slotClosed\<rparr>) m)"

text \<open>One round of the loop of \<^verbatim>\<open>Wait\<close> on a slot that nobody changes: \<open>None\<close> when it reaches
  \<^verbatim>\<open>parkForWait\<close>. The second switch on the state then sees what the first one saw.\<close>

definition Wait :: "go_error option \<Rightarrow> 'a resultSlot \<Rightarrow> (go_error + 'a) option" where
  "Wait ctx_err slot =
     (case state slot of
        slotReady \<Rightarrow> (case slot_value slot of
                        Some v \<Rightarrow> Some (Inr v)
                      | None \<Rightarrow> Some (Inl (AppError ''qpool: ready slot missing value'')))
      | slotClosed \<Rightarrow> Some (Inl errResultClosed)
      | slotPending \<Rightarrow> (case ctx_err of Some e \<Rightarrow> Some (Inl e) | None \<Rightarrow> None))"

section \<open>Handles\<close>

text \<open>The slot of a handle is an address; the slots themselves are an argument of \<open>Get\<close>.\<close>

record 'a ResultWait =
  wait_slot :: "nat option"
  immediate :: "'a option"

definition readyResultWait :: "'a option \<Rightarrow> 'a ResultWait" where
  "readyResultWait v = \<lparr>wait_slot = None, immediate = v\<rparr>"

definition pendingResultWait :: "nat option \<Rightarrow> 'a ResultWait" where
  "pendingResultWait slot = \<lparr>wait_slot = slot, immediate = None\<rparr>"

definition typedResultWait :: "'a ResultWait option \<Rightarrow> 'a ResultWait option" where
  "typedResultWait wait =
     (case wait of
        None \<Rightarrow> None
      | Some w \<Rightarrow> if immediate w \<noteq> None then Some \<lparr>wait_slot = None, immediate = immediate w\<rparr>
                  else Some \<lparr>wait_slot = wait_slot w, immediate = None\<rparr>)"

definition errorResultWait :: "('art, 'err) datura \<Rightarrow> 'v codec \<Rightarrow> go_error option \<Rightarrow> 'art ResultWait" where
  "errorResultWait D J err =
     (case newErrorArtifact D J [] err 0 of
        Inl _ \<Rightarrow> readyResultWait None
      | Inr a \<Rightarrow> readyResultWait (Some a))"

definition Get :: "go_error option \<Rightarrow> (nat \<Rightarrow> 'a resultSlot) \<Rightarrow> 'a ResultWait option \<Rightarrow> (go_error + 'a) option" where
  "Get ctx_err slots wait =
     (case wait of
        None \<Rightarrow> Some (Inl errResultClosed)
      | Some w \<Rightarrow>
          (case immediate w of
             Some v \<Rightarrow> Some (Inr v)
           | None \<Rightarrow>
               (case wait_slot w of
                  None \<Rightarrow> Some (Inl errResultClosed)
                | Some s \<Rightarrow> Wait ctx_err (slots s))))"

section \<open>Waking the stack\<close>

lemma waiter_next_semrelease [simp]: "waiter_next (waiter_at (semrelease x m) y) = waiter_next (waiter_at m y)"
  by (simp add: semrelease_def)

lemma waiter_sema_semrelease [simp]:
  "waiter_sema (waiter_at (semrelease x m) y) = waiter_sema (waiter_at m y) + (if y = x then 1 else 0)"
  by (simp add: semrelease_def)

lemma waiter_gp_semrelease [simp]: "waiter_gp (waiter_at (semrelease x m) y) = waiter_gp (waiter_at m y)"
  by (simp add: semrelease_def)

lemma waiter_free_semrelease [simp]: "waiter_free (semrelease x m) = waiter_free m"
  by (simp add: semrelease_def)

text \<open>A well-formed stack of waiters; every node on it gets one permit, and no other.\<close>

definition waiting_nodes :: "'a resultSlot \<Rightarrow> waiter_heap \<Rightarrow> nat list \<Rightarrow> bool" where
  "waiting_nodes slot m xs \<longleftrightarrow> chain (\<lambda>x. waiter_next (waiter_at m x)) (waiters slot) xs \<and> distinct xs"

lemma wake_walk_chain:
  "chain (\<lambda>x. waiter_next (waiter_at m x)) h xs \<Longrightarrow> wake_walk h m = Some (fold semrelease xs m)"
  by (induction xs arbitrary: h m) (auto simp: wake_walk.simps [of h for h] Let_def)

lemma fold_semrelease [simp]:
  "waiter_next (waiter_at (fold semrelease xs m) y) = waiter_next (waiter_at m y)"
  "distinct xs \<Longrightarrow> waiter_sema (waiter_at (fold semrelease xs m) y) = waiter_sema (waiter_at m y) + (if y \<in> set xs then 1 else 0)"
  by (induction xs arbitrary: m) auto

lemma wakeWaiters_all:
  assumes "waiting_nodes slot m xs"
  shows "\<exists>m'. wakeWaiters slot m = Some (slot\<lparr>waiters := None\<rparr>, m') \<and>
    (\<forall>y. waiter_next (waiter_at m' y) = waiter_next (waiter_at m y)) \<and>
    (\<forall>y. waiter_sema (waiter_at m' y) = waiter_sema (waiter_at m y) + (if y \<in> set xs then 1 else 0))"
  using assms wake_walk_chain [of m "waiters slot" xs] by (auto simp: wakeWaiters_def waiting_nodes_def)

lemma Deliver_effect:
  assumes "waiting_nodes slot m xs"
  shows "\<exists>slot' m'. Deliver v slot m = Some (slot', m') \<and> slot_value slot' = v \<and>
    state slot' = (if state slot = slotPending then slotReady else state slot) \<and>
    (\<forall>y. waiter_next (waiter_at m' y) = waiter_next (waiter_at m y)) \<and>
    (\<exists>ys. waiting_nodes slot' m' ys)"
proof (cases "state slot = slotPending")
  case True
  then obtain m' where "Deliver v slot m = Some (slot\<lparr>slot_value := v, state := slotReady, waiters := None\<rparr>, m')"
    "\<forall>y. waiter_next (waiter_at m' y) = waiter_next (waiter_at m y)"
    using wakeWaiters_all [of "slot\<lparr>slot_value := v, state := slotReady\<rparr>" m xs] assms
    by (auto simp: Deliver_def Let_def waiting_nodes_def)
  with True show ?thesis by (auto simp: waiting_nodes_def intro: exI [of _ "[]"])
qed (use assms in \<open>auto simp: Deliver_def waiting_nodes_def\<close>)

lemma slot_Close_effect:
  assumes "waiting_nodes slot m xs"
  shows "\<exists>slot' m'. slot_Close slot m = Some (slot', m') \<and> state slot' = slotClosed \<and>
    (\<forall>y. waiter_next (waiter_at m' y) = waiter_next (waiter_at m y)) \<and> (\<exists>ys. waiting_nodes slot' m' ys)"
proof (cases "state slot = slotClosed")
  case False
  obtain m' where "wakeWaiters (slot\<lparr>state := slotClosed\<rparr>) m = Some (slot\<lparr>state := slotClosed, waiters := None\<rparr>, m')"
    "\<forall>y. waiter_next (waiter_at m' y) = waiter_next (waiter_at m y)"
    using wakeWaiters_all [of "slot\<lparr>state := slotClosed\<rparr>" m xs] assms by (auto simp: waiting_nodes_def)
  with False show ?thesis
    by (cases "state slot") (auto simp: slot_Close_def waiting_nodes_def intro: exI [of _ "[]"])
qed (use assms in \<open>auto simp: slot_Close_def\<close>)

end
