(* ===== verification/Result_Wait.thy ===== *)
theory Result_Wait
  imports Result_Slot
begin

text \<open>
  \<^verbatim>\<open>resultSlot\<close> under any interleaving: any number of goroutines inside \<^verbatim>\<open>Wait\<close>, \<^verbatim>\<open>Deliver\<close> and \<^verbatim>\<open>Close\<close>.
  Every load, store, compare-and-swap and semaphore operation of the source is one step. A waiter
  that is done, by a value, an error or its context, is \<open>Got\<close>. The node a waiter pushes is freshly
  allocated each time it parks; the nodes are garbage collected, so addresses are not reused.
  \<^verbatim>\<open>GetG\<close> is the index of the goroutine. The watcher that \<^verbatim>\<open>context.AfterFunc\<close> starts may release the
  semaphore of any node at any time (\<open>Watcher\<close>), which includes what it does.
\<close>

datatype 'a waiter_pc =
    Away
  | Got "go_error + 'a"
  | WState | WValue | WCtx | WState2 | WValue2
  | PState | PLoad nat | PCas nat "nat option" | PCheck nat | PSleep nat
  | RLoad | RHeadNext nat | RHeadCas nat "nat option" | RWalk nat | RMid nat nat | RMidCas nat nat "nat option"

datatype 'a waker_pc = KIdle | KStore 'a | KReady | KState | KClose slot_state | KSwap | KRelease nat | KNext nat

text \<open>The last five fields only record history: which nodes have been pushed, which of them before
  the first sweep of the stack, the order of the pushes, and what has been delivered.\<close>

record 'a slot_sys =
  slot :: "'a resultSlot"
  nodes :: waiter_heap
  waiter :: "nat \<Rightarrow> 'a waiter_pc"
  waker :: "nat \<Rightarrow> 'a waker_pc"
  published :: "nat set"
  early :: "nat set"
  rank :: "nat \<Rightarrow> nat"
  pushes :: nat
  swept :: bool
  delivered :: "'a list"

definition slot_init :: "'a slot_sys" where
  "slot_init = \<lparr>slot = newResultSlot, nodes = \<lparr>waiter_at = (\<lambda>_. \<lparr>waiter_gp = 0, waiter_sema = 0, waiter_next = None\<rparr>), waiter_free = 0\<rparr>,
     waiter = (\<lambda>_. Away), waker = (\<lambda>_. KIdle), published = {}, early = {}, rank = (\<lambda>_. 0), pushes = 0, swept = False, delivered = []\<rparr>"

abbreviation node_next :: "'a slot_sys \<Rightarrow> nat \<Rightarrow> nat option" where
  "node_next s x \<equiv> waiter_next (waiter_at (nodes s) x)"

abbreviation node_gp :: "'a slot_sys \<Rightarrow> nat \<Rightarrow> nat" where
  "node_gp s x \<equiv> waiter_gp (waiter_at (nodes s) x)"

abbreviation node_sema :: "'a slot_sys \<Rightarrow> nat \<Rightarrow> nat" where
  "node_sema s x \<equiv> waiter_sema (waiter_at (nodes s) x)"

definition goto :: "nat \<Rightarrow> 'a waiter_pc \<Rightarrow> 'a slot_sys \<Rightarrow> 'a slot_sys" where
  "goto g pc s = s\<lparr>waiter := (waiter s)(g := pc)\<rparr>"

definition set_waiter_next :: "nat \<Rightarrow> nat option \<Rightarrow> waiter_heap \<Rightarrow> waiter_heap" where
  "set_waiter_next x n m = m\<lparr>waiter_at := (waiter_at m)(x := (waiter_at m x)\<lparr>waiter_next := n\<rparr>)\<rparr>"

definition new_waiter :: "nat \<Rightarrow> waiter_heap \<Rightarrow> waiter_heap" where
  "new_waiter g m =
     m\<lparr>waiter_at := (waiter_at m)(waiter_free m := \<lparr>waiter_gp = g, waiter_sema = 0, waiter_next = None\<rparr>),
       waiter_free := Suc (waiter_free m)\<rparr>"

text \<open>\<^verbatim>\<open>pushWaiter\<close>: the swap of the head, with its history.\<close>

definition publish_node :: "nat \<Rightarrow> 'a slot_sys \<Rightarrow> 'a slot_sys" where
  "publish_node n s =
     s\<lparr>slot := (slot s)\<lparr>waiters := Some n\<rparr>, published := insert n (published s),
       early := (if swept s then early s else insert n (early s)),
       rank := (rank s)(n := pushes s), pushes := Suc (pushes s)\<rparr>"

definition waiter_move :: "go_error option \<Rightarrow> nat \<Rightarrow> 'a slot_sys \<Rightarrow> 'a slot_sys" where
  "waiter_move ctx_err g s =
     (case waiter s g of
        Away \<Rightarrow> s
      | Got r \<Rightarrow> s
      | WState \<Rightarrow>
          goto g (case state (slot s) of slotReady \<Rightarrow> WValue | slotClosed \<Rightarrow> Got (Inl errResultClosed) | slotPending \<Rightarrow> WCtx) s
      | WValue \<Rightarrow>
          goto g (Got (case slot_value (slot s) of
                         Some v \<Rightarrow> Inr v | None \<Rightarrow> Inl (AppError ''qpool: ready slot missing value''))) s
      | WCtx \<Rightarrow> goto g (case ctx_err of Some e \<Rightarrow> Got (Inl e) | None \<Rightarrow> WState2) s
      | WState2 \<Rightarrow>
          goto g (case state (slot s) of slotReady \<Rightarrow> WValue2 | slotClosed \<Rightarrow> Got (Inl errResultClosed) | slotPending \<Rightarrow> PState) s
      | WValue2 \<Rightarrow> goto g (case slot_value (slot s) of Some v \<Rightarrow> Got (Inr v) | None \<Rightarrow> PState) s
      | PState \<Rightarrow>
          (if state (slot s) \<noteq> slotPending then goto g WState s
           else goto g (PLoad (waiter_free (nodes s))) (s\<lparr>nodes := new_waiter g (nodes s)\<rparr>))
      | PLoad n \<Rightarrow> goto g (PCas n (waiters (slot s))) (s\<lparr>nodes := set_waiter_next n (waiters (slot s)) (nodes s)\<rparr>)
      | PCas n h \<Rightarrow> (if waiters (slot s) = h then goto g (PCheck n) (publish_node n s) else goto g (PLoad n) s)
      | PCheck n \<Rightarrow> goto g (if state (slot s) \<noteq> slotPending then RLoad else PSleep n) s
      | PSleep n \<Rightarrow>
          (if 0 < node_sema s n
           then goto g RLoad (s\<lparr>nodes := (nodes s)\<lparr>waiter_at :=
                  (waiter_at (nodes s))(n := (waiter_at (nodes s) n)\<lparr>waiter_sema := node_sema s n - 1\<rparr>)\<rparr>\<rparr>)
           else s)
      | RLoad \<Rightarrow>
          goto g (case waiters (slot s) of
                    None \<Rightarrow> WState
                  | Some h \<Rightarrow> if node_gp s h = g then RHeadNext h else RWalk h) s
      | RHeadNext h \<Rightarrow> goto g (RHeadCas h (node_next s h)) s
      | RHeadCas h n \<Rightarrow>
          (if waiters (slot s) = Some h then goto g WState (s\<lparr>slot := (slot s)\<lparr>waiters := n\<rparr>\<rparr>) else goto g RLoad s)
      | RWalk p \<Rightarrow>
          goto g (case node_next s p of
                    None \<Rightarrow> WState
                  | Some n \<Rightarrow> if node_gp s n = g then RMid p n else RWalk n) s
      | RMid p n \<Rightarrow> goto g (RMidCas p n (node_next s n)) s
      | RMidCas p n m \<Rightarrow>
          goto g WState (if node_next s p = Some n then s\<lparr>nodes := set_waiter_next p m (nodes s)\<rparr> else s))"

definition kgoto :: "nat \<Rightarrow> 'a waker_pc \<Rightarrow> 'a slot_sys \<Rightarrow> 'a slot_sys" where
  "kgoto i pc s = s\<lparr>waker := (waker s)(i := pc)\<rparr>"

definition waker_move :: "nat \<Rightarrow> 'a slot_sys \<Rightarrow> 'a slot_sys" where
  "waker_move i s =
     (case waker s i of
        KIdle \<Rightarrow> s
      | KStore v \<Rightarrow> kgoto i KReady (s\<lparr>slot := (slot s)\<lparr>slot_value := Some v\<rparr>, delivered := delivered s @ [v]\<rparr>)
      | KReady \<Rightarrow>
          (if state (slot s) = slotPending then kgoto i KSwap (s\<lparr>slot := (slot s)\<lparr>state := slotReady\<rparr>\<rparr>)
           else kgoto i KIdle s)
      | KState \<Rightarrow> kgoto i (if state (slot s) = slotClosed then KIdle else KClose (state (slot s))) s
      | KClose st \<Rightarrow>
          (if state (slot s) = st then kgoto i KSwap (s\<lparr>slot := (slot s)\<lparr>state := slotClosed\<rparr>\<rparr>)
           else kgoto i KState s)
      | KSwap \<Rightarrow>
          kgoto i (case waiters (slot s) of None \<Rightarrow> KIdle | Some x \<Rightarrow> KRelease x)
            (s\<lparr>slot := (slot s)\<lparr>waiters := None\<rparr>, swept := True\<rparr>)
      | KRelease x \<Rightarrow> kgoto i (KNext x) (s\<lparr>nodes := semrelease x (nodes s)\<rparr>)
      | KNext x \<Rightarrow> kgoto i (case node_next s x of None \<Rightarrow> KIdle | Some y \<Rightarrow> KRelease y) s)"

datatype 'a slot_act =
    EnterWait nat
  | Waits nat "go_error option"
  | Watcher nat
  | BeginDeliver nat 'a
  | BeginClose nat
  | Wakes nat

fun outside :: "'a waiter_pc \<Rightarrow> bool" where
  "outside Away = True"
| "outside (Got r) = True"
| "outside _ = False"

fun slot_move :: "'a slot_act \<Rightarrow> 'a slot_sys \<Rightarrow> 'a slot_sys" where
  "slot_move (EnterWait g) s = (if outside (waiter s g) then goto g WState s else s)"
| "slot_move (Waits g ctx_err) s = waiter_move ctx_err g s"
| "slot_move (Watcher n) s = s\<lparr>nodes := semrelease n (nodes s)\<rparr>"
| "slot_move (BeginDeliver i v) s = (case waker s i of KIdle \<Rightarrow> kgoto i (KStore v) s | _ \<Rightarrow> s)"
| "slot_move (BeginClose i) s = (case waker s i of KIdle \<Rightarrow> kgoto i KState s | _ \<Rightarrow> s)"
| "slot_move (Wakes i) s = waker_move i s"

definition slot_run :: "'a slot_act list \<Rightarrow> 'a slot_sys" where
  "slot_run acts = fold slot_move acts slot_init"

section \<open>No sleeper is skipped\<close>

text \<open>A node is needy while its goroutine may sleep on it. Links lead from later pushes to earlier
  ones, and what lies between the two ends of a link needs no wake-up any more; this
  concerns the nodes pushed before the first sweep, since nobody falls asleep after it.\<close>

definition needy :: "'a slot_sys \<Rightarrow> nat \<Rightarrow> bool" where
  "needy s n \<longleftrightarrow> waiter s (node_gp s n) = PCheck n \<or> waiter s (node_gp s n) = PSleep n"

definition linkok :: "'a slot_sys \<Rightarrow> nat \<Rightarrow> nat option \<Rightarrow> bool" where
  "linkok s x m \<longleftrightarrow>
     (\<forall>y\<in>early s. rank s y < rank s x \<longrightarrow> needy s y \<longrightarrow> (\<exists>z. m = Some z \<and> rank s y \<le> rank s z)) \<and>
     (\<forall>z. m = Some z \<longrightarrow> z \<in> early s \<and> rank s z < rank s x)"

fun local_ok :: "'a slot_sys \<Rightarrow> nat \<Rightarrow> 'a waiter_pc \<Rightarrow> bool" where
  "local_ok s g (PLoad n) \<longleftrightarrow> node_gp s n = g \<and> n < waiter_free (nodes s) \<and> n \<notin> published s"
| "local_ok s g (PCas n h) \<longleftrightarrow> node_gp s n = g \<and> n < waiter_free (nodes s) \<and> n \<notin> published s \<and>
     node_next s n = h \<and> set_option h \<subseteq> published s"
| "local_ok s g (PCheck n) \<longleftrightarrow> node_gp s n = g \<and> n \<in> published s"
| "local_ok s g (PSleep n) \<longleftrightarrow> node_gp s n = g \<and> n \<in> early s"
| "local_ok s g (RHeadNext h) \<longleftrightarrow> node_gp s h = g \<and> h \<in> published s"
| "local_ok s g (RHeadCas h m) \<longleftrightarrow> node_gp s h = g \<and> h \<in> published s \<and> set_option m \<subseteq> published s \<and>
     (h \<in> early s \<longrightarrow> linkok s h m)"
| "local_ok s g (RWalk p) \<longleftrightarrow> p \<in> published s"
| "local_ok s g (RMid p n) \<longleftrightarrow> node_gp s n = g \<and> p \<in> published s \<and> n \<in> published s \<and> (p \<in> early s \<longrightarrow> n \<in> early s)"
| "local_ok s g (RMidCas p n m) \<longleftrightarrow> node_gp s n = g \<and> p \<in> published s \<and> n \<in> published s \<and> set_option m \<subseteq> published s \<and>
     (p \<in> early s \<longrightarrow> n \<in> early s) \<and> (n \<in> early s \<longrightarrow> linkok s n m)"
| "local_ok s g _ \<longleftrightarrow> True"

fun walk_ptrs :: "'a waker_pc \<Rightarrow> nat set" where
  "walk_ptrs (KRelease x) = {x}"
| "walk_ptrs (KNext x) = {x}"
| "walk_ptrs _ = {}"

definition stack_inv :: "'a slot_sys \<Rightarrow> bool" where
  "stack_inv s \<longleftrightarrow>
     (\<forall>x\<in>published s. x < waiter_free (nodes s) \<and> set_option (node_next s x) \<subseteq> published s) \<and>
     early s \<subseteq> published s \<and> inj_on (rank s) (early s) \<and>
     (\<forall>x\<in>early s. rank s x < pushes s \<and> linkok s x (node_next s x)) \<and>
     set_option (waiters (slot s)) \<subseteq> published s \<and>
     (\<not> swept s \<longrightarrow> early s = published s \<and>
        (\<forall>y\<in>early s. needy s y \<longrightarrow> (\<exists>z. waiters (slot s) = Some z \<and> rank s y \<le> rank s z)))"

definition slot_inv :: "'a slot_sys \<Rightarrow> bool" where
  "slot_inv s \<longleftrightarrow> stack_inv s \<and> (\<forall>g. local_ok s g (waiter s g)) \<and> (\<forall>i. walk_ptrs (waker s i) \<subseteq> published s)"

text \<open>What a step may change for the goroutines that do not take it.\<close>

definition calmer :: "'a slot_sys \<Rightarrow> 'a slot_sys \<Rightarrow> bool" where
  "calmer s s' \<longleftrightarrow>
     published s \<subseteq> published s' \<and> early s \<subseteq> early s' \<and> waiter_free (nodes s) \<le> waiter_free (nodes s') \<and>
     (\<forall>x\<in>early s. rank s' x = rank s x) \<and> (\<forall>y\<in>early s' - early s. y \<notin> published s \<and> rank s' y = pushes s) \<and>
     (\<forall>x < waiter_free (nodes s). node_gp s' x = node_gp s x) \<and> (\<forall>y\<in>early s. needy s' y \<longrightarrow> needy s y)"

lemma linkok_calmer:
  assumes "stack_inv s" "calmer s s'" "x \<in> early s" "linkok s x m"
  shows "linkok s' x m"
proof -
  have r: "\<And>z. z \<in> early s \<Longrightarrow> rank s' z = rank s z \<and> z \<in> early s' \<and> (needy s' z \<longrightarrow> needy s z)"
    using assms(2) by (auto simp: calmer_def)
  have old: "y \<in> early s" if "y \<in> early s'" "rank s' y < rank s' x" for y
  proof (rule ccontr)
    assume "y \<notin> early s"
    with that(1) assms(2) have "rank s' y = pushes s" by (auto simp: calmer_def)
    moreover have "rank s x < pushes s" using assms(1,3) by (auto simp: stack_inv_def)
    ultimately show False using that(2) r [OF assms(3)] by simp
  qed
  have m: "z \<in> early s \<and> rank s z < rank s x" if "m = Some z" for z using assms(4) that by (simp add: linkok_def)
  show ?thesis unfolding linkok_def
  proof (intro conjI ballI impI allI)
    fix y assume y: "y \<in> early s'" "rank s' y < rank s' x" "needy s' y"
    then have "y \<in> early s" by (intro old)
    then obtain z where "m = Some z" "rank s y \<le> rank s z"
      using y r [OF \<open>y \<in> early s\<close>] r [OF assms(3)] assms(4) by (auto simp: linkok_def)
    then show "\<exists>z. m = Some z \<and> rank s' y \<le> rank s' z" using r [OF \<open>y \<in> early s\<close>] r [of z] m by simp
  next
    fix z assume "m = Some z"
    then show "z \<in> early s'" "rank s' z < rank s' x" using m [of z] r [of z] r [OF assms(3)] by simp_all
  qed
qed

lemma local_ok_calmer:
  assumes "stack_inv s" "calmer s s'" "local_ok s g pc"
    "\<And>n. node_gp s n = g \<Longrightarrow> n < waiter_free (nodes s) \<Longrightarrow> n \<notin> published s \<Longrightarrow>
       n \<notin> published s' \<and> node_next s' n = node_next s n"
  shows "local_ok s' g pc"
proof -
  have below: "\<And>x. x \<in> published s \<Longrightarrow> x < waiter_free (nodes s) \<and> x \<in> published s' \<and> node_gp s' x = node_gp s x"
    using assms(1,2) by (auto simp: stack_inv_def calmer_def)
  have early: "\<And>x. x \<in> published s \<Longrightarrow> x \<in> early s' \<longleftrightarrow> x \<in> early s" "early s \<subseteq> published s" "published s \<subseteq> published s'"
    using assms(1,2) by (auto simp: stack_inv_def calmer_def)
  show ?thesis
    using assms below early linkok_calmer [OF assms(1,2)]
    by (cases pc) (auto simp: calmer_def subset_iff)
qed

lemma slot_inv_moved:
  assumes "slot_inv s" "calmer s s'" "stack_inv s'" "\<And>g'. g' \<noteq> g \<Longrightarrow> waiter s' g' = waiter s g'"
    "\<And>n. node_gp s n \<noteq> g \<Longrightarrow> n < waiter_free (nodes s) \<Longrightarrow> n \<notin> published s \<Longrightarrow>
       n \<notin> published s' \<and> node_next s' n = node_next s n"
    "local_ok s' g (waiter s' g)" "\<And>i. walk_ptrs (waker s' i) \<subseteq> published s'"
  shows "slot_inv s'"
proof -
  have "local_ok s' g' (waiter s' g')" for g'
  proof (cases "g' = g")
    case False
    then have "local_ok s' g' (waiter s g')"
      using assms(1,5) by (intro local_ok_calmer [OF _ assms(2)]) (auto simp: slot_inv_def)
    then show ?thesis using assms(4) False by simp
  qed (use assms(6) in simp)
  then show ?thesis using assms(3,7) by (simp add: slot_inv_def)
qed

text \<open>A step of a waiter that changes nothing but where it is.\<close>

lemma slot_inv_goto:
  assumes "slot_inv s" "local_ok s g pc" "\<And>n. pc = PCheck n \<or> pc = PSleep n \<Longrightarrow> needy s n"
  shows "slot_inv (goto g pc s)"
proof -
  let ?s = "goto g pc s"
  have n: "needy ?s y \<Longrightarrow> needy s y" for y
    using assms(3) by (auto simp: needy_def goto_def split: if_split_asm)
  have c: "calmer s ?s" using n by (auto simp: calmer_def goto_def)
  have l: "linkok s x m \<Longrightarrow> linkok ?s x m" if "x \<in> early s" for x m
    using that assms(1) by (intro linkok_calmer [OF _ c]) (auto simp: slot_inv_def)
  have st: "stack_inv ?s" using assms(1) l n by (auto simp: slot_inv_def stack_inv_def goto_def)
  have "local_ok ?s g pc"
    using assms(1,2) by (intro local_ok_calmer [OF _ c]) (auto simp: slot_inv_def goto_def)
  then show ?thesis
    using assms(1) by (intro slot_inv_moved [OF assms(1) c st, of g]) (auto simp: goto_def slot_inv_def)
qed

text \<open>A step that changes node memory, but neither links nor owners of allocated nodes.\<close>

lemma slot_inv_nodes:
  assumes "slot_inv s" "waiter_free (nodes s) \<le> waiter_free m"
    "\<And>x. x < waiter_free (nodes s) \<Longrightarrow>
       waiter_gp (waiter_at m x) = node_gp s x \<and> waiter_next (waiter_at m x) = node_next s x"
  shows "slot_inv (s\<lparr>nodes := m\<rparr>)"
proof -
  let ?s = "s\<lparr>nodes := m\<rparr>"
  have below: "\<And>x. x \<in> published s \<Longrightarrow> x < waiter_free (nodes s)" "early s \<subseteq> published s"
    using assms(1) by (auto simp: slot_inv_def stack_inv_def)
  have n: "y \<in> early s \<Longrightarrow> needy ?s y = needy s y" for y
    using below assms(3) [of y] by (auto simp: needy_def)
  have c: "calmer s ?s" using n assms(2,3) by (auto simp: calmer_def)
  have l: "linkok s x k \<Longrightarrow> linkok ?s x k" if "x \<in> early s" for x k
    using that assms(1) by (intro linkok_calmer [OF _ c]) (auto simp: slot_inv_def)
  have st: "stack_inv ?s"
    using assms(1,2) below by (auto simp: slot_inv_def stack_inv_def l n assms(3) intro: less_le_trans)
  have lo: "local_ok ?s g (waiter s g)" for g
    using assms(1,3) by (intro local_ok_calmer [OF _ c]) (auto simp: slot_inv_def)
  show ?thesis
    using assms(1,3) lo by (intro slot_inv_moved [OF assms(1) c st]) (auto simp: slot_inv_def)
qed

lemma slot_inv_push:
  assumes "slot_inv s" "waiter s g = PCas n h" "waiters (slot s) = h"
  shows "slot_inv (goto g (PCheck n) (publish_node n s))"
proof -
  define t where "t = goto g (PCheck n) (publish_node n s)"
  have f: "published t = insert n (published s)" "early t = (if swept s then early s else insert n (early s))"
    "rank t = (rank s)(n := pushes s)" "pushes t = Suc (pushes s)" "swept t = swept s" "nodes t = nodes s"
    "waiters (slot t) = Some n" "waiter t = (waiter s)(g := PCheck n)" "waker t = waker s"
    by (simp_all add: t_def goto_def publish_node_def)
  have n: "node_gp s n = g" "n < waiter_free (nodes s)" "n \<notin> published s" "node_next s n = h" "set_option h \<subseteq> published s"
    using assms(1,2) by (auto simp: slot_inv_def dest: spec [of _ g])
  have si: "stack_inv s" using assms(1) by (simp add: slot_inv_def)
  have sub: "early s \<subseteq> published s" "n \<notin> early s" using si n(3) by (auto simp: stack_inv_def)
  have old: "needy s y" if "needy t y" "y \<noteq> n" for y
    using that by (auto simp: needy_def f split: if_split_asm)
  have c: "calmer s t" using sub old n(3) unfolding calmer_def f by auto
  have ranks: "x \<in> early s \<Longrightarrow> rank s x < pushes s" for x using si by (auto simp: stack_inv_def)
  have l: "linkok t x (node_next t x)" if "x \<in> early s" for x
    using that si by (intro linkok_calmer [OF si c]) (auto simp: stack_inv_def f)
  have hd: "\<exists>z. h = Some z \<and> rank s y \<le> rank s z" if "\<not> swept s" "y \<in> early s" "needy s y" for y
    using that si assms(3) by (auto simp: stack_inv_def)
  have ep: "early s = published s" if "\<not> swept s" using that si by (simp add: stack_inv_def)
  have new: "linkok t n h" if sw: "\<not> swept s" unfolding linkok_def
  proof (intro conjI ballI impI allI)
    fix y assume y: "y \<in> early t" "rank t y < rank t n" "needy t y"
    then have yn: "y \<noteq> n" "y \<in> early s" using sw by (auto simp: f)
    then obtain z where "h = Some z" "rank s y \<le> rank s z" using hd [OF sw yn(2) old [OF y(3) yn(1)]] by blast
    moreover from this have "z \<noteq> n" using n(3,5) by auto
    ultimately show "\<exists>z. h = Some z \<and> rank t y \<le> rank t z" using yn by (simp add: f)
  next
    fix z assume "h = Some z"
    then have "z \<in> early s" "z \<noteq> n" using n(3,5) ep [OF sw] by auto
    then show "z \<in> early t" "rank t z < rank t n" using ranks by (simp_all add: f)
  qed
  have "\<forall>x\<in>published t. x < waiter_free (nodes t) \<and> set_option (node_next t x) \<subseteq> published t"
    using si n by (fastforce simp: stack_inv_def f)
  moreover have "inj_on (rank t) (early t)" using si sub(2) ranks by (fastforce simp: f stack_inv_def inj_on_def)
  moreover have "\<forall>x\<in>early t. rank t x < pushes t \<and> linkok t x (node_next t x)"
    using l new ranks n(4) by (simp add: f less_Suc_eq)
  moreover have "\<not> swept t \<longrightarrow> early t = published t \<and> (\<forall>y\<in>early t. rank t y \<le> rank t n)"
    using si ranks sub(2) by (auto simp: stack_inv_def f intro: less_imp_le)
  moreover have "early t \<subseteq> published t" using sub(1) by (auto simp: f)
  ultimately have st: "stack_inv t" unfolding stack_inv_def f(7) by (simp add: f(1))
  have "slot_inv t"
    using assms(1) n by (intro slot_inv_moved [OF assms(1) c st, of g]) (auto simp: f slot_inv_def)
  then show ?thesis by (simp add: t_def)
qed

text \<open>Unlinking: the node that is skipped belongs to the goroutine that unlinks it, which is awake.\<close>

lemma linkok_trans:
  assumes "linkok s p (Some n)" "linkok s n m" "\<not> needy s n" "inj_on (rank s) (early s)"
  shows "linkok s p m"
proof -
  have n: "n \<in> early s" "rank s n < rank s p" using assms(1) by (auto simp: linkok_def)
  show ?thesis unfolding linkok_def
  proof (intro conjI ballI impI allI)
    fix y assume y: "y \<in> early s" "rank s y < rank s p" "needy s y"
    then have "rank s y \<le> rank s n" "y \<noteq> n" using assms(1,3) by (auto simp: linkok_def)
    then have "rank s y < rank s n" using assms(4) y(1) n(1) by (auto simp: inj_on_def order_le_less)
    then show "\<exists>z. m = Some z \<and> rank s y \<le> rank s z" using assms(2) y by (auto simp: linkok_def)
  next
    fix z assume "m = Some z"
    then show "z \<in> early s" "rank s z < rank s p" using assms(2) n(2) by (auto simp: linkok_def)
  qed
qed

lemma removing_not_needy: "waiter s g = pc \<Longrightarrow> (\<And>n. pc \<noteq> PCheck n \<and> pc \<noteq> PSleep n) \<Longrightarrow> node_gp s x = g \<Longrightarrow> \<not> needy s x"
  by (auto simp: needy_def)

lemma slot_inv_unlink_head:
  assumes "slot_inv s" "waiter s g = RHeadCas h m" "waiters (slot s) = Some h"
  shows "slot_inv (s\<lparr>slot := (slot s)\<lparr>waiters := m\<rparr>\<rparr>)"
proof -
  let ?t = "s\<lparr>slot := (slot s)\<lparr>waiters := m\<rparr>\<rparr>"
  have si: "stack_inv s" using assms(1) by (simp add: slot_inv_def)
  have lo: "node_gp s h = g" "h \<in> published s" "set_option m \<subseteq> published s" "h \<in> early s \<Longrightarrow> linkok s h m"
    using assms(1,2) by (auto simp: slot_inv_def dest: spec [of _ g])
  have nn: "\<not> needy s h" using removing_not_needy [OF assms(2)] lo(1) by simp
  have e [simp]: "needy ?t y = needy s y" "linkok ?t x k = linkok s x k" for y x k
    by (simp_all add: needy_def linkok_def)
  have hd: "\<exists>z. m = Some z \<and> rank s y \<le> rank s z" if "\<not> swept s" "y \<in> early s" "needy s y" for y
  proof -
    have "rank s y \<le> rank s h" "h \<in> early s" "y \<noteq> h"
      using that si assms(3) lo(2) nn by (auto simp: stack_inv_def)
    then have "rank s y < rank s h" using si that(2) by (auto simp: stack_inv_def inj_on_def order_le_less)
    then show ?thesis using lo(4) [OF \<open>h \<in> early s\<close>] that by (auto simp: linkok_def)
  qed
  have st: "stack_inv ?t" using si hd lo(3) unfolding stack_inv_def by (simp add: e)
  have c: "calmer s ?t" by (auto simp: calmer_def)
  show ?thesis
    using assms(1) local_ok_calmer [OF si c] by (intro slot_inv_moved [OF assms(1) c st]) (auto simp: slot_inv_def)
qed

lemma slot_inv_unlink_mid:
  assumes "slot_inv s" "waiter s g = RMidCas p n m" "node_next s p = Some n"
  shows "slot_inv (s\<lparr>nodes := set_waiter_next p m (nodes s)\<rparr>)"
proof -
  define t where "t = s\<lparr>nodes := set_waiter_next p m (nodes s)\<rparr>"
  have f: "published t = published s" "early t = early s" "rank t = rank s" "pushes t = pushes s" "swept t = swept s"
    "slot t = slot s" "waiter t = waiter s" "waker t = waker s" "waiter_free (nodes t) = waiter_free (nodes s)"
    "node_gp t x = node_gp s x" "node_next t x = (if x = p then m else node_next s x)" for x
    by (simp_all add: t_def set_waiter_next_def)
  have si: "stack_inv s" using assms(1) by (simp add: slot_inv_def)
  have lo: "node_gp s n = g" "p \<in> published s" "set_option m \<subseteq> published s" "p \<in> early s \<Longrightarrow> n \<in> early s"
    "n \<in> early s \<Longrightarrow> linkok s n m"
    using assms(1,2) by (auto simp: slot_inv_def dest: spec [of _ g])
  have nn: "\<not> needy s n" using removing_not_needy [OF assms(2)] lo(1) by simp
  have e: "needy t y = needy s y" "linkok t x k = linkok s x k" for y x k
    by (simp_all add: needy_def linkok_def f)
  have "linkok s p m" if "p \<in> early s"
    using that si assms(3) lo(4,5) nn by (intro linkok_trans [of s p n m]) (auto simp: stack_inv_def)
  then have st: "stack_inv t" using si lo(3) unfolding stack_inv_def e f by auto
  have c: "calmer s t" by (auto simp: calmer_def f e)
  have keep: "node_next t x = node_next s x" if "x \<notin> published s" for x using that lo(2) by (auto simp: f)
  have "local_ok t g' (waiter s g')" for g'
    using assms(1) keep by (intro local_ok_calmer [OF si c]) (auto simp: slot_inv_def f)
  then have "slot_inv t"
    using assms(1) keep by (intro slot_inv_moved [OF assms(1) c st]) (auto simp: slot_inv_def f)
  then show ?thesis by (simp add: t_def)
qed

text \<open>The private store into a node that is not published yet.\<close>

lemma slot_inv_link:
  assumes "slot_inv s" "waiter s g = PLoad n"
  shows "slot_inv (goto g (PCas n (waiters (slot s))) (s\<lparr>nodes := set_waiter_next n (waiters (slot s)) (nodes s)\<rparr>))"
proof -
  define t where "t = goto g (PCas n (waiters (slot s))) (s\<lparr>nodes := set_waiter_next n (waiters (slot s)) (nodes s)\<rparr>)"
  have f: "published t = published s" "early t = early s" "rank t = rank s" "pushes t = pushes s" "swept t = swept s"
    "slot t = slot s" "waiter t = (waiter s)(g := PCas n (waiters (slot s)))" "waker t = waker s"
    "waiter_free (nodes t) = waiter_free (nodes s)" "node_gp t x = node_gp s x"
    "node_next t x = (if x = n then waiters (slot s) else node_next s x)" for x
    by (simp_all add: t_def goto_def set_waiter_next_def)
  have si: "stack_inv s" using assms(1) by (simp add: slot_inv_def)
  have lo: "node_gp s n = g" "n < waiter_free (nodes s)" "n \<notin> published s"
    using assms(1,2) by (auto simp: slot_inv_def dest: spec [of _ g])
  have e: "needy t y = needy s y" "linkok t x k = linkok s x k" for y x k
    using assms(2) by (auto simp: needy_def linkok_def f)
  have "x \<in> published s \<Longrightarrow> node_next t x = node_next s x" for x using lo(3) by (auto simp: f)
  then have st: "stack_inv t" using si unfolding stack_inv_def e f(1-9) by auto
  have c: "calmer s t" by (auto simp: calmer_def f e)
  have "local_ok t g (waiter t g)" using lo si by (simp add: f stack_inv_def)
  then have "slot_inv t"
    using assms(1) lo(1) by (intro slot_inv_moved [OF assms(1) c st, of g]) (auto simp: slot_inv_def f)
  then show ?thesis by (simp add: t_def)
qed

text \<open>Every step of a waiter and of a waker keeps the invariant.\<close>

lemma slot_inv_local: "slot_inv s \<Longrightarrow> waiter s g = pc \<Longrightarrow> local_ok s g pc"
  by (auto simp: slot_inv_def)

lemma slot_inv_stack: "slot_inv s \<Longrightarrow> stack_inv s"
  by (simp add: slot_inv_def)

lemma stack_inv_head: "stack_inv s \<Longrightarrow> waiters (slot s) = Some h \<Longrightarrow> h \<in> published s"
  by (simp add: stack_inv_def)

lemma stack_inv_next:
  assumes "stack_inv s" "x \<in> published s"
  shows "set_option (node_next s x) \<subseteq> published s" "x \<in> early s \<Longrightarrow> linkok s x (node_next s x)"
  using assms by (auto simp: stack_inv_def)

lemma slot_inv_waiter:
  assumes "slot_inv s" "swept s \<longrightarrow> state (slot s) \<noteq> slotPending"
  shows "slot_inv (waiter_move c g s)"
proof (cases "waiter s g")
  case PState
  have "slot_inv (s\<lparr>nodes := new_waiter g (nodes s)\<rparr>)"
    using assms(1) by (intro slot_inv_nodes) (auto simp: new_waiter_def)
  moreover have "waiter_free (nodes s) \<notin> published s" using slot_inv_stack [OF assms(1)] by (auto simp: stack_inv_def)
  ultimately show ?thesis using PState assms(1)
    by (auto simp: waiter_move_def new_waiter_def intro!: slot_inv_goto)
next
  case (PLoad n)
  then show ?thesis using slot_inv_link [OF assms(1) PLoad] by (simp add: waiter_move_def)
next
  case (PCas n h)
  then show ?thesis
    using slot_inv_push [OF assms(1) PCas] slot_inv_local [OF assms(1) PCas] assms(1)
    by (auto simp: waiter_move_def intro!: slot_inv_goto)
next
  case (PCheck n)
  have l: "node_gp s n = g" "n \<in> published s" using slot_inv_local [OF assms(1) PCheck] by auto
  have "n \<in> early s" if "state (slot s) = slotPending"
    using that l slot_inv_stack [OF assms(1)] assms(2) by (auto simp: stack_inv_def)
  with PCheck l show ?thesis using assms(1)
    by (auto simp: waiter_move_def needy_def intro!: slot_inv_goto)
next
  case (PSleep n)
  let ?m = "(nodes s)\<lparr>waiter_at := (waiter_at (nodes s))(n := (waiter_at (nodes s) n)\<lparr>waiter_sema := node_sema s n - 1\<rparr>)\<rparr>"
  have "slot_inv (s\<lparr>nodes := ?m\<rparr>)" using assms(1) by (intro slot_inv_nodes) auto
  with PSleep show ?thesis using assms(1) by (auto simp: waiter_move_def intro!: slot_inv_goto)
next
  case RLoad
  then show ?thesis using assms(1) stack_inv_head [OF slot_inv_stack [OF assms(1)]]
    by (auto simp: waiter_move_def split: option.split intro!: slot_inv_goto)
next
  case (RHeadNext h)
  then show ?thesis
    using assms(1) slot_inv_local [OF assms(1) RHeadNext] stack_inv_next [OF slot_inv_stack [OF assms(1)], of h]
    by (auto simp: waiter_move_def intro!: slot_inv_goto)
next
  case (RHeadCas h m)
  then show ?thesis using assms(1) slot_inv_unlink_head [OF assms(1) RHeadCas]
    by (auto simp: waiter_move_def intro!: slot_inv_goto)
next
  case (RWalk p)
  have p: "p \<in> published s" using slot_inv_local [OF assms(1) RWalk] by simp
  have "n \<in> published s \<and> (p \<in> early s \<longrightarrow> n \<in> early s)" if "node_next s p = Some n" for n
    using stack_inv_next [OF slot_inv_stack [OF assms(1)] p] that by (auto simp: linkok_def)
  with RWalk p show ?thesis using assms(1)
    by (auto simp: waiter_move_def split: option.split intro!: slot_inv_goto)
next
  case (RMid p n)
  then show ?thesis
    using assms(1) slot_inv_local [OF assms(1) RMid] stack_inv_next [OF slot_inv_stack [OF assms(1)], of n]
    by (auto simp: waiter_move_def intro!: slot_inv_goto)
next
  case (RMidCas p n m)
  then show ?thesis using assms(1) slot_inv_unlink_mid [OF assms(1) RMidCas]
    by (auto simp: waiter_move_def intro!: slot_inv_goto)
qed (use assms(1) in \<open>auto simp: waiter_move_def split: slot_state.split option.split intro!: slot_inv_goto\<close>)

lemma slot_inv_frame:
  assumes "slot_inv s" "nodes t = nodes s" "waiter t = waiter s" "published t = published s" "early t = early s"
    "rank t = rank s" "pushes t = pushes s" "waiters (slot t) = waiters (slot s) \<and> swept t = swept s \<or> waiters (slot t) = None \<and> swept t"
    "\<And>i. walk_ptrs (waker t i) \<subseteq> published s"
  shows "slot_inv t"
proof -
  have e: "needy t y = needy s y" "linkok t x k = linkok s x k" for y x k
    by (simp_all add: needy_def linkok_def assms)
  have c: "calmer s t" by (auto simp: calmer_def assms e)
  have si: "stack_inv s" using assms(1) by (simp add: slot_inv_def)
  have st: "stack_inv t" using si assms(8) unfolding stack_inv_def assms(2-7) e by auto
  have "local_ok t g (waiter s g)" for g
    using assms(1) by (intro local_ok_calmer [OF si c]) (auto simp: slot_inv_def assms(2-7))
  then show ?thesis using st assms(9) by (simp add: slot_inv_def assms(2-7))
qed

lemma slot_inv_waker:
  assumes "slot_inv s"
  shows "slot_inv (waker_move i s)"
proof -
  have w: "\<And>j x. x \<in> walk_ptrs (waker s j) \<Longrightarrow> x \<in> published s" using assms by (auto simp: slot_inv_def)
  show ?thesis
  proof (cases "waker s i")
    case KSwap
    then show ?thesis using w stack_inv_head [OF slot_inv_stack [OF assms]]
      by (intro slot_inv_frame [OF assms]) (auto simp: waker_move_def kgoto_def split: option.split if_split_asm)
  next
    case (KRelease x)
    have "slot_inv (s\<lparr>nodes := semrelease x (nodes s)\<rparr>)" using assms by (intro slot_inv_nodes) auto
    then show ?thesis
    proof (rule slot_inv_frame)
      show "walk_ptrs (waker (waker_move i s) j) \<subseteq> published (s\<lparr>nodes := semrelease x (nodes s)\<rparr>)" for j
        using KRelease w [of _ j] w [of x i] by (cases "j = i") (auto simp: waker_move_def kgoto_def)
    qed (simp_all add: KRelease waker_move_def kgoto_def)
  next
    case (KNext x)
    then have "set_option (node_next s x) \<subseteq> published s"
      using w [of x i] stack_inv_next(1) [OF slot_inv_stack [OF assms]] by simp
    with KNext w show ?thesis
      by (intro slot_inv_frame [OF assms]) (auto simp: waker_move_def kgoto_def split: option.split if_split_asm)
  qed (use assms w in \<open>auto simp: waker_move_def kgoto_def intro!: slot_inv_frame [OF assms] split: if_split_asm\<close>)
qed

section \<open>Who will be woken\<close>

fun covers :: "'a slot_sys \<Rightarrow> 'a waker_pc \<Rightarrow> nat \<Rightarrow> bool" where
  "covers s (KRelease x) n \<longleftrightarrow> x \<in> early s \<and> rank s n \<le> rank s x"
| "covers s (KNext x) n \<longleftrightarrow> x \<in> early s \<and> rank s n < rank s x"
| "covers s _ n \<longleftrightarrow> False"

definition wake_inv :: "'a slot_sys \<Rightarrow> bool" where
  "wake_inv s \<longleftrightarrow>
     (swept s \<or> (\<exists>i. waker s i = KSwap) \<longrightarrow> state (slot s) \<noteq> slotPending) \<and>
     (\<not> swept s \<longrightarrow> state (slot s) \<noteq> slotPending \<longrightarrow> (\<exists>i. waker s i = KSwap)) \<and>
     (\<forall>g n. waiter s g = PSleep n \<longrightarrow> swept s \<longrightarrow> node_sema s n = 0 \<longrightarrow> (\<exists>i. covers s (waker s i) n))"

lemma covers_frame:
  assumes "early t = early s" "\<And>x. x \<in> early s \<Longrightarrow> rank t x = rank s x" "n \<in> early s"
  shows "covers t k n = covers s k n"
  using assms by (cases k) auto

lemma wake_inv_frame:
  assumes "wake_inv s" "slot_inv s" "state (slot t) = state (slot s)" "swept t = swept s" "waker t = waker s"
    "swept s \<Longrightarrow> early t = early s \<and> (\<forall>x\<in>early s. rank t x = rank s x)"
    "\<And>g n. swept s \<Longrightarrow> waiter t g = PSleep n \<Longrightarrow> waiter s g = PSleep n \<and> (node_sema t n = 0 \<longrightarrow> node_sema s n = 0)"
  shows "wake_inv t"
proof -
  have "\<exists>i. covers t (waker t i) n" if "waiter t g = PSleep n" "swept t" "node_sema t n = 0" for g n
  proof -
    have sw: "swept s" using that(2) assms(4) by simp
    have n: "waiter s g = PSleep n" "node_sema s n = 0" using assms(7) [OF sw that(1)] that(3) by simp_all
    then obtain i where "covers s (waker s i) n" using assms(1) sw by (auto simp: wake_inv_def)
    moreover have "n \<in> early s" using slot_inv_local [OF assms(2) n(1)] by simp
    ultimately show ?thesis using covers_frame [of t s n] assms(5,6) sw by auto
  qed
  then show ?thesis using assms(1) unfolding wake_inv_def assms(3-5) by blast
qed

lemma wake_inv_waiter:
  assumes "wake_inv s" "slot_inv s"
  shows "wake_inv (waiter_move c g s)"
proof (rule wake_inv_frame [OF assms])
  have sw: "swept s \<Longrightarrow> state (slot s) \<noteq> slotPending" using assms(1) by (simp add: wake_inv_def)
  have lo: "local_ok s g' (waiter s g')" for g' using assms(2) by (simp add: slot_inv_def)
  show "state (slot (waiter_move c g s)) = state (slot s)" "swept (waiter_move c g s) = swept s"
    "waker (waiter_move c g s) = waker s"
    by (cases "waiter s g"; simp add: waiter_move_def goto_def publish_node_def)+
  show "early (waiter_move c g s) = early s \<and> (\<forall>x\<in>early s. rank (waiter_move c g s) x = rank s x)" if "swept s"
    using that lo [of g] slot_inv_stack [OF assms(2)]
    by (cases "waiter s g") (auto simp: waiter_move_def goto_def publish_node_def stack_inv_def)
  show "waiter s g' = PSleep n \<and> (node_sema (waiter_move c g s) n = 0 \<longrightarrow> node_sema s n = 0)"
    if "swept s" "waiter (waiter_move c g s) g' = PSleep n" for g' n
  proof -
    have w: "waiter s g' = PSleep n"
      using that sw
      by (cases "waiter s g")
         (auto simp: waiter_move_def goto_def publish_node_def split: if_split_asm slot_state.split_asm option.split_asm)
    have n: "node_gp s n = g'" "n < waiter_free (nodes s)"
      using lo [of g'] w slot_inv_stack [OF assms(2)] by (auto simp: stack_inv_def)
    have g: "g' = g \<Longrightarrow> node_sema (waiter_move c g s) n = node_sema s n"
      using that w by (auto simp: waiter_move_def goto_def split: if_split_asm)
    show ?thesis using w n g lo [of g]
      by (cases "g' = g"; cases "waiter s g") (auto simp: waiter_move_def goto_def publish_node_def new_waiter_def set_waiter_next_def)
  qed
qed

text \<open>The first sweep hands the whole stack to a waker, and a waker's walk passes nobody who still sleeps.\<close>

lemma covers_walk:
  assumes "slot_inv s" "waiter s g = PSleep n"
  shows "\<not> swept s \<Longrightarrow> \<exists>z. waiters (slot s) = Some z \<and> covers s (KRelease z) n"
    and "covers s (KRelease x) n \<Longrightarrow> n \<noteq> x \<Longrightarrow> covers s (KNext x) n"
    and "covers s (KNext x) n \<Longrightarrow> \<exists>z. node_next s x = Some z \<and> covers s (KRelease z) n"
proof -
  have n: "n \<in> early s" "needy s n" using slot_inv_local [OF assms] assms(2) by (auto simp: needy_def)
  have si: "stack_inv s" using assms(1) by (rule slot_inv_stack)
  show "\<exists>z. waiters (slot s) = Some z \<and> covers s (KRelease z) n" if "\<not> swept s"
    using that si n by (auto simp: stack_inv_def)
  show "covers s (KNext x) n" if "covers s (KRelease x) n" "n \<noteq> x"
  proof -
    have "x \<in> early s" "rank s n \<le> rank s x" using that(1) by simp_all
    moreover have "rank s n \<noteq> rank s x" using inj_onD [of "rank s" "early s" n x] si n(1) \<open>x \<in> early s\<close> that(2)
      unfolding stack_inv_def by blast
    ultimately show ?thesis by simp
  qed
  show "\<exists>z. node_next s x = Some z \<and> covers s (KRelease z) n" if "covers s (KNext x) n"
  proof -
    have x: "x \<in> early s" "rank s n < rank s x" using that by simp_all
    then have "linkok s x (node_next s x)" using si by (simp add: stack_inv_def)
    with x n show ?thesis by (auto simp: linkok_def)
  qed
qed

lemma waker_keeps:
  "waiter (waker_move i s) = waiter s" "early (waker_move i s) = early s" "rank (waker_move i s) = rank s"
  by (cases "waker s i"; simp add: waker_move_def kgoto_def)+

lemma waker_others: "j \<noteq> i \<Longrightarrow> waker (waker_move i s) j = waker s j"
  by (cases "waker s i") (auto simp: waker_move_def kgoto_def)

lemma sleeper_still_covered:
  assumes "wake_inv s" "slot_inv s" "waiter s g = PSleep n" "swept (waker_move i s)" "node_sema (waker_move i s) n = 0"
  shows "\<exists>j. covers s (waker (waker_move i s) j) n"
proof (cases "swept s")
  case False
  then have k: "waker s i = KSwap"
    using assms(4) by (cases "waker s i") (auto simp: waker_move_def kgoto_def split: if_split_asm)
  obtain z where "waiters (slot s) = Some z" "covers s (KRelease z) n" using covers_walk(1) [OF assms(2,3) False] by blast
  then show ?thesis using k by (intro exI [of _ i]) (simp add: waker_move_def kgoto_def)
next
  case True
  moreover have "node_sema s n = 0"
    using assms(5) by (cases "waker s i") (auto simp: waker_move_def kgoto_def split: if_split_asm)
  ultimately obtain j where j: "covers s (waker s j) n" using assms(1,3) by (auto simp: wake_inv_def)
  show ?thesis
  proof (cases "j = i")
    case False
    with j show ?thesis by (intro exI [of _ j]) (simp add: waker_others)
  next
    case ji: True
    show ?thesis
    proof (cases "waker s i")
      case (KRelease x)
      then have "n \<noteq> x" using assms(5) by (auto simp: waker_move_def kgoto_def)
      then have "covers s (KNext x) n" using covers_walk(2) [OF assms(2,3)] j ji KRelease by simp
      then show ?thesis using KRelease by (intro exI [of _ i]) (simp add: waker_move_def kgoto_def)
    next
      case (KNext x)
      then obtain z where "node_next s x = Some z" "covers s (KRelease z) n"
        using covers_walk(3) [OF assms(2,3)] j ji by auto
      then show ?thesis using KNext by (intro exI [of _ i]) (simp add: waker_move_def kgoto_def)
    qed (use j ji in auto)
  qed
qed

lemma wake_inv_waker:
  assumes "wake_inv s" "slot_inv s"
  shows "wake_inv (waker_move i s)"
proof -
  let ?t = "waker_move i s"
  note w = waker_keeps [of i s]
  have c: "covers ?t k n = covers s k n" for k n by (cases k) (simp_all add: w)
  note keep = waker_others [of _ i s]
  have sw1: "swept ?t \<or> (\<exists>i. waker ?t i = KSwap) \<longrightarrow> state (slot ?t) \<noteq> slotPending"
    using assms(1)
    by (cases "waker s i") (auto simp: wake_inv_def waker_move_def kgoto_def split: if_split_asm option.split)
  have sw2: "\<exists>j. waker ?t j = KSwap" if "\<not> swept ?t" "state (slot ?t) \<noteq> slotPending"
  proof (cases "state (slot s) = slotPending")
    case True
    then have "waker ?t i = KSwap"
      using that by (cases "waker s i") (auto simp: waker_move_def kgoto_def split: if_split_asm)
    then show ?thesis ..
  next
    case False
    have "\<not> swept s" using that(1) by (cases "waker s i") (auto simp: waker_move_def kgoto_def split: if_split_asm)
    with False obtain j where j: "waker s j = KSwap" using assms(1) by (auto simp: wake_inv_def)
    then have "j \<noteq> i" using that(1) by (auto simp: waker_move_def kgoto_def)
    then show ?thesis using keep j by (intro exI [of _ j]) simp
  qed
  have "\<exists>j. covers s (waker ?t j) n" if "waiter s g = PSleep n" "swept ?t" "node_sema ?t n = 0" for g n
    using sleeper_still_covered [OF assms that] .
  then show ?thesis using sw1 sw2 unfolding wake_inv_def w c by blast
qed

section \<open>What waiters get\<close>

fun value_ok :: "'a slot_sys \<Rightarrow> 'a waiter_pc \<Rightarrow> bool" where
  "value_ok s WValue \<longleftrightarrow> slot_value (slot s) \<noteq> None"
| "value_ok s WValue2 \<longleftrightarrow> slot_value (slot s) \<noteq> None"
| "value_ok s (Got (Inr v)) \<longleftrightarrow> v \<in> set (delivered s)"
| "value_ok s _ \<longleftrightarrow> True"

definition value_inv :: "'a slot_sys \<Rightarrow> bool" where
  "value_inv s \<longleftrightarrow>
     set_option (slot_value (slot s)) \<subseteq> set (delivered s) \<and>
     (state (slot s) = slotReady \<longrightarrow> slot_value (slot s) \<noteq> None) \<and>
     (\<forall>i. waker s i = KReady \<longrightarrow> slot_value (slot s) \<noteq> None) \<and> (\<forall>g. value_ok s (waiter s g))"

lemma waiter_move_slot:
  "state (slot (waiter_move c g s)) = state (slot s)" "slot_value (slot (waiter_move c g s)) = slot_value (slot s)"
  "delivered (waiter_move c g s) = delivered s" "waker (waiter_move c g s) = waker s"
  "g' \<noteq> g \<Longrightarrow> waiter (waiter_move c g s) g' = waiter s g'"
  by (cases "waiter s g"; simp add: waiter_move_def goto_def publish_node_def)+

lemma value_ok_mono:
  "value_ok s pc \<Longrightarrow> set (delivered s) \<subseteq> set (delivered t) \<Longrightarrow> slot_value (slot s) \<noteq> None \<longrightarrow> slot_value (slot t) \<noteq> None \<Longrightarrow>
   value_ok t pc"
  by (cases "(s, pc)" rule: value_ok.cases) auto

lemma value_inv_waiter:
  assumes "value_inv s"
  shows "value_inv (waiter_move c g s)"
proof -
  have now: "value_ok s (waiter (waiter_move c g s) g)"
    using assms
    by (cases "waiter s g")
       (auto simp: value_inv_def waiter_move_def goto_def split: slot_state.split option.splits sum.split dest: spec [of _ g])
  have "value_ok (waiter_move c g s) (waiter (waiter_move c g s) g')" for g'
  proof (rule value_ok_mono)
    show "value_ok s (waiter (waiter_move c g s) g')"
      using now assms by (cases "g' = g") (auto simp: value_inv_def waiter_move_slot)
  qed (simp_all add: waiter_move_slot)
  then show ?thesis using assms by (simp add: value_inv_def waiter_move_slot)
qed

lemma value_inv_waker:
  assumes "value_inv s"
  shows "value_inv (waker_move i s)"
proof -
  have "waiter (waker_move i s) = waiter s" by (cases "waker s i") (simp_all add: waker_move_def kgoto_def)
  moreover have "value_ok (waker_move i s) (waiter s g)" for g
    by (rule value_ok_mono [of s]; cases "waker s i") (use assms in \<open>auto simp: value_inv_def waker_move_def kgoto_def\<close>)
  moreover have "set_option (slot_value (slot (waker_move i s))) \<subseteq> set (delivered (waker_move i s))"
    using assms by (cases "waker s i") (auto simp: value_inv_def waker_move_def kgoto_def)
  moreover have "(state (slot (waker_move i s)) = slotReady \<longrightarrow> slot_value (slot (waker_move i s)) \<noteq> None) \<and>
      (\<forall>j. waker (waker_move i s) j = KReady \<longrightarrow> slot_value (slot (waker_move i s)) \<noteq> None)"
    using assms by (cases "waker s i") (auto simp: value_inv_def waker_move_def kgoto_def split: if_split_asm option.splits)
  ultimately show ?thesis by (simp add: value_inv_def)
qed

text \<open>Links always lead to nodes pushed earlier, so a walk over the stack ends.\<close>

definition older :: "'a slot_sys \<Rightarrow> nat \<Rightarrow> nat option \<Rightarrow> bool" where
  "older s x m \<longleftrightarrow> (\<forall>z. m = Some z \<longrightarrow> rank s z < rank s x)"

definition order_inv :: "'a slot_sys \<Rightarrow> bool" where
  "order_inv s \<longleftrightarrow>
     (\<forall>x\<in>published s. rank s x < pushes s \<and> older s x (node_next s x)) \<and>
     (\<forall>g p n m. waiter s g = RMidCas p n m \<longrightarrow> older s n m)"

lemma order_inv_waiter:
  assumes "order_inv s" "slot_inv s"
  shows "order_inv (waiter_move c g s)"
proof -
  have si: "stack_inv s" and lo: "local_ok s g (waiter s g)" using assms(2) by (auto simp: slot_inv_def)
  have o: "older s x (node_next s x)" if "x \<in> published s" for x using assms(1) that by (simp add: order_inv_def)
  show ?thesis
  proof (cases "waiter s g")
    case (PCas n h)
    have ptr: "z \<in> published s" if "x \<in> published s" "node_next s x = Some z" for x z
      using si that by (auto simp: stack_inv_def)
    have mid: "n' \<noteq> n" if "waiter s g' = RMidCas p n' m" for g' p n' m
      using slot_inv_local [OF assms(2) that] lo PCas by auto
    have mid2: "waiter s g' \<noteq> RMidCas p n' (Some n)" for g' p n'
      using slot_inv_local [OF assms(2), of g' "RMidCas p n' (Some n)"] lo PCas by auto
    show ?thesis using PCas assms(1) lo ptr mid mid2
      by (auto simp: order_inv_def older_def waiter_move_def goto_def publish_node_def less_Suc_eq split: if_split_asm)
  next
    case (RMidCas p n m)
    have "older s p m" if "node_next s p = Some n"
      using that o [of p] lo RMidCas assms(1) by (fastforce simp: older_def order_inv_def)
    then show ?thesis using RMidCas assms(1)
      by (auto simp: order_inv_def older_def waiter_move_def goto_def set_waiter_next_def split: if_split_asm)
  next
    case (PLoad n)
    then show ?thesis using assms(1) lo
      by (auto simp: order_inv_def older_def waiter_move_def goto_def set_waiter_next_def split: if_split_asm)
  next
    case PState
    then show ?thesis using assms(1) si
      by (auto simp: order_inv_def older_def waiter_move_def goto_def new_waiter_def stack_inv_def split: if_split_asm)
  next
    case (RMid p n)
    then show ?thesis using assms(1) lo o [of n]
      by (auto simp: order_inv_def older_def waiter_move_def goto_def split: if_split_asm)
  qed (use assms(1) in \<open>auto simp: order_inv_def older_def waiter_move_def goto_def split: if_split_asm slot_state.split_asm option.split_asm\<close>)
qed

text \<open>All invariants together, along every run.\<close>

definition run_inv :: "'a slot_sys \<Rightarrow> bool" where
  "run_inv s \<longleftrightarrow> slot_inv s \<and> wake_inv s"

definition end_inv :: "'a slot_sys \<Rightarrow> bool" where
  "end_inv s \<longleftrightarrow> order_inv s \<and> value_inv s"

lemma run_inv_move:
  assumes "run_inv s"
  shows "run_inv (slot_move a s)"
proof -
  have si: "slot_inv s" and wi: "wake_inv s" using assms by (simp_all add: run_inv_def)
  have begin_call: "run_inv (kgoto i pc s)" if "waker s i = KIdle" "walk_ptrs pc = {}" "pc \<noteq> KSwap" for i pc
  proof -
    have "slot_inv (kgoto i pc s)" using si that(2)
      by (intro slot_inv_frame [OF si]) (auto simp: kgoto_def slot_inv_def)
    moreover have "wake_inv (kgoto i pc s)"
    proof -
      have other: "\<exists>j. Q (waker s j) \<Longrightarrow> \<not> Q KIdle \<Longrightarrow> \<exists>j. Q (if j = i then pc else waker s j)" for Q
        using that(1) by metis
      have "covers (kgoto i pc s) k n = covers s k n" for k n by (cases k) (simp_all add: kgoto_def)
      then show ?thesis
        using wi that(3) other [of "\<lambda>k. k = KSwap"] other [of "\<lambda>k. covers s k n" for n]
        by (auto simp: wake_inv_def kgoto_def split: if_split_asm)
    qed
    ultimately show ?thesis by (simp add: run_inv_def)
  qed
  have enter: "run_inv (goto g WState s)" if "outside (waiter s g)" for g
  proof -
    have "wake_inv (goto g WState s)"
      by (intro wake_inv_frame [OF wi si]) (auto simp: goto_def split: if_split_asm)
    then show ?thesis using slot_inv_goto [OF si, of g WState] by (simp add: run_inv_def)
  qed
  have watch: "run_inv (s\<lparr>nodes := semrelease n (nodes s)\<rparr>)" for n
    using slot_inv_nodes [OF si, of "semrelease n (nodes s)"] wake_inv_frame [OF wi si, of "s\<lparr>nodes := semrelease n (nodes s)\<rparr>"]
    by (auto simp: run_inv_def split: if_split_asm)
  show ?thesis
  proof (cases a)
    case (Waits g c)
    then show ?thesis using wi slot_inv_waiter [OF si, of c g] wake_inv_waiter [OF wi si]
      by (simp add: run_inv_def wake_inv_def)
  next
    case (Wakes i)
    then show ?thesis using slot_inv_waker [OF si] wake_inv_waker [OF wi si] by (simp add: run_inv_def)
  qed (use assms begin_call enter watch in \<open>auto split: waker_pc.split\<close>)
qed

lemma end_inv_move:
  assumes "end_inv s" "slot_inv s"
  shows "end_inv (slot_move a s)"
proof -
  have oi: "order_inv s" and vi: "value_inv s" using assms(1) by (simp_all add: end_inv_def)
  have "order_inv (waker_move i s)" for i
    using oi by (cases "waker s i") (auto simp: order_inv_def older_def waker_move_def kgoto_def)
  moreover have "value_inv (goto g WState s)" "value_inv (s\<lparr>nodes := m\<rparr>)" "pc \<noteq> KReady \<Longrightarrow> value_inv (kgoto i pc s)" for g m i pc
    using vi value_ok_mono [of s _ "goto g WState s"] value_ok_mono [of s _ "s\<lparr>nodes := m\<rparr>"] value_ok_mono [of s _ "kgoto i pc s"]
    by (auto simp: value_inv_def goto_def kgoto_def)
  moreover have "order_inv (goto g WState s)" "order_inv (s\<lparr>nodes := semrelease n (nodes s)\<rparr>)" "order_inv (kgoto i pc s)" for g n i pc
    using oi by (auto simp: order_inv_def older_def goto_def kgoto_def)
  ultimately show ?thesis
    using oi vi order_inv_waiter [OF oi assms(2)] value_inv_waiter [OF vi] value_inv_waker [OF vi]
    by (cases a) (auto simp: end_inv_def split: waker_pc.split)
qed

lemma slot_run_inv: "run_inv (slot_run acts) \<and> end_inv (slot_run acts)"
proof -
  have "run_inv (fold slot_move acts s) \<and> end_inv (fold slot_move acts s)" if "run_inv s" "end_inv s" for s :: "'a slot_sys"
    using that
  proof (induction acts arbitrary: s)
    case (Cons a acts)
    then show ?case using run_inv_move [of s a] end_inv_move [of s a] by (simp add: run_inv_def)
  qed simp
  moreover have "run_inv (slot_init :: 'a slot_sys)"
    by (simp add: run_inv_def slot_inv_def stack_inv_def wake_inv_def slot_init_def newResultSlot_def needy_def)
  moreover have "end_inv (slot_init :: 'a slot_sys)"
    by (simp add: end_inv_def order_inv_def value_inv_def slot_init_def newResultSlot_def)
  ultimately show ?thesis by (simp add: slot_run_def)
qed

section \<open>Nobody is left asleep\<close>

definition alone :: "go_error option \<Rightarrow> nat \<Rightarrow> nat \<Rightarrow> 'a slot_sys \<Rightarrow> 'a slot_sys" where
  "alone c g k s = (waiter_move c g ^^ k) s"

lemma alone_step: "\<exists>k. P (alone c g k (waiter_move c g s)) \<Longrightarrow> \<exists>k. P (alone c g k s)"
  by (metis alone_def funpow_Suc_right o_apply)

lemma alone_here: "P s \<Longrightarrow> \<exists>k. P (alone c g k s)"
  by (intro exI [of _ 0]) (simp add: alone_def)

text \<open>What a waiter that looks at the state gets, when the slot is not pending.\<close>

definition outcome :: "'a resultSlot \<Rightarrow> go_error + 'a" where
  "outcome sl = (if state sl = slotClosed then Inl errResultClosed else Inr (the (slot_value sl)))"

lemma look_returns:
  assumes "waiter s g = WState" "state (slot s) \<noteq> slotPending" "state (slot s) = slotReady \<longrightarrow> slot_value (slot s) \<noteq> None"
  shows "\<exists>k. waiter (alone c g k s) g = Got (outcome (slot s))"
proof (cases "state (slot s)")
  case slotReady
  then show ?thesis using assms
    by (intro alone_step [OF alone_step [OF alone_here]]) (auto simp: waiter_move_def goto_def outcome_def)
qed (use assms in \<open>auto intro!: alone_step [OF alone_here] simp: waiter_move_def goto_def outcome_def\<close>)

lemma walk_returns:
  assumes "run_inv s" "end_inv s" "waiter s g = RWalk p" "state (slot s) \<noteq> slotPending"
  shows "\<exists>k. waiter (alone c g k s) g = Got (outcome (slot s))"
  using assms
proof (induction "rank s p" arbitrary: s p rule: less_induct)
  case less
  have si: "slot_inv s" and wi: "wake_inv s" and oi: "order_inv s" and vi: "value_inv s"
    using less.prems by (auto simp: run_inv_def end_inv_def)
  have p: "p \<in> published s" using slot_inv_local [OF si less.prems(3)] by simp
  let ?t = "waiter_move c g s"
  have t: "run_inv ?t" "end_inv ?t" using run_inv_move [of s "Waits g c"] end_inv_move [of s "Waits g c"] less.prems si by auto
  have look: "\<exists>k. waiter (alone c g k u) g = Got (outcome (slot s))"
    if "waiter u g = WState" "state (slot u) = state (slot s)" "slot_value (slot u) = slot_value (slot s)" for u
    using look_returns [OF that(1), of c] that(2,3) less.prems(4) vi by (auto simp: outcome_def value_inv_def)
  show ?case
  proof (cases "node_next s p")
    case None
    then have "waiter ?t g = WState" by (simp add: less.prems(3) waiter_move_def goto_def)
    then show ?thesis by (intro alone_step [OF look]) (simp_all add: waiter_move_slot)
  next
    case (Some n)
    show ?thesis
    proof (cases "node_gp s n = g")
      case True
      let ?v = "waiter_move c g (waiter_move c g ?t)"
      have "waiter ?t g = RMid p n" using True Some less.prems(3) by (simp add: waiter_move_def goto_def)
      then have "waiter (waiter_move c g ?t) g = RMidCas p n (node_next ?t n)" by (simp add: waiter_move_def goto_def)
      then have "waiter ?v g = WState" by (simp add: waiter_move_def [of c g "waiter_move c g ?t"] goto_def)
      then show ?thesis by (intro alone_step [OF alone_step [OF alone_step [OF look]]]) (simp_all add: waiter_move_slot)
    next
      case False
      then have w: "waiter ?t g = RWalk n" "rank ?t n < rank s p" "slot ?t = slot s"
        using Some less.prems(3) oi p by (auto simp: waiter_move_def goto_def order_inv_def older_def)
      then show ?thesis using less.hyps [of ?t n] t less.prems(4) by (intro alone_step [of _ c g s]) simp
    qed
  qed
qed

lemma removal_returns:
  assumes "run_inv s" "end_inv s" "waiter s g = RLoad" "state (slot s) \<noteq> slotPending"
  shows "\<exists>k. waiter (alone c g k s) g = Got (outcome (slot s))"
proof -
  let ?t = "waiter_move c g s"
  have t: "run_inv ?t" "end_inv ?t"
    using run_inv_move [of s "Waits g c"] end_inv_move [of s "Waits g c"] assms by (auto simp: run_inv_def)
  have same: "outcome (slot u) = outcome (slot s)" "state (slot u) = slotReady \<longrightarrow> slot_value (slot u) \<noteq> None"
    if "state (slot u) = state (slot s)" "slot_value (slot u) = slot_value (slot s)" for u
    using that assms(2) by (auto simp: outcome_def end_inv_def value_inv_def)
  have look: "\<exists>k. waiter (alone c g k u) g = Got (outcome (slot s))"
    if "waiter u g = WState" "state (slot u) = state (slot s)" "slot_value (slot u) = slot_value (slot s)" for u
    using look_returns [OF that(1), of c] same [OF that(2,3)] that(2) assms(4) by simp
  consider (none) "waiter ?t g = WState" | (head) h where "waiters (slot s) = Some h" "waiter ?t g = RHeadNext h"
    | (walk) h where "waiter ?t g = RWalk h"
  proof (cases "waiters (slot s)")
    case (Some h)
    with assms(3) that(2,3) show ?thesis by (cases "node_gp s h = g") (simp_all add: waiter_move_def goto_def)
  qed (use assms(3) that(1) in \<open>simp add: waiter_move_def goto_def\<close>)
  then show ?thesis
  proof cases
    case none
    then show ?thesis by (intro alone_step [OF look]) (simp_all add: waiter_move_slot)
  next
    case walk
    show ?thesis
      using walk_returns [OF t walk, of c] same(1) [of ?t] assms(4)
      by (intro alone_step [of _ c g s]) (simp add: waiter_move_slot)
  next
    case head
    let ?u = "waiter_move c g ?t"
    have "waiters (slot ?t) = Some h" using head(1) assms(3) by (simp add: waiter_move_def goto_def)
    then have u: "waiter ?u g = RHeadCas h (node_next ?t h)" "waiters (slot ?u) = Some h"
      using head(2) by (simp_all add: waiter_move_def [of c g ?t] goto_def)
    then have "waiter (waiter_move c g ?u) g = WState" by (simp add: waiter_move_def [of c g ?u] goto_def)
    then show ?thesis by (intro alone_step [OF alone_step [OF alone_step [OF look]]]) (simp_all add: waiter_move_slot)
  qed
qed

fun waking :: "'a waker_pc \<Rightarrow> bool" where
  "waking KSwap = True"
| "waking (KRelease x) = True"
| "waking (KNext x) = True"
| "waking _ = False"

text \<open>C3: no lost wake-up. Let any number of goroutines run \<^verbatim>\<open>Wait\<close>, \<^verbatim>\<open>Deliver\<close> and \<^verbatim>\<open>Close\<close> on a slot, in any
  interleaving of their loads, stores and compare-and-swaps. When the slot is not pending any more and
  no \<^verbatim>\<open>Deliver\<close> or \<^verbatim>\<open>Close\<close> is still waking waiters, every goroutine asleep on its semaphore
  has a permit, and from there on it returns by its own steps: with the closed error when the
  slot is closed, and else with the value in the slot, which is one that was delivered.\<close>

theorem no_lost_wakeup:
  fixes acts :: "'a slot_act list"
  defines "s \<equiv> slot_run acts"
  assumes "state (slot s) \<noteq> slotPending" "\<forall>i. \<not> waking (waker s i)" "waiter s g = PSleep n"
  shows "0 < node_sema s n \<and> (\<exists>k. waiter (alone c g k s) g = Got (outcome (slot s))) \<and>
    (state (slot s) = slotReady \<longrightarrow> (\<exists>v\<in>set (delivered s). outcome (slot s) = Inr v))"
proof -
  have inv: "run_inv s" "end_inv s" using slot_run_inv [of acts] by (simp_all add: s_def)
  have "waker s i \<noteq> KSwap" for i using assms(3) by (auto dest: spec [of _ i])
  then have sw: "swept s" using inv(1) assms(2) by (auto simp: run_inv_def wake_inv_def)
  have none: "\<not> covers s (waker s i) n" for i using assms(3) by (cases "waker s i") (auto dest: spec [of _ i])
  then have sema: "0 < node_sema s n"
    using inv(1) sw assms(4) by (auto simp: run_inv_def wake_inv_def)
  have t: "waiter (waiter_move c g s) g = RLoad" "slot (waiter_move c g s) = slot s"
    using assms(4) sema by (simp_all add: waiter_move_def goto_def)
  have it: "run_inv (waiter_move c g s)" "end_inv (waiter_move c g s)"
    using run_inv_move [of s "Waits g c"] end_inv_move [of s "Waits g c"] inv by (auto simp: run_inv_def)
  have "\<exists>k. waiter (alone c g k s) g = Got (outcome (slot s))"
    using removal_returns [OF it t(1), of c] assms(2) t(2) by (intro alone_step [of _ c g s]) simp
  moreover have "\<exists>v\<in>set (delivered s). outcome (slot s) = Inr v" if "state (slot s) = slotReady"
    using that inv(2) by (auto simp: outcome_def end_inv_def value_inv_def)
  ultimately show ?thesis using sema by blast
qed

text \<open>Two goroutines fall asleep; a third one delivers.\<close>

definition two_sleepers :: "nat slot_act list" where
  "two_sleepers =
     EnterWait 0 # replicate 7 (Waits 0 None) @ EnterWait 1 # replicate 7 (Waits 1 None) @
     BeginDeliver 5 42 # replicate 7 (Wakes 5)"

lemmas slot_eval =
  slot_run_def slot_init_def newResultSlot_def waiter_move_def waker_move_def goto_def kgoto_def publish_node_def
  new_waiter_def set_waiter_next_def semrelease_def

theorem no_lost_wakeup_witness:
  "let s = slot_run two_sleepers
   in waiter s 0 = PSleep 0 \<and> waiter s 1 = PSleep 1 \<and> state (slot s) = slotReady \<and>
      0 < node_sema s 0 \<and> (\<exists>k. waiter (alone None 0 k s) 0 = Got (Inr 42))"
proof -
  let ?s = "slot_run two_sleepers"
  have st: "waiter ?s 0 = PSleep 0" "waiter ?s 1 = PSleep 1" "state (slot ?s) = slotReady" "slot_value (slot ?s) = Some 42"
    by (simp_all add: two_sleepers_def slot_eval numeral_eq_Suc)
  have "waker ?s i = KIdle" for i
    by (simp add: two_sleepers_def slot_eval numeral_eq_Suc)
  then have "\<forall>i. \<not> waking (waker ?s i)" by simp
  with no_lost_wakeup [of two_sleepers 0 0 None] st show ?thesis by (simp add: Let_def outcome_def)
qed

end
