(* ===== verification/Registry.thy ===== *)
theory Registry
  imports Dep_Edge Result_Slot
begin

unbundle bit_operations_syntax

text \<open>
  \<^verbatim>\<open>registry.go\<close>: the sharded table of results and the dependency graph in it. Entries and result
  slots are cells of the registry's memory. The intrusive lists of the source appear as the lists to
  which they are refined: a shard is the list of the addresses of its entries
  (\<open>shards\<close>, justified by the interpretation \<open>shard_entries\<close>) and an edge list is the list
  of identifiers that \<open>Dep_Edge\<close> shows it to be. The array of 256 shards is a function on indices,
  used below 256 only. The hash is \<^verbatim>\<open>fnv.New64a\<close> of the standard library, FNV-1a over the bytes of the key.
\<close>

definition registryShardCount :: nat where
  "registryShardCount = 256"

definition fnv1a64 :: "string \<Rightarrow> u64" where
  "fnv1a64 bytes = fold (\<lambda>c h. (h XOR word_of_nat (of_char c)) * 1099511628211) bytes 14695981039346656037"

definition shardFromHash :: "u64 \<Rightarrow> nat" where
  "shardFromHash h = unat (h mod word_of_nat registryShardCount)"

record 'a RegistryEntry =
  keyHash :: u64
  key :: string
  entry_value :: "nat option"
  stored :: "'a option"
  children :: "string list"
  parents :: "string list"

record 'a Registry =
  shards :: "nat \<Rightarrow> nat list"
  entry_at :: "nat \<Rightarrow> 'a RegistryEntry"
  entry_free :: nat
  slot_at :: "nat \<Rightarrow> 'a resultSlot"
  slot_free :: nat
  sleepers :: waiter_heap

text \<open>The callbacks with which \<^verbatim>\<open>NewRegistry\<close> binds a shard: they read and swap the \<^verbatim>\<open>next\<close> pointers.\<close>

definition shard_ops :: "(nat \<Rightarrow> nat option) node_ops" where
  "shard_ops =
     \<lparr>loadNext = (\<lambda>m x. m x), linkBefore = (\<lambda>x n m. m(x := n)),
      tryUnlink = (\<lambda>prev current next m. if m prev = Some current then (True, m(prev := next)) else (False, m))\<rparr>"

interpretation shard_entries: bound_list shard_ops "\<lambda>m x. m x" "\<lambda>m. ()"
  by unfold_locales (auto simp: shard_ops_def)

definition zero_entry :: "'a RegistryEntry" where
  "zero_entry = \<lparr>keyHash = 0, key = [], entry_value = None, stored = None, children = [], parents = []\<rparr>"

definition NewRegistry :: "'a Registry" where
  "NewRegistry = \<lparr>shards = (\<lambda>_. []), entry_at = (\<lambda>_. zero_entry), entry_free = 0,
     slot_at = (\<lambda>_. newResultSlot), slot_free = 0,
     sleepers = \<lparr>waiter_at = (\<lambda>_. \<lparr>waiter_gp = 0, waiter_sema = 0, waiter_next = None\<rparr>), waiter_free = 0\<rparr>\<rparr>"

definition shard_of :: "string \<Rightarrow> nat" where
  "shard_of k = shardFromHash (fnv1a64 k)"

definition reg_find :: "string \<Rightarrow> 'a Registry \<Rightarrow> nat option" where
  "reg_find k reg =
     (let h = fnv1a64 k
      in List.find (\<lambda>x. keyHash (entry_at reg x) = h \<and> key (entry_at reg x) = k) (shards reg (shardFromHash h)))"

text \<open>\<^verbatim>\<open>&RegistryEntry{...}\<close> with its fresh slot; not yet in a shard.\<close>

definition new_entry :: "string \<Rightarrow> 'a Registry \<Rightarrow> nat \<times> 'a Registry" where
  "new_entry k reg =
     (entry_free reg,
      reg\<lparr>entry_at := (entry_at reg)(entry_free reg :=
            \<lparr>keyHash = fnv1a64 k, key = k, entry_value = Some (slot_free reg), stored = None, children = [], parents = []\<rparr>),
          entry_free := Suc (entry_free reg),
          slot_at := (slot_at reg)(slot_free reg := newResultSlot),
          slot_free := Suc (slot_free reg)\<rparr>)"

definition set_shard :: "nat \<Rightarrow> nat list \<Rightarrow> 'a Registry \<Rightarrow> 'a Registry" where
  "set_shard i xs reg = reg\<lparr>shards := (shards reg)(i := xs)\<rparr>"

text \<open>Run alone, the swap in the loop of \<^verbatim>\<open>getOrCreate\<close> succeeds, so the loop runs once;
  the interleaved version follows below.\<close>

definition reg_getOrCreate :: "string \<Rightarrow> 'a Registry \<Rightarrow> nat \<times> 'a Registry" where
  "reg_getOrCreate k reg =
     (case reg_find k reg of
        Some x \<Rightarrow> (x, reg)
      | None \<Rightarrow>
          (let (n, reg1) = new_entry k reg; i = shard_of k
           in case reg_find k reg1 of
                Some x \<Rightarrow> (x, reg1)
              | None \<Rightarrow>
                  (let reg2 = set_shard i (n # shards reg1 i) reg1
                   in case reg_find k reg2 of
                        Some x \<Rightarrow>
                          if x \<noteq> n then (x, set_shard i (remove_first (\<lambda>y. y = n) (shards reg2 i)) reg2)
                          else (n, reg2)
                      | None \<Rightarrow> (n, reg2))))"

definition removeExpired :: "string \<Rightarrow> 'a Registry \<Rightarrow> 'a Registry" where
  "removeExpired k reg =
     (let h = fnv1a64 k; i = shardFromHash h
      in set_shard i (remove_first (\<lambda>x. keyHash (entry_at reg x) = h \<and> key (entry_at reg x) = k) (shards reg i)) reg)"

definition update_entry :: "nat \<Rightarrow> ('a RegistryEntry \<Rightarrow> 'a RegistryEntry) \<Rightarrow> 'a Registry \<Rightarrow> 'a Registry" where
  "update_entry x f reg = reg\<lparr>entry_at := (entry_at reg)(x := f (entry_at reg x))\<rparr>"

text \<open>\<^verbatim>\<open>slot.Close()\<close> and \<^verbatim>\<open>slot.Deliver\<close> on the slot of an entry. \<open>None\<close>: the walk over the sleepers does not return.\<close>

definition on_slot ::
  "('a resultSlot \<Rightarrow> waiter_heap \<Rightarrow> ('a resultSlot \<times> waiter_heap) option) \<Rightarrow> nat \<Rightarrow> 'a Registry \<Rightarrow> 'a Registry option" where
  "on_slot f x reg =
     (case entry_value (entry_at reg x) of
        None \<Rightarrow> Some reg
      | Some s \<Rightarrow>
          map_option (\<lambda>(sl, m). reg\<lparr>slot_at := (slot_at reg)(s := sl), sleepers := m\<rparr>) (f (slot_at reg s) (sleepers reg)))"

fun close_entries :: "nat list \<Rightarrow> 'a Registry \<Rightarrow> 'a Registry option" where
  "close_entries [] reg = Some reg"
| "close_entries (x # xs) reg = (case on_slot slot_Close x reg of None \<Rightarrow> None | Some reg' \<Rightarrow> close_entries xs reg')"

definition all_entries :: "'a Registry \<Rightarrow> nat list" where
  "all_entries reg = concat (map (shards reg) [0..<registryShardCount])"

definition closeAll :: "'a Registry \<Rightarrow> 'a Registry option" where
  "closeAll reg = close_entries (all_entries reg) reg"

section \<open>Dependencies\<close>

definition reg_keys :: "'a Registry \<Rightarrow> string set" where
  "reg_keys reg = (\<Union>i\<in>{..<registryShardCount}. (\<lambda>x. key (entry_at reg x)) ` set (shards reg i))"

lemma shard_of_bound: "shard_of k < registryShardCount" "shardFromHash h < registryShardCount"
  by (simp_all add: shard_of_def shardFromHash_def registryShardCount_def unat_mod_distrib)

lemma reg_find_key: "reg_find k reg = Some x \<Longrightarrow> k \<in> reg_keys reg"
  using shard_of_bound(2) [of "fnv1a64 k"] find_Some_in [of _ "shards reg (shardFromHash (fnv1a64 k))" x]
  by (auto simp: reg_find_def reg_keys_def Let_def)

lemma finite_reg_keys: "finite (reg_keys reg)"
  by (simp add: reg_keys_def)

text \<open>The loop of \<^verbatim>\<open>wouldCreateCircle\<close>; the stack grows and shrinks at its end.\<close>

function circle_loop :: "'a Registry \<Rightarrow> string \<Rightarrow> string list \<Rightarrow> string set \<Rightarrow> bool" where
  "circle_loop reg parentID stack visited =
     (if stack = [] then False
      else let currentID = last stack; rest = butlast stack
           in if currentID = parentID then True
              else if currentID \<in> visited then circle_loop reg parentID rest visited
              else case reg_find currentID reg of
                     None \<Rightarrow> circle_loop reg parentID rest (insert currentID visited)
                   | Some x \<Rightarrow>
                       circle_loop reg parentID (rest @ children (entry_at reg x)) (insert currentID visited))"
  by pat_completeness auto

termination
proof (relation "inv_image (finite_psubset <*lex*> less_than)
         (\<lambda>(reg, p, stack, visited). (reg_keys reg - visited, length stack))")
  fix reg :: "'a Registry" and p :: string and stack :: "string list" and visited cur rest
  assume s: "stack \<noteq> []" "cur = last stack" "rest = butlast stack" "cur \<noteq> p" "cur \<notin> visited"
  show "((reg, p, rest, insert cur visited), reg, p, stack, visited)
          \<in> inv_image (finite_psubset <*lex*> less_than) (\<lambda>(reg, p, stack, visited). (reg_keys reg - visited, length stack))"
    using s by (cases "cur \<in> reg_keys reg") (auto simp: finite_psubset_def finite_reg_keys)
  show "((reg, p, rest @ children (entry_at reg x), insert cur visited), reg, p, stack, visited)
          \<in> inv_image (finite_psubset <*lex*> less_than) (\<lambda>(reg, p, stack, visited). (reg_keys reg - visited, length stack))"
    if "reg_find cur reg = Some x" for x
    using s reg_find_key [OF that] by (auto simp: finite_psubset_def finite_reg_keys)
qed auto

declare circle_loop.simps [simp del]

definition wouldCreateCircle :: "string \<Rightarrow> string \<Rightarrow> 'a Registry \<Rightarrow> bool" where
  "wouldCreateCircle parentID childID reg = circle_loop reg parentID [childID] {}"

definition link :: "string \<Rightarrow> string \<Rightarrow> 'a Registry \<Rightarrow> 'a Registry" where
  "link parentID childID reg =
     (let (p, reg1) = reg_getOrCreate parentID reg; (c, reg2) = reg_getOrCreate childID reg1;
          reg3 = update_entry p (\<lambda>e. e\<lparr>children := push_id childID (children e)\<rparr>) reg2
      in update_entry c (\<lambda>e. e\<lparr>parents := push_id parentID (parents e)\<rparr>) reg3)"

definition addRelationship :: "string \<Rightarrow> string \<Rightarrow> 'a Registry \<Rightarrow> go_error + 'a Registry" where
  "addRelationship parentID childID reg =
     (if wouldCreateCircle parentID childID reg then Inl (AppError ''qpool: circular dependency detected'')
      else Inr (link parentID childID reg))"

definition registerDependent :: "string \<Rightarrow> string \<Rightarrow> 'a Registry \<Rightarrow> 'a Registry" where
  "registerDependent depID jobID reg = link depID jobID reg"

definition drop_parent :: "string \<Rightarrow> string \<Rightarrow> 'a Registry \<Rightarrow> 'a Registry" where
  "drop_parent i childID reg =
     (case reg_find childID reg of
        None \<Rightarrow> reg
      | Some c \<Rightarrow> update_entry c (\<lambda>e. e\<lparr>parents := drop_id i (parents e)\<rparr>) reg)"

definition drop_child :: "string \<Rightarrow> string \<Rightarrow> 'a Registry \<Rightarrow> 'a Registry" where
  "drop_child i parentID reg =
     (case reg_find parentID reg of
        None \<Rightarrow> reg
      | Some p \<Rightarrow> update_entry p (\<lambda>e. e\<lparr>children := drop_id i (children e)\<rparr>) reg)"

text \<open>A walk visits the edges that are in the list when it starts; \<open>None\<close> of \<open>reg_find\<close> is the early return.\<close>

definition pruneDependencyEdges :: "string \<Rightarrow> 'a Registry \<Rightarrow> 'a Registry" where
  "pruneDependencyEdges i reg =
     (case reg_find i reg of
        None \<Rightarrow> reg
      | Some x \<Rightarrow>
          (let reg1 = fold (drop_parent i) (children (entry_at reg x)) reg;
               reg2 = fold (drop_child i) (parents (entry_at reg1 x)) reg1
           in update_entry x (\<lambda>e. e\<lparr>children := [], parents := []\<rparr>) reg2))"

section \<open>The registry as a finite map\<close>

definition reg_wf :: "'a Registry \<Rightarrow> bool" where
  "reg_wf reg \<longleftrightarrow>
     (\<forall>i. distinct (map (\<lambda>x. key (entry_at reg x)) (shards reg i))) \<and>
     (\<forall>i. \<forall>x\<in>set (shards reg i).
        x < entry_free reg \<and> keyHash (entry_at reg x) = fnv1a64 (key (entry_at reg x)) \<and>
        i = shard_of (key (entry_at reg x)) \<and>
        distinct (children (entry_at reg x)) \<and> distinct (parents (entry_at reg x)) \<and>
        (\<exists>s. s < slot_free reg \<and> entry_value (entry_at reg x) = Some s)) \<and>
     (\<forall>i j. \<forall>x\<in>set (shards reg i). \<forall>y\<in>set (shards reg j).
        entry_value (entry_at reg x) = entry_value (entry_at reg y) \<longrightarrow> x = y) \<and>
     (\<forall>s. \<exists>xs. waiting_nodes (slot_at reg s) (sleepers reg) xs)"

definition lookup :: "'a Registry \<Rightarrow> string \<rightharpoonup> 'a RegistryEntry" where
  "lookup reg k = map_option (entry_at reg) (reg_find k reg)"

definition fresh_entry :: "string \<Rightarrow> nat \<Rightarrow> 'a RegistryEntry" where
  "fresh_entry k s = \<lparr>keyHash = fnv1a64 k, key = k, entry_value = Some s, stored = None, children = [], parents = []\<rparr>"

lemma reg_wf_new: "reg_wf NewRegistry"
  by (simp add: reg_wf_def NewRegistry_def newResultSlot_def waiting_nodes_def)

lemma lookup_new: "lookup NewRegistry = Map.empty"
  by (simp add: lookup_def reg_find_def NewRegistry_def Let_def fun_eq_iff)

lemma reg_wf_entry:
  assumes "reg_wf reg" "x \<in> set (shards reg i)"
  shows "x < entry_free reg" "keyHash (entry_at reg x) = fnv1a64 (key (entry_at reg x))" "i = shard_of (key (entry_at reg x))"
    "distinct (children (entry_at reg x))" "distinct (parents (entry_at reg x))"
    "\<exists>s. s < slot_free reg \<and> entry_value (entry_at reg x) = Some s"
  using assms by (auto simp: reg_wf_def)

lemma reg_wf_slot:
  "reg_wf reg \<Longrightarrow> x \<in> set (shards reg i) \<Longrightarrow> y \<in> set (shards reg j) \<Longrightarrow>
   entry_value (entry_at reg x) = entry_value (entry_at reg y) \<Longrightarrow> x = y"
  unfolding reg_wf_def by blast

lemma reg_find_Some:
  assumes "reg_wf reg"
  shows "reg_find k reg = Some x \<longleftrightarrow> x \<in> set (shards reg (shard_of k)) \<and> key (entry_at reg x) = k"
proof
  assume "reg_find k reg = Some x"
  then show "x \<in> set (shards reg (shard_of k)) \<and> key (entry_at reg x) = k"
    using find_Some_in by (fastforce simp: reg_find_def shard_of_def Let_def)
next
  assume x: "x \<in> set (shards reg (shard_of k)) \<and> key (entry_at reg x) = k"
  then have "reg_find k reg \<noteq> None"
    using reg_wf_entry(2) [OF assms, of x] by (auto simp: reg_find_def shard_of_def Let_def find_None_notin)
  then obtain y where y: "reg_find k reg = Some y" by blast
  then have "y \<in> set (shards reg (shard_of k)) \<and> key (entry_at reg y) = k"
    using find_Some_in by (fastforce simp: reg_find_def shard_of_def Let_def)
  with x have "y = x" using assms by (auto simp: reg_wf_def distinct_map inj_on_def)
  with y show "reg_find k reg = Some x" by simp
qed

lemma reg_find_None:
  "reg_wf reg \<Longrightarrow> reg_find k reg = None \<longleftrightarrow> (\<forall>x\<in>set (shards reg (shard_of k)). key (entry_at reg x) \<noteq> k)"
  using reg_find_Some [of reg k] by (metis not_None_eq)

lemma reg_find_in: "reg_wf reg \<Longrightarrow> reg_find k reg = Some x \<Longrightarrow> x \<in> set (shards reg (shard_of k)) \<and> key (entry_at reg x) = k"
  by (simp add: reg_find_Some)

lemma reg_find_inj: "reg_wf reg \<Longrightarrow> reg_find k reg = Some x \<Longrightarrow> reg_find k' reg = Some x \<Longrightarrow> k = k'"
  by (auto simp: reg_find_Some)

text \<open>Updates that keep the key.\<close>

lemma update_entry_fields [simp]:
  "entry_at (update_entry x f reg) y = (if y = x then f (entry_at reg x) else entry_at reg y)"
  "shards (update_entry x f reg) = shards reg" "entry_free (update_entry x f reg) = entry_free reg"
  "slot_free (update_entry x f reg) = slot_free reg" "slot_at (update_entry x f reg) = slot_at reg"
  "sleepers (update_entry x f reg) = sleepers reg"
  by (simp_all add: update_entry_def)

lemma reg_find_update [simp]:
  assumes "\<And>e. key (f e) = key e \<and> keyHash (f e) = keyHash e"
  shows "reg_find k (update_entry x f reg) = reg_find k reg"
proof -
  have "(\<lambda>y. keyHash (entry_at (update_entry x f reg) y) = h \<and> key (entry_at (update_entry x f reg) y) = k) =
        (\<lambda>y. keyHash (entry_at reg y) = h \<and> key (entry_at reg y) = k)" for h
    using assms by auto
  then show ?thesis by (simp only: reg_find_def Let_def update_entry_fields(2))
qed

lemma lookup_update:
  assumes "reg_wf reg" "reg_find a reg = Some x" "\<And>e. key (f e) = key e \<and> keyHash (f e) = keyHash e"
  shows "lookup (update_entry x f reg) = (lookup reg)(a \<mapsto> f (entry_at reg x))"
proof
  fix k
  show "lookup (update_entry x f reg) k = ((lookup reg)(a \<mapsto> f (entry_at reg x))) k"
    using assms reg_find_inj [OF assms(1,2), of k]
    by (cases "reg_find k reg") (auto simp: lookup_def)
qed

lemma reg_wf_update:
  assumes "reg_wf reg" "\<And>e. key (f e) = key e \<and> keyHash (f e) = keyHash e \<and> entry_value (f e) = entry_value e"
    "distinct (children (entry_at reg x)) \<Longrightarrow> distinct (children (f (entry_at reg x)))"
    "distinct (parents (entry_at reg x)) \<Longrightarrow> distinct (parents (f (entry_at reg x)))"
  shows "reg_wf (update_entry x f reg)"
proof -
  let ?r = "update_entry x f reg"
  have e: "key (entry_at ?r y) = key (entry_at reg y)" "keyHash (entry_at ?r y) = keyHash (entry_at reg y)"
    "entry_value (entry_at ?r y) = entry_value (entry_at reg y)"
    "distinct (children (entry_at reg y)) \<Longrightarrow> distinct (children (entry_at ?r y))"
    "distinct (parents (entry_at reg y)) \<Longrightarrow> distinct (parents (entry_at ?r y))" for y
    using assms(2-4) by auto
  show ?thesis using assms(1) unfolding reg_wf_def update_entry_fields(2-) e(1-3) using e(4,5) by blast
qed

lemma reg_getOrCreate_hit: "reg_find k reg = Some x \<Longrightarrow> reg_getOrCreate k reg = (x, reg)"
  by (simp add: reg_getOrCreate_def)

text \<open>The registry after a new entry has been put at the head of its shard.\<close>

definition inserted :: "string \<Rightarrow> 'a Registry \<Rightarrow> 'a Registry" where
  "inserted k reg =
     (let (n, reg1) = new_entry k reg in set_shard (shard_of k) (n # shards reg1 (shard_of k)) reg1)"

lemma inserted_fields:
  "shards (inserted k reg) = (shards reg)(shard_of k := entry_free reg # shards reg (shard_of k))"
  "entry_at (inserted k reg) = (entry_at reg)(entry_free reg := fresh_entry k (slot_free reg))"
  "entry_free (inserted k reg) = Suc (entry_free reg)"
  "slot_at (inserted k reg) = (slot_at reg)(slot_free reg := newResultSlot)"
  "slot_free (inserted k reg) = Suc (slot_free reg)" "sleepers (inserted k reg) = sleepers reg"
  by (simp_all add: inserted_def new_entry_def set_shard_def fresh_entry_def)

lemma reg_wf_old:
  assumes "reg_wf reg" "x \<in> set (shards reg i)"
  shows "x \<noteq> entry_free reg" "entry_value (entry_at reg x) \<noteq> Some (slot_free reg)"
    "entry_at (inserted k reg) x = entry_at reg x"
  using reg_wf_entry(1,6) [OF assms] by (auto simp: inserted_fields)

lemma inserted_entry:
  assumes "reg_wf reg" "x \<in> set (shards (inserted k reg) i)"
  shows "x = entry_free reg \<and> i = shard_of k \<and> entry_at (inserted k reg) x = fresh_entry k (slot_free reg) \<or>
    x \<in> set (shards reg i) \<and> x \<noteq> entry_free reg \<and> entry_at (inserted k reg) x = entry_at reg x"
  using assms(2) reg_wf_old [OF assms(1), of x i] by (auto simp: inserted_fields split: if_split_asm)

lemma reg_wf_inserted:
  assumes "reg_wf reg" "reg_find k reg = None"
  shows "reg_wf (inserted k reg)"
  unfolding reg_wf_def
proof (intro conjI allI ballI impI)
  let ?r = "inserted k reg"
  have keys: "map (\<lambda>x. key (entry_at ?r x)) (shards reg i) = map (\<lambda>x. key (entry_at reg x)) (shards reg i)" for i
    using reg_wf_old(3) [OF assms(1), of _ i] by simp
  have new: "k \<notin> set (map (\<lambda>x. key (entry_at reg x)) (shards reg (shard_of k)))" using assms by (auto simp: reg_find_None)
  have old: "distinct (map (\<lambda>x. key (entry_at reg x)) (shards reg i))" for i using assms(1) by (simp add: reg_wf_def)
  have kn: "key (entry_at ?r (entry_free reg)) = k" by (simp add: inserted_fields fresh_entry_def)
  show "distinct (map (\<lambda>x. key (entry_at ?r x)) (shards ?r i))" for i
  proof (cases "i = shard_of k")
    case True
    then have "map (\<lambda>x. key (entry_at ?r x)) (shards ?r i) = k # map (\<lambda>x. key (entry_at reg x)) (shards reg (shard_of k))"
      by (simp only: inserted_fields(1) fun_upd_same list.map keys kn)
    with new old show ?thesis by simp
  next
    case False
    then have same: "shards ?r i = shards reg i" by (simp add: inserted_fields)
    show ?thesis unfolding same keys by (rule old)
  qed
  show "\<exists>xs. waiting_nodes (slot_at ?r s) (sleepers ?r) xs" for s
    using assms(1) by (auto simp: reg_wf_def inserted_fields newResultSlot_def waiting_nodes_def)
  show "x < entry_free ?r" "keyHash (entry_at ?r x) = fnv1a64 (key (entry_at ?r x))" "i = shard_of (key (entry_at ?r x))"
    "distinct (children (entry_at ?r x))" "distinct (parents (entry_at ?r x))"
    "\<exists>s. s < slot_free ?r \<and> entry_value (entry_at ?r x) = Some s" if "x \<in> set (shards ?r i)" for i x
    using inserted_entry [OF assms(1) that] reg_wf_entry [OF assms(1), of x i]
    by (auto simp: fresh_entry_def inserted_fields(3,5) less_Suc_eq)
  show "x = y" if "x \<in> set (shards ?r i)" "y \<in> set (shards ?r j)" "entry_value (entry_at ?r x) = entry_value (entry_at ?r y)" for i j x y
    using inserted_entry [OF assms(1) that(1)] inserted_entry [OF assms(1) that(2)] that(3)
      reg_wf_old(2) [OF assms(1), of x i] reg_wf_old(2) [OF assms(1), of y j] reg_wf_slot [OF assms(1), of x i y j]
    by (auto simp: fresh_entry_def)
qed

lemma reg_find_inserted:
  assumes "reg_wf reg" "reg_find k reg = None"
  shows "reg_find k' (inserted k reg) = (if k' = k then Some (entry_free reg) else reg_find k' reg)"
proof -
  have "reg_find k' (inserted k reg) = Some x \<longleftrightarrow> (if k' = k then Some (entry_free reg) else reg_find k' reg) = Some x" for x
    using reg_wf_old [OF assms(1), of x "shard_of k'"] assms
    unfolding reg_find_Some [OF reg_wf_inserted [OF assms]]
    by (auto simp: reg_find_Some [OF assms(1)] reg_find_None inserted_fields fresh_entry_def)
  then show ?thesis by (metis not_None_eq)
qed

lemma reg_getOrCreate_miss:
  assumes "reg_wf reg" "reg_find k reg = None"
  shows "reg_getOrCreate k reg = (entry_free reg, inserted k reg)"
proof -
  obtain n reg1 where n: "new_entry k reg = (n, reg1)" by (cases "new_entry k reg")
  have f: "n = entry_free reg" "shards reg1 = shards reg" "entry_at reg1 = entry_at (inserted k reg)"
    using n by (auto simp: new_entry_def inserted_fields fresh_entry_def)
  have "reg_find k reg1 = None"
    using assms reg_wf_old(3) [OF assms(1)]
    by (auto simp: reg_find_None) (auto simp: reg_find_def Let_def find_None_notin f shard_of_def)
  moreover have "inserted k reg = set_shard (shard_of k) (n # shards reg1 (shard_of k)) reg1" by (simp add: inserted_def n)
  ultimately show ?thesis
    using reg_find_inserted [OF assms, of k] assms(2) n by (simp add: reg_getOrCreate_def Let_def f(1))
qed

lemma lookup_inserted:
  assumes "reg_wf reg" "reg_find k reg = None"
  shows "lookup (inserted k reg) = (lookup reg)(k \<mapsto> fresh_entry k (slot_free reg))"
proof
  fix k'
  show "lookup (inserted k reg) k' = ((lookup reg)(k \<mapsto> fresh_entry k (slot_free reg))) k'"
    using reg_find_inserted [OF assms, of k'] reg_find_in [OF assms(1), of k'] reg_wf_old(1) [OF assms(1)]
    by (cases "reg_find k' reg") (auto simp: lookup_def inserted_fields(2))
qed

text \<open>What \<^verbatim>\<open>getOrCreate\<close> promises, in both cases.\<close>

lemma getOrCreate_spec:
  assumes "reg_wf reg" "reg_getOrCreate k reg = (x, reg')"
  shows "reg_wf reg'" "reg_find k reg' = Some x" "\<And>k'. k' \<noteq> k \<Longrightarrow> lookup reg' k' = lookup reg k'"
    "\<And>k' y. reg_find k' reg = Some y \<Longrightarrow> reg_find k' reg' = Some y"
    "lookup reg' k = Some (case lookup reg k of Some e \<Rightarrow> e | None \<Rightarrow> fresh_entry k (slot_free reg))"
proof -
  consider (hit) "reg_find k reg = Some x" "reg' = reg"
    | (miss) "reg_find k reg = None" "x = entry_free reg" "reg' = inserted k reg"
    using assms(2) reg_getOrCreate_hit [of k reg] reg_getOrCreate_miss [OF assms(1), of k] by (cases "reg_find k reg") auto
  note c = this
  show "reg_wf reg'" using c assms(1) reg_wf_inserted by cases auto
  show "reg_find k reg' = Some x" using c reg_find_inserted [OF assms(1), of k k] by cases auto
  show "lookup reg' k' = lookup reg k'" if "k' \<noteq> k" for k'
    using c that lookup_inserted [OF assms(1), of k] by cases auto
  show "reg_find k' reg' = Some y" if "reg_find k' reg = Some y" for k' y
    using c that reg_find_inserted [OF assms(1), of k k'] by cases auto
  show "lookup reg' k = Some (case lookup reg k of Some e \<Rightarrow> e | None \<Rightarrow> fresh_entry k (slot_free reg))"
    using c lookup_inserted [OF assms(1), of k] by cases (auto simp: lookup_def)
qed

section \<open>The dependency graph\<close>

definition edges :: "'a Registry \<Rightarrow> (string \<times> string) set" where
  "edges reg = {(a, b). \<exists>e. lookup reg a = Some e \<and> b \<in> set (children e)}"

definition back_edges :: "'a Registry \<Rightarrow> (string \<times> string) set" where
  "back_edges reg = {(a, b). \<exists>e. lookup reg b = Some e \<and> a \<in> set (parents e)}"

lemma edges_new: "edges NewRegistry = {}" "back_edges NewRegistry = {}"
  by (simp_all add: edges_def back_edges_def lookup_new)

text \<open>The search: what has been visited is closed up to the stack and does not contain the parent, so
  everything that reaches the parent does so from the stack.\<close>

lemma leaves_visited:
  assumes "(v, p) \<in> E\<^sup>*" "v \<in> V" "p \<notin> V" "\<And>a b. a \<in> V \<Longrightarrow> (a, b) \<in> E \<Longrightarrow> b \<in> V \<union> S"
  shows "\<exists>s\<in>S - V. (s, p) \<in> E\<^sup>*"
  using assms(1,2)
proof (induction rule: converse_rtrancl_induct)
  case (step a b)
  then show ?case using assms(4) [of a b] by (cases "b \<in> V") auto
qed (use assms(3) in simp)

lemma edges_children: "reg_find a reg = Some x \<Longrightarrow> (a, b) \<in> edges reg \<longleftrightarrow> b \<in> set (children (entry_at reg x))"
  by (auto simp: edges_def lookup_def)

lemma edges_none: "reg_find a reg = None \<Longrightarrow> (a, b) \<notin> edges reg"
  by (auto simp: edges_def lookup_def)

lemma circle_loop_pop:
  assumes "stack \<noteq> []" "last stack \<noteq> p"
  shows "circle_loop reg p stack V =
    (if last stack \<in> V then circle_loop reg p (butlast stack) V
     else case reg_find (last stack) reg of None \<Rightarrow> circle_loop reg p (butlast stack) (insert (last stack) V)
          | Some x \<Rightarrow> circle_loop reg p (butlast stack @ children (entry_at reg x)) (insert (last stack) V))"
  using assms by (subst circle_loop.simps) (simp add: Let_def)

lemma reaches_through_children:
  assumes "reg_find cur reg = Some x" "cur \<noteq> p"
  shows "(cur, p) \<in> (edges reg)\<^sup>* \<longleftrightarrow> (\<exists>b\<in>set (children (entry_at reg x)). (b, p) \<in> (edges reg)\<^sup>*)"
proof
  assume "(cur, p) \<in> (edges reg)\<^sup>*"
  then show "\<exists>b\<in>set (children (entry_at reg x)). (b, p) \<in> (edges reg)\<^sup>*"
    by (rule converse_rtranclE) (use assms(2) edges_children [OF assms(1)] in auto)
qed (use edges_children [OF assms(1)] in \<open>auto intro: converse_rtrancl_into_rtrancl\<close>)

lemma circle_loop_iff:
  assumes "p \<notin> V" "\<And>a b. a \<in> V \<Longrightarrow> (a, b) \<in> edges reg \<Longrightarrow> b \<in> V \<union> set stack"
  shows "circle_loop reg p stack V \<longleftrightarrow> (\<exists>s\<in>set stack. (s, p) \<in> (edges reg)\<^sup>*)"
  using assms
proof (induction reg p stack V rule: circle_loop.induct)
  case (1 reg p stack V)
  show ?case
  proof (cases "stack = [] \<or> last stack = p")
    case True
    then show ?thesis by (cases "stack = []") (auto simp: circle_loop.simps intro!: bexI [of _ p])
  next
    case False
    define cur rest where "cur = last stack" and "rest = butlast stack"
    have "set stack = set (rest @ [cur])" using False by (simp add: cur_def rest_def)
    then have st: "set stack = insert cur (set rest)" by simp
    have cp: "cur \<noteq> p" using False by (simp add: cur_def)
    note IH = 1(1) [OF _ cur_def rest_def cp]
      and IH_none = 1(2) [OF _ cur_def rest_def cp] and IH_some = 1(3) [OF _ cur_def rest_def cp]
    have l: "circle_loop reg p stack V =
        (if cur \<in> V then circle_loop reg p rest V
         else case reg_find cur reg of None \<Rightarrow> circle_loop reg p rest (insert cur V)
              | Some x \<Rightarrow> circle_loop reg p (rest @ children (entry_at reg x)) (insert cur V))"
      unfolding cur_def rest_def using False by (intro circle_loop_pop) auto
    show ?thesis
    proof (cases "cur \<in> V")
      case True
      then have c: "b \<in> V \<union> set rest" if "a \<in> V" "(a, b) \<in> edges reg" for a b using 1(5) [OF that] st by auto
      have "circle_loop reg p rest V = (\<exists>s\<in>set rest. (s, p) \<in> (edges reg)\<^sup>*)" using IH False True 1(4) c by blast
      moreover have "\<exists>s\<in>set rest. (s, p) \<in> (edges reg)\<^sup>*" if "(cur, p) \<in> (edges reg)\<^sup>*"
        using leaves_visited [OF that True 1(4), of "set rest"] c by blast
      ultimately show ?thesis using True l st by auto
    next
      case nv: False
      have c: "b \<in> insert cur V \<union> set rest" if "a \<in> V" "(a, b) \<in> edges reg" for a b using 1(5) [OF that] st by auto
      have pn: "p \<notin> insert cur V" using 1(4) cp by simp
      show ?thesis
      proof (cases "reg_find cur reg")
        case None
        then have "circle_loop reg p rest (insert cur V) = (\<exists>s\<in>set rest. (s, p) \<in> (edges reg)\<^sup>*)"
          using IH_none [OF _ nv None pn] False c edges_none [OF None] by blast
        moreover have "(cur, p) \<notin> (edges reg)\<^sup>*" using edges_none [OF None] cp by (auto elim: converse_rtranclE)
        ultimately show ?thesis using None nv l st by auto
      next
        case (Some x)
        note ch = edges_children [OF Some]
        have "circle_loop reg p (rest @ children (entry_at reg x)) (insert cur V) =
            (\<exists>s\<in>set (rest @ children (entry_at reg x)). (s, p) \<in> (edges reg)\<^sup>*)"
          using IH_some [OF _ nv Some pn] False c ch by auto
        moreover note reaches_through_children [OF Some cp]
        ultimately show ?thesis using Some nv l st by auto
      qed
    qed
  qed
qed

lemma wouldCreateCircle_iff: "wouldCreateCircle p c reg \<longleftrightarrow> (c, p) \<in> (edges reg)\<^sup>*"
  using circle_loop_iff [of p "{}" reg "[c]"] by (simp add: wouldCreateCircle_def)

text \<open>Adding an edge in both directions.\<close>

text \<open>C32: the search of \<^verbatim>\<open>wouldCreateCircle\<close>, an explicit stack with a set of visited identifiers, always ends and answers exactly
  whether the parent can be reached from the child along the recorded edges.\<close>

theorem circle_search_is_reachability: "wouldCreateCircle p c reg \<longleftrightarrow> (c, p) \<in> (edges reg)\<^sup>*"
  by (rule wouldCreateCircle_iff)

lemma push_id_set: "set (push_id i ids) = insert i (set ids)" "distinct ids \<Longrightarrow> distinct (push_id i ids)"
  by (auto simp: push_id_def)

definition add_child :: "string \<Rightarrow> 'a RegistryEntry \<Rightarrow> 'a RegistryEntry" where
  "add_child i e = e\<lparr>children := push_id i (children e)\<rparr>"

definition add_parent :: "string \<Rightarrow> 'a RegistryEntry \<Rightarrow> 'a RegistryEntry" where
  "add_parent i e = e\<lparr>parents := push_id i (parents e)\<rparr>"

lemma link_spec:
  assumes "reg_wf reg"
  shows "reg_wf (link p c reg)" "edges (link p c reg) = insert (p, c) (edges reg)"
    "back_edges (link p c reg) = insert (p, c) (back_edges reg)"
proof -
  obtain x reg1 where g1: "reg_getOrCreate p reg = (x, reg1)" by (cases "reg_getOrCreate p reg")
  obtain y reg2 where g2: "reg_getOrCreate c reg1 = (y, reg2)" by (cases "reg_getOrCreate c reg1")
  note s1 = getOrCreate_spec [OF assms g1] and s2 = getOrCreate_spec [OF getOrCreate_spec(1) [OF assms g1] g2]
  define reg3 where "reg3 = update_entry x (add_child c) reg2"
  have keep: "key (add_child i e) = key e \<and> keyHash (add_child i e) = keyHash e \<and> entry_value (add_child i e) = entry_value e"
    "key (add_parent i e) = key e \<and> keyHash (add_parent i e) = keyHash e \<and> entry_value (add_parent i e) = entry_value e"
    for i and e :: "'a RegistryEntry"
    by (simp_all add: add_child_def add_parent_def)
  have fx: "reg_find p reg2 = Some x" using s2(4) s1(2) by blast
  have w3: "reg_wf reg3" unfolding reg3_def
    using s2(1) keep by (intro reg_wf_update) (auto simp: add_child_def push_id_set)
  have fy: "reg_find c reg3 = Some y" using s2(2) keep by (simp add: reg3_def)
  have l: "link p c reg = update_entry y (add_parent p) reg3"
    by (simp add: link_def g1 g2 reg3_def add_child_def add_parent_def [abs_def] add_child_def [abs_def])
  show "reg_wf (link p c reg)" unfolding l
    using w3 keep by (intro reg_wf_update) (auto simp: add_parent_def push_id_set)
  have l3: "lookup reg3 = (lookup reg2)(p \<mapsto> add_child c (entry_at reg2 x))"
    unfolding reg3_def using s2(1) fx keep by (intro lookup_update) auto
  have l4: "lookup (link p c reg) = (lookup reg3)(c \<mapsto> add_parent p (entry_at reg3 y))"
    unfolding l using w3 fy keep by (intro lookup_update) auto
  have old: "lookup reg2 k = lookup reg k \<or> lookup reg k = None \<and> (\<exists>s. lookup reg2 k = Some (fresh_entry k s))" for k
    using s1(3,5) s2(3,5) by (cases "k = p"; cases "k = c") (auto split: option.splits)
  have "(\<exists>e. lookup reg2 k = Some e \<and> b \<in> set (children e)) = (\<exists>e. lookup reg k = Some e \<and> b \<in> set (children e))"
    "(\<exists>e. lookup reg2 k = Some e \<and> b \<in> set (parents e)) = (\<exists>e. lookup reg k = Some e \<and> b \<in> set (parents e))" for k b
    using old [of k] by (cases "lookup reg k"; auto simp: fresh_entry_def)+
  then have e2: "edges reg2 = edges reg" "back_edges reg2 = back_edges reg" by (simp_all add: edges_def back_edges_def)
  have x2: "lookup reg2 p = Some (entry_at reg2 x)" using fx by (simp add: lookup_def)
  have y3: "lookup reg3 c = Some (entry_at reg3 y)" using fy by (simp add: lookup_def)
  have e3: "edges reg3 = insert (p, c) (edges reg2)" "back_edges reg3 = back_edges reg2"
    using x2 by (auto simp: edges_def back_edges_def l3 add_child_def push_id_set split: if_split_asm)
  show "edges (link p c reg) = insert (p, c) (edges reg)" "back_edges (link p c reg) = insert (p, c) (back_edges reg)"
    using y3 unfolding e2 [symmetric] e3 [symmetric]
    by (auto simp: edges_def back_edges_def l4 add_parent_def push_id_set e3 split: if_split_asm)
qed

text \<open>C12: dependency edges stay acyclic. On a well-formed registry whose parent-to-child edges have no cycle, the
  search of \<^verbatim>\<open>wouldCreateCircle\<close> returns; \<^verbatim>\<open>addRelationship\<close> refuses exactly those edges that would close a
  cycle, leaving the registry alone, and otherwise adds this edge and no other, in both directions,
  and the edges still have no cycle.\<close>

theorem addRelationship_acyclic:
  assumes "reg_wf reg" "acyclic (edges reg)"
  shows "case addRelationship p c reg of
           Inl e \<Rightarrow> \<not> acyclic (insert (p, c) (edges reg))
         | Inr reg' \<Rightarrow> reg_wf reg' \<and> edges reg' = insert (p, c) (edges reg) \<and>
             back_edges reg' = insert (p, c) (back_edges reg) \<and> acyclic (edges reg')"
  using link_spec [OF assms(1)] assms(2)
  by (simp add: addRelationship_def wouldCreateCircle_iff acyclic_insert)

definition sample_registry :: "nat Registry" where
  "sample_registry = link ''a'' ''b'' NewRegistry"

theorem addRelationship_acyclic_witness:
  "(\<exists>reg. addRelationship ''b'' ''c'' sample_registry = Inr reg \<and> acyclic (edges reg)) \<and>
   (\<exists>e. addRelationship ''b'' ''a'' sample_registry = Inl e)"
proof -
  have wf: "reg_wf sample_registry" and e: "edges sample_registry = {(''a'', ''b'')}"
    unfolding sample_registry_def using link_spec [OF reg_wf_new, where ?'a = nat, of "''a''" "''b''"]
    by (simp_all add: edges_def lookup_new)
  have a: "acyclic (edges sample_registry)" unfolding e by (simp add: acyclic_insert) (simp add: acyclic_def)
  have "\<not> acyclic (edges (link ''b'' ''a'' sample_registry))"
    using link_spec(2) [OF wf, of "''b''" "''a''"] e by (auto simp: acyclic_insert)
  then show ?thesis
    using addRelationship_acyclic [OF wf a, of "''b''" "''c''"] addRelationship_acyclic [OF wf a, of "''b''" "''a''"] e
    by (auto simp: addRelationship_def wouldCreateCircle_iff acyclic_insert split: if_split_asm elim: rtranclE)
qed

text \<open>\<^verbatim>\<open>registerDependent\<close> adds the same edges without the check, so that the graph can become cyclic: two jobs that
  fail to get their dependencies from each other leave a cycle of two edges behind.\<close>

theorem registerDependent_cycles:
  "\<not> acyclic (edges (registerDependent ''b'' ''a'' (registerDependent ''a'' ''b'' NewRegistry)))"
proof -
  have "edges (link ''b'' ''a'' (link ''a'' ''b'' (NewRegistry :: 'a Registry))) = {(''b'', ''a''), (''a'', ''b'')}"
    using link_spec(2) [OF reg_wf_new, where ?'a = 'a, of "''a''" "''b''"]
      link_spec(2) [OF link_spec(1) [OF reg_wf_new], where ?'a = 'a, of "''b''" "''a''" "''a''" "''b''"]
    by (simp add: edges_new)
  then show ?thesis by (auto simp: registerDependent_def acyclic_insert)
qed

section \<open>Removing edges and entries\<close>

definition less_parent :: "string \<Rightarrow> 'a RegistryEntry \<Rightarrow> 'a RegistryEntry" where
  "less_parent i e = e\<lparr>parents := drop_id i (parents e)\<rparr>"

definition less_child :: "string \<Rightarrow> 'a RegistryEntry \<Rightarrow> 'a RegistryEntry" where
  "less_child i e = e\<lparr>children := drop_id i (children e)\<rparr>"

lemma drop_id_distinct: "distinct ids \<Longrightarrow> distinct (drop_id i ids)"
  by (simp add: drop_id_def distinct_remove_first)

lemma drop_step:
  assumes "reg_wf reg"
  shows "reg_wf (drop_parent i k reg)" "reg_wf (drop_child i k reg)"
    "reg_find k' (drop_parent i k reg) = reg_find k' reg" "reg_find k' (drop_child i k reg) = reg_find k' reg"
    "lookup (drop_parent i k reg) = (lookup reg)(k := map_option (less_parent i) (lookup reg k))"
    "lookup (drop_child i k reg) = (lookup reg)(k := map_option (less_child i) (lookup reg k))"
proof -
  have keep: "key (less_parent i e) = key e \<and> keyHash (less_parent i e) = keyHash e \<and> entry_value (less_parent i e) = entry_value e"
    "key (less_child i e) = key e \<and> keyHash (less_child i e) = keyHash e \<and> entry_value (less_child i e) = entry_value e"
    for e :: "'a RegistryEntry"
    by (simp_all add: less_parent_def less_child_def)
  have d: "drop_parent i k reg = (case reg_find k reg of None \<Rightarrow> reg | Some c \<Rightarrow> update_entry c (less_parent i) reg)"
    "drop_child i k reg = (case reg_find k reg of None \<Rightarrow> reg | Some c \<Rightarrow> update_entry c (less_child i) reg)"
    by (auto simp: drop_parent_def drop_child_def less_parent_def [abs_def] less_child_def [abs_def] split: option.split)
  show "reg_wf (drop_parent i k reg)" "reg_wf (drop_child i k reg)"
    using assms keep unfolding d
    by (auto split: option.split intro!: reg_wf_update simp: less_parent_def less_child_def drop_id_distinct)
  show "reg_find k' (drop_parent i k reg) = reg_find k' reg" "reg_find k' (drop_child i k reg) = reg_find k' reg"
    using keep unfolding d by (simp_all split: option.split)
  show "lookup (drop_parent i k reg) = (lookup reg)(k := map_option (less_parent i) (lookup reg k))"
    using lookup_update [OF assms, of k _ "less_parent i"] keep unfolding d
    by (cases "reg_find k reg") (auto simp: lookup_def fun_upd_idem)
  show "lookup (drop_child i k reg) = (lookup reg)(k := map_option (less_child i) (lookup reg k))"
    using lookup_update [OF assms, of k _ "less_child i"] keep unfolding d
    by (cases "reg_find k reg") (auto simp: lookup_def fun_upd_idem)
qed

lemma drop_fold:
  assumes "reg_wf reg" "distinct ks"
  shows "reg_wf (fold (drop_parent i) ks reg) \<and> (\<forall>k. reg_find k (fold (drop_parent i) ks reg) = reg_find k reg) \<and>
      lookup (fold (drop_parent i) ks reg) = (\<lambda>k. if k \<in> set ks then map_option (less_parent i) (lookup reg k) else lookup reg k)"
    and "reg_wf (fold (drop_child i) ks reg) \<and> (\<forall>k. reg_find k (fold (drop_child i) ks reg) = reg_find k reg) \<and>
      lookup (fold (drop_child i) ks reg) = (\<lambda>k. if k \<in> set ks then map_option (less_child i) (lookup reg k) else lookup reg k)"
  using assms by (induction ks arbitrary: reg) (auto simp: drop_step fun_eq_iff)

lemma lookup_distinct:
  assumes "reg_wf reg" "lookup reg k = Some e"
  shows "distinct (children e)" "distinct (parents e)"
proof -
  obtain x where "reg_find k reg = Some x" "e = entry_at reg x" using assms(2) by (auto simp: lookup_def)
  then show "distinct (children e)" "distinct (parents e)"
    using reg_wf_entry(4,5) [OF assms(1)] reg_find_in [OF assms(1)] by blast+
qed

lemma edge_lookup:
  "lookup reg a = Some e \<Longrightarrow> (a, b) \<in> edges reg \<longleftrightarrow> b \<in> set (children e)" "lookup reg a = None \<Longrightarrow> (a, b) \<notin> edges reg"
  "lookup reg a = Some e \<Longrightarrow> (b, a) \<in> back_edges reg \<longleftrightarrow> b \<in> set (parents e)" "lookup reg a = None \<Longrightarrow> (b, a) \<notin> back_edges reg"
  by (simp_all add: edges_def back_edges_def)

lemma prune_lookup:
  assumes "reg_wf reg" "edges reg = back_edges reg" "reg_find i reg = Some x"
  shows "reg_wf (pruneDependencyEdges i reg)"
    "\<exists>e. lookup (pruneDependencyEdges i reg) i = Some (e\<lparr>children := [], parents := []\<rparr>)"
    "\<And>k. k \<noteq> i \<Longrightarrow> lookup (pruneDependencyEdges i reg) k =
      map_option (\<lambda>e. (if (k, i) \<in> edges reg then less_child i else id) ((if (i, k) \<in> edges reg then less_parent i else id) e))
        (lookup reg k)"
proof -
  have lx: "lookup reg i = Some (entry_at reg x)" using assms(3) by (simp add: lookup_def)
  define reg1 where "reg1 = fold (drop_parent i) (children (entry_at reg x)) reg"
  note f1 = drop_fold(1) [OF assms(1) lookup_distinct(1) [OF assms(1) lx], of i, folded reg1_def]
  have w1: "reg_wf reg1" and x1: "reg_find i reg1 = Some x" using f1 assms(3) by simp_all
  then have lx1: "lookup reg1 i = Some (entry_at reg1 x)" by (simp add: lookup_def)
  define reg2 where "reg2 = fold (drop_child i) (parents (entry_at reg1 x)) reg1"
  note f2 = drop_fold(2) [OF w1 lookup_distinct(2) [OF w1 lx1], of i, folded reg2_def]
  define clr where "clr e = e\<lparr>children := [], parents := []\<rparr>" for e :: "'a RegistryEntry"
  have p: "pruneDependencyEdges i reg = update_entry x clr reg2"
    by (simp add: pruneDependencyEdges_def assms(3) reg1_def reg2_def clr_def [abs_def] Let_def)
  have keep: "key (clr e) = key e \<and> keyHash (clr e) = keyHash e \<and> entry_value (clr e) = entry_value e" for e
    by (simp add: clr_def)
  show "reg_wf (pruneDependencyEdges i reg)" unfolding p using f2 keep by (intro reg_wf_update) (auto simp: clr_def)
  have lk: "lookup (pruneDependencyEdges i reg) = (lookup reg2)(i \<mapsto> clr (entry_at reg2 x))"
    unfolding p using f2 x1 keep by (intro lookup_update) auto
  then show "\<exists>e. lookup (pruneDependencyEdges i reg) i = Some (e\<lparr>children := [], parents := []\<rparr>)" by (auto simp: clr_def)
  fix k assume k: "k \<noteq> i"
  have k1: "lookup reg1 k = (if k \<in> set (children (entry_at reg x)) then map_option (less_parent i) (lookup reg k) else lookup reg k)"
    using f1 by simp
  have k2: "lookup (pruneDependencyEdges i reg) k =
      (if k \<in> set (parents (entry_at reg1 x)) then map_option (less_child i) (lookup reg1 k) else lookup reg1 k)"
    using f2 lk k by simp
  have "k \<in> set (parents (entry_at reg1 x)) \<longleftrightarrow> k \<in> set (parents (entry_at reg x))"
  proof -
    have "entry_at reg1 x = (if i \<in> set (children (entry_at reg x)) then less_parent i (entry_at reg x) else entry_at reg x)"
      using f1 lx lx1 by (simp split: if_split_asm)
    then show ?thesis using k drop_id_set [OF lookup_distinct(2) [OF assms(1) lx], of i] by (auto simp: less_parent_def)
  qed
  moreover have "(i, k) \<in> edges reg \<longleftrightarrow> k \<in> set (children (entry_at reg x))" "(k, i) \<in> edges reg \<longleftrightarrow> k \<in> set (parents (entry_at reg x))"
    using edge_lookup(1,3) [OF lx] unfolding assms(2) [symmetric] by blast+
  ultimately show "lookup (pruneDependencyEdges i reg) k =
      map_option (\<lambda>e. (if (k, i) \<in> edges reg then less_child i else id) ((if (i, k) \<in> edges reg then less_parent i else id) e))
        (lookup reg k)"
    using k1 k2 by (cases "lookup reg k") auto
qed

text \<open>Pruning an entry removes exactly the edges at it. In a registry whose two directions agree
  \<^verbatim>\<open>pruneDependencyEdges\<close> leaves the edges that do not touch the identifier, in both directions.\<close>

theorem prune_removes_edges:
  assumes "reg_wf reg" "edges reg = back_edges reg" "lookup reg i \<noteq> None"
  shows "reg_wf (pruneDependencyEdges i reg) \<and>
    edges (pruneDependencyEdges i reg) = {(a, b) \<in> edges reg. a \<noteq> i \<and> b \<noteq> i} \<and>
    back_edges (pruneDependencyEdges i reg) = edges (pruneDependencyEdges i reg)"
proof -
  obtain x where x: "reg_find i reg = Some x" using assms(3) by (auto simp: lookup_def)
  note prune = prune_lookup [OF assms(1,2) x]
  have dc: "set (drop_id i (children e)) = set (children e) - {i}" "set (drop_id i (parents e)) = set (parents e) - {i}"
    if "lookup reg k = Some e" for k e
    using lookup_distinct [OF assms(1) that] by (simp_all add: drop_id_set)
  let ?r = "pruneDependencyEdges i reg"
  obtain e0 where self: "lookup ?r i = Some (e0\<lparr>children := [], parents := []\<rparr>)" using prune(2) by blast
  have kept: "(a, b) \<in> edges ?r \<longleftrightarrow> (a, b) \<in> edges reg \<and> b \<noteq> i" "(b, a) \<in> back_edges ?r \<longleftrightarrow> (b, a) \<in> edges reg \<and> b \<noteq> i"
    if a: "a \<noteq> i" for a b
  proof -
    consider "lookup reg a = None" | e where "lookup reg a = Some e" by (cases "lookup reg a") auto
    then have "((a, b) \<in> edges ?r \<longleftrightarrow> (a, b) \<in> edges reg \<and> b \<noteq> i) \<and> ((b, a) \<in> back_edges ?r \<longleftrightarrow> (b, a) \<in> edges reg \<and> b \<noteq> i)"
    proof cases
      case 1
      then show ?thesis using edge_lookup(2,4) [OF 1] edge_lookup(2,4) [of ?r a] prune(3) [OF a] assms(2) by simp
    next
      case (2 e)
      note in_reg = edge_lookup(1,3) [OF 2, folded assms(2)]
      obtain e' where e': "lookup ?r a = Some e'"
        "set (children e') = set (children e) - {i}" "set (parents e') = set (parents e) - {i}"
        using prune(3) [OF a] 2 dc [OF 2] in_reg(1) [of i] in_reg(2) [of i]
        by (auto simp: less_child_def less_parent_def)
      show ?thesis using edge_lookup(1,3) [OF e'(1)] in_reg e'(2,3) by auto
    qed
    then show "(a, b) \<in> edges ?r \<longleftrightarrow> (a, b) \<in> edges reg \<and> b \<noteq> i" "(b, a) \<in> back_edges ?r \<longleftrightarrow> (b, a) \<in> edges reg \<and> b \<noteq> i"
      by blast+
  qed
  have "(a, b) \<in> edges ?r \<longleftrightarrow> (a, b) \<in> edges reg \<and> a \<noteq> i \<and> b \<noteq> i" for a b
    using kept(1) [of a b] edge_lookup(1) [OF self] by (cases "a = i") auto
  moreover have "(a, b) \<in> back_edges ?r \<longleftrightarrow> (a, b) \<in> edges reg \<and> a \<noteq> i \<and> b \<noteq> i" for a b
    using kept(2) [of b a] edge_lookup(3) [OF self] by (cases "b = i") auto
  ultimately show ?thesis using prune(1) by auto
qed

theorem prune_removes_edges_witness:
  "edges (pruneDependencyEdges ''b'' (link ''b'' ''c'' sample_registry)) = {}"
proof -
  have w: "reg_wf (NewRegistry :: nat Registry)" by (rule reg_wf_new)
  note l1 = link_spec [OF w, of "''a''" "''b''", folded sample_registry_def]
  note l2 = link_spec [OF l1(1), of "''b''" "''c''"]
  have "(''b'', ''c'') \<in> edges (link ''b'' ''c'' sample_registry)" unfolding l2 by simp
  then have "lookup (link ''b'' ''c'' sample_registry) ''b'' \<noteq> None" by (auto simp: edges_def)
  from prune_removes_edges [OF l2(1) _ this] show ?thesis by (auto simp: l1 l2 edges_new)
qed

lemma removeExpired_spec:
  assumes "reg_wf reg"
  shows "reg_wf (removeExpired k reg)" "lookup (removeExpired k reg) = (lookup reg)(k := None)"
    "reg_find k' (removeExpired k reg) = (if k' = k then None else reg_find k' reg)"
proof -
  let ?r = "removeExpired k reg"
  let ?i = "shard_of k" and ?P = "\<lambda>x. keyHash (entry_at reg x) = fnv1a64 k \<and> key (entry_at reg x) = k"
  have f: "shards ?r = (shards reg)(?i := remove_first ?P (shards reg ?i))" "entry_at ?r = entry_at reg"
    "entry_free ?r = entry_free reg" "slot_free ?r = slot_free reg" "slot_at ?r = slot_at reg" "sleepers ?r = sleepers reg"
    by (simp_all add: removeExpired_def set_shard_def shard_of_def Let_def)
  have sub: "set (shards ?r j) \<subseteq> set (shards reg j)" for j
    using set_remove_first_subset [of ?P "shards reg ?i"] by (auto simp: f split: if_split_asm)
  have d: "distinct (map (\<lambda>x. key (entry_at reg x)) (shards reg j))" for j using assms by (simp add: reg_wf_def)
  then have "distinct (map (\<lambda>x. key (entry_at reg x)) (shards ?r j))" for j
    by (auto simp: f distinct_map_remove_first)
  then show wf: "reg_wf ?r" using assms sub unfolding reg_wf_def f(2-6) by (meson subsetD)
  have same: "remove_first ?P (shards reg ?i) = remove_first (\<lambda>x. key (entry_at reg x) = k) (shards reg ?i)"
  proof -
    have "\<forall>x\<in>set xs. keyHash (entry_at reg x) = fnv1a64 (key (entry_at reg x)) \<Longrightarrow>
        remove_first ?P xs = remove_first (\<lambda>x. key (entry_at reg x) = k) xs" for xs by (induction xs) auto
    then show ?thesis using reg_wf_entry(2) [OF assms] by blast
  qed
  have gone: "set (remove_first ?P (shards reg ?i)) = {x \<in> set (shards reg ?i). key (entry_at reg x) \<noteq> k}"
    unfolding same using d [of ?i] by (rule set_remove_first_key)
  have "reg_find k' ?r = Some x \<longleftrightarrow> (if k' = k then None else reg_find k' reg) = Some x" for k' x
    unfolding reg_find_Some [OF wf] using reg_find_Some [OF assms, of k' x]
    by (cases "shard_of k' = ?i") (auto simp: f gone)
  then show find: "reg_find k' ?r = (if k' = k then None else reg_find k' reg)" for k' by (metis not_None_eq)
  show "lookup ?r = (lookup reg)(k := None)" by (auto simp: lookup_def find f)
qed

section \<open>Two goroutines in getOrCreate\<close>

text \<open>One call in single steps: the two lookups before the swap, the load of the head and the swap of
  \<^verbatim>\<open>prependOnce\<close>, and the lookup after it. A lookup is one step: an interleaving in which nobody
  moves during it. The new entry is allocated with the first lookup that fails.\<close>

datatype goc_pc = GFind | GAgain nat | GLoad nat | GSwap nat "nat option" | GCheck nat | GDone nat

definition goc_step :: "string \<Rightarrow> goc_pc \<times> 'a Registry \<Rightarrow> goc_pc \<times> 'a Registry" where
  "goc_step k = (\<lambda>(pc, reg).
     let i = shard_of k; first = (case shards reg i of [] \<Rightarrow> None | x # _ \<Rightarrow> Some x)
     in case pc of
          GFind \<Rightarrow> (case reg_find k reg of
                      Some x \<Rightarrow> (GDone x, reg)
                    | None \<Rightarrow> let (n, reg1) = new_entry k reg in (GAgain n, reg1))
        | GAgain n \<Rightarrow> (case reg_find k reg of Some x \<Rightarrow> (GDone x, reg) | None \<Rightarrow> (GLoad n, reg))
        | GLoad n \<Rightarrow> (GSwap n first, reg)
        | GSwap n h \<Rightarrow> if first = h then (GCheck n, set_shard i (n # shards reg i) reg) else (GAgain n, reg)
        | GCheck n \<Rightarrow> (case reg_find k reg of
                         Some x \<Rightarrow> if x \<noteq> n
                                   then (GDone x, set_shard i (remove_first (\<lambda>y. y = n) (shards reg i)) reg)
                                   else (GDone n, reg)
                       | None \<Rightarrow> (GDone n, reg))
        | GDone x \<Rightarrow> (GDone x, reg))"

fun goc_run :: "string \<Rightarrow> bool list \<Rightarrow> goc_pc \<times> goc_pc \<times> 'a Registry \<Rightarrow> goc_pc \<times> goc_pc \<times> 'a Registry" where
  "goc_run k [] (p, q, reg) = (p, q, reg)"
| "goc_run k (b # bs) (p, q, reg) =
     (if b then let (p', reg') = goc_step k (p, reg) in goc_run k bs (p', q, reg')
      else let (q', reg') = goc_step k (q, reg) in goc_run k bs (p, q', reg'))"


section \<open>Two goroutines in addRelationship\<close>

text \<open>One call in two steps: the search for a cycle, and the edge.\<close>

datatype rel_pc = RelCheck | RelLink | RelReturned "go_error option"

definition rel_step :: "string \<Rightarrow> string \<Rightarrow> rel_pc \<times> 'a Registry \<Rightarrow> rel_pc \<times> 'a Registry" where
  "rel_step parentID childID = (\<lambda>(pc, reg).
     case pc of
       RelCheck \<Rightarrow>
         (if wouldCreateCircle parentID childID reg then RelReturned (Some (AppError ''qpool: circular dependency detected'')) else RelLink, reg)
     | RelLink \<Rightarrow> (RelReturned None, link parentID childID reg)
     | RelReturned e \<Rightarrow> (RelReturned e, reg))"

lemma rel_alone:
  "rel_step p c (rel_step p c (RelCheck, reg)) = (case addRelationship p c reg of Inl e \<Rightarrow> (RelReturned (Some e), reg) | Inr reg' \<Rightarrow> (RelReturned None, reg'))"
  by (simp add: rel_step_def addRelationship_def)

text \<open>The search of one call can run before the edge of the other: then both of two calls that relate two identifiers in opposite directions return without an error, and
  the graph has a cycle.\<close>

theorem opposite_relationships_cycle:
  assumes "reg_wf reg" "(a, b) \<notin> (edges reg)\<^sup>*" "(b, a) \<notin> (edges reg)\<^sup>*"
  shows "\<exists>p1 p2 reg1 reg2. rel_step a b (RelCheck, reg) = (p1, reg) \<and> rel_step b a (RelCheck, reg) = (p2, reg) \<and>
    rel_step a b (p1, reg) = (RelReturned None, reg1) \<and> rel_step b a (p2, reg1) = (RelReturned None, reg2) \<and> \<not> acyclic (edges reg2)"
proof -
  have "edges (link b a (link a b reg)) = insert (b, a) (insert (a, b) (edges reg))"
    using link_spec(2) [OF assms(1), of a b] link_spec(2) [OF link_spec(1) [OF assms(1)], of b a a b] by simp
  then have "\<not> acyclic (edges (link b a (link a b reg)))" by (auto simp: acyclic_insert)
  then show ?thesis using assms(2,3) by (simp add: rel_step_def wouldCreateCircle_iff)
qed

end
