(* ===== verification/Broadcast.thy ===== *)
theory Broadcast
  imports Spsc_Ring Artifact_Frame
begin

text \<open>
  \<^verbatim>\<open>broadcastgroup.go\<close> and \<^verbatim>\<open>consumer.go\<close>: a group routes artifacts to the rings of its subscribers. The
  \<^verbatim>\<open>sync.Map\<close> of subscribers is an association list, whose order stands for the order of \<^verbatim>\<open>Range\<close>. A
  callback is user code: what it returns is the function in the record, and the calls made
  are the list \<open>calls\<close>. The validation \<^verbatim>\<open>errnie.Require\<close> is an argument (\<open>require_ok\<close>), and so is
  \<^verbatim>\<open>errnie.Error\<close>, which logs and returns an error; an error built by \<^verbatim>\<open>errnie.Err\<close> is its message.
  \<open>None\<close> is a call that does not return, because a ring spins. The last section runs
  a waiting consumer and its wakers in single steps.
\<close>

record 'a BroadcastConsumer =
  ring :: "'a SPSCRing"
  callback :: "('a \<Rightarrow> go_error option) option"
  consumer_sema :: nat
  wantWake :: bool

record 'a BroadcastGroup =
  bg_done :: bool
  bg_ttl :: int
  bg_ID :: string
  nextSubscriberID :: u64
  bg_dropOldest :: bool
  consumers :: "(string \<times> 'a BroadcastConsumer) list"
  calls :: "(string \<times> 'a) list"

definition NewBroadcastConsumer :: "'a SPSCRing \<Rightarrow> ('a \<Rightarrow> go_error option) option \<Rightarrow> 'a BroadcastConsumer" where
  "NewBroadcastConsumer r cb = \<lparr>ring = r, callback = cb, consumer_sema = 0, wantWake = False\<rparr>"

text \<open>\<open>ctx_done\<close>: whether the parent context has ended already.\<close>

definition NewBroadcastGroup ::
  "('a BroadcastGroup \<Rightarrow> bool) \<Rightarrow> bool \<Rightarrow> string \<Rightarrow> int \<Rightarrow> 'a BroadcastGroup option" where
  "NewBroadcastGroup require_ok ctx_done i ttl =
     (let bg = \<lparr>bg_done = ctx_done, bg_ttl = ttl, bg_ID = i, nextSubscriberID = 0, bg_dropOldest = True,
                consumers = [], calls = []\<rparr>
      in if require_ok bg then Some bg else None)"

definition Acquire_sub ::
  "string \<Rightarrow> ('a \<Rightarrow> go_error option) option \<Rightarrow> 'a BroadcastGroup \<Rightarrow> 'a BroadcastConsumer option \<times> 'a BroadcastGroup" where
  "Acquire_sub sub cb bg =
     (if bg_done bg then (None, bg)
      else case map_of (consumers bg) sub of
             Some _ \<Rightarrow> (None, bg)
           | None \<Rightarrow>
               (let c = NewBroadcastConsumer (NewSPSCRing 128 (bg_dropOldest bg)) cb
                in (Some c, bg\<lparr>consumers := consumers bg @ [(sub, c)]\<rparr>)))"

definition ring_error_text :: "ring_error \<Rightarrow> go_error" where
  "ring_error_text e = (case e of RingIsNil \<Rightarrow> AppError ''ring is nil'')"

definition Release ::
  "(go_error option \<Rightarrow> go_error option) \<Rightarrow> string \<Rightarrow> 'a BroadcastGroup \<Rightarrow> (go_error option \<times> 'a BroadcastGroup) option" where
  "Release errnie_Error sub bg =
     (case map_of (consumers bg) sub of
        None \<Rightarrow> Some (Some (AppError ''subscriber not found''), bg)
      | Some c \<Rightarrow>
          (let bg' = bg\<lparr>consumers := filter (\<lambda>p. fst p \<noteq> sub) (consumers bg)\<rparr>
           in map_option (\<lambda>r. (errnie_Error (case r of Inl e \<Rightarrow> Some (ring_error_text e) | Inr _ \<Rightarrow> None), bg'))
                (ring_Close (Some (ring c)))))"

definition consumer_Poll :: "'a BroadcastConsumer \<Rightarrow> ('a option \<times> 'a BroadcastConsumer) option" where
  "consumer_Poll c = map_option (\<lambda>(v, r). (v, c\<lparr>ring := r\<rparr>)) (ring_Pop (ring c))"

text \<open>A consumer is changed through its pointer.\<close>

definition put_consumer :: "string \<Rightarrow> 'a BroadcastConsumer \<Rightarrow> 'a BroadcastGroup \<Rightarrow> 'a BroadcastGroup" where
  "put_consumer sub c bg = bg\<lparr>consumers := map (\<lambda>p. if fst p = sub then (sub, c) else p) (consumers bg)\<rparr>"

definition Poll :: "string \<Rightarrow> 'a BroadcastGroup \<Rightarrow> (('a option \<times> bool) \<times> 'a BroadcastGroup) option" where
  "Poll sub bg =
     (case map_of (consumers bg) sub of
        None \<Rightarrow> Some ((None, False), bg)
      | Some c \<Rightarrow> map_option (\<lambda>(v, c'). ((v, v \<noteq> None), put_consumer sub c' bg)) (consumer_Poll c))"

definition wake :: "'a BroadcastConsumer \<Rightarrow> 'a BroadcastConsumer" where
  "wake c = (if \<not> wantWake c then c else c\<lparr>wantWake := False, consumer_sema := consumer_sema c + 1\<rparr>)"

text \<open>What \<^verbatim>\<open>Send\<close> does for one consumer: the pushes and the callback calls it makes. The error of a callback is
  dropped (after logging it, in the loop over all consumers).\<close>

definition hand_over :: "'a \<Rightarrow> string \<times> 'a BroadcastConsumer \<Rightarrow> ((string \<times> 'a BroadcastConsumer) \<times> (string \<times> 'a) list) option" where
  "hand_over artifact p =
     (case callback (snd p) of
        None \<Rightarrow> map_option (\<lambda>(ok, r). ((fst p, wake ((snd p)\<lparr>ring := r\<rparr>)), [])) (ring_Push (Some artifact) (ring (snd p)))
      | Some f \<Rightarrow> Some (p, [(fst p, artifact)]))"

fun hand_over_all ::
  "'a \<Rightarrow> (string \<times> 'a BroadcastConsumer) list \<Rightarrow> ((string \<times> 'a BroadcastConsumer) list \<times> (string \<times> 'a) list) option" where
  "hand_over_all artifact [] = Some ([], [])"
| "hand_over_all artifact (p # ps) =
     (case hand_over artifact p of
        None \<Rightarrow> None
      | Some (p', cs) \<Rightarrow> map_option (\<lambda>(ps', cs'). (p' # ps', cs @ cs')) (hand_over_all artifact ps))"

definition Send :: "('art, 'err) datura \<Rightarrow> 'art option \<Rightarrow> 'art BroadcastGroup \<Rightarrow> (go_error option \<times> 'art BroadcastGroup) option" where
  "Send D artifact bg =
     (case artifact of
        None \<Rightarrow> Some (Some (AppError ''artifact is nil''), bg)
      | Some a \<Rightarrow>
          if bg_done bg then Some (Some (AppError ''broadcast group context is done''), bg)
          else let (destination, err) = (case d_Destination D a of Inl e \<Rightarrow> ([], Some e) | Inr d \<Rightarrow> (d, None))
               in if err \<noteq> None \<or> destination = []
                  then case map_of (consumers bg) destination of
                         None \<Rightarrow> Some (Some (AppError ''subscriber not found''), bg)
                       | Some c \<Rightarrow>
                           map_option (\<lambda>(p, cs). (None, (put_consumer destination (snd p) bg)\<lparr>calls := calls bg @ cs\<rparr>))
                             (hand_over a (destination, c))
                  else map_option (\<lambda>(ps, cs). (None, bg\<lparr>consumers := ps, calls := calls bg @ cs\<rparr>))
                         (hand_over_all a (consumers bg)))"

fun close_rings :: "(string \<times> 'a BroadcastConsumer) list \<Rightarrow> (string \<times> 'a BroadcastConsumer) list option" where
  "close_rings [] = Some []"
| "close_rings (p # ps) =
     (case ring_Close (Some (ring (snd p))) of
        None \<Rightarrow> None
      | Some r \<Rightarrow>
          map_option ((#) (fst p, (snd p)\<lparr>ring := (case r of Inl _ \<Rightarrow> ring (snd p) | Inr r' \<Rightarrow> r')\<rparr>)) (close_rings ps))"

definition group_Close :: "'a BroadcastGroup \<Rightarrow> (go_error option \<times> 'a BroadcastGroup) option" where
  "group_Close bg =
     (if bg_done bg then Some (Some (AppError ''broadcast group context is done''), bg)
      else map_option (\<lambda>ps. (None, bg\<lparr>bg_done := True, consumers := ps\<rparr>)) (close_rings (consumers bg)))"

section \<open>A group as a family of queues\<close>

text \<open>The abstract subscriber: its callback and the queue of at most 128 artifacts it has not taken.\<close>

type_synonym 'a sub = "('a \<Rightarrow> go_error option) option \<times> 'a list"

definition deposit :: "'a \<Rightarrow> 'a sub \<Rightarrow> 'a sub" where
  "deposit a = (\<lambda>(cb, q). case cb of None \<Rightarrow> (cb, snd (queue_push 128 True a q)) | Some _ \<Rightarrow> (cb, q))"

definition notified :: "'a \<Rightarrow> (string \<times> 'a sub) list \<Rightarrow> (string \<times> 'a) list" where
  "notified a subs = map (\<lambda>p. (fst p, a)) (filter (\<lambda>p. fst (snd p) \<noteq> None) subs)"

text \<open>Whether the artifact names a destination.\<close>

definition addressed :: "('art, 'err) datura \<Rightarrow> 'art \<Rightarrow> bool" where
  "addressed D a \<longleftrightarrow> (case d_Destination D a of Inl _ \<Rightarrow> False | Inr d \<Rightarrow> d \<noteq> [])"

datatype 'a bg_op = OpAcquire string "('a \<Rightarrow> go_error option) option" | OpSend "'a option" | OpPoll string

datatype 'a bg_result = Acquired bool | Sent "go_error option" | Polled "'a option"

fun bg_step :: "('art, 'err) datura \<Rightarrow> 'art bg_op \<Rightarrow> 'art BroadcastGroup \<Rightarrow> ('art bg_result \<times> 'art BroadcastGroup) option" where
  "bg_step D (OpAcquire i cb) bg = Some (map_prod (\<lambda>c. Acquired (c \<noteq> None)) id (Acquire_sub i cb bg))"
| "bg_step D (OpSend a) bg = map_option (map_prod Sent id) (Send D a bg)"
| "bg_step D (OpPoll i) bg = map_option (map_prod (\<lambda>r. Polled (fst r)) id) (Poll i bg)"

fun spec_step ::
  "('art, 'err) datura \<Rightarrow> 'art bg_op \<Rightarrow> (string \<times> 'art sub) list \<times> (string \<times> 'art) list \<Rightarrow>
   'art bg_result \<times> (string \<times> 'art sub) list \<times> (string \<times> 'art) list" where
  "spec_step D (OpAcquire i cb) (subs, seen) =
     (if map_of subs i = None then (Acquired True, subs @ [(i, cb, [])], seen) else (Acquired False, subs, seen))"
| "spec_step D (OpSend None) (subs, seen) = (Sent (Some (AppError ''artifact is nil'')), subs, seen)"
| "spec_step D (OpSend (Some a)) (subs, seen) =
     (if addressed D a then (Sent None, map (\<lambda>p. (fst p, deposit a (snd p))) subs, seen @ notified a subs)
      else case map_of subs [] of
             None \<Rightarrow> (Sent (Some (AppError ''subscriber not found'')), subs, seen)
           | Some s \<Rightarrow> (Sent None, map (\<lambda>p. if fst p = [] then ([], deposit a s) else p) subs, seen @ notified a [([], s)]))"
| "spec_step D (OpPoll i) (subs, seen) =
     (case map_of subs i of
        None \<Rightarrow> (Polled None, subs, seen)
      | Some (cb, q) \<Rightarrow>
          (Polled (fst (queue_pop q)), map (\<lambda>p. if fst p = i then (i, cb, snd (queue_pop q)) else p) subs, seen))"

fun bg_run :: "('art, 'err) datura \<Rightarrow> 'art bg_op list \<Rightarrow> 'art BroadcastGroup \<Rightarrow> ('art bg_result list \<times> 'art BroadcastGroup) option" where
  "bg_run D [] bg = Some ([], bg)"
| "bg_run D (op # ops) bg =
     (case bg_step D op bg of
        None \<Rightarrow> None
      | Some (r, bg') \<Rightarrow> map_option (map_prod ((#) r) id) (bg_run D ops bg'))"

fun spec_run ::
  "('art, 'err) datura \<Rightarrow> 'art bg_op list \<Rightarrow> (string \<times> 'art sub) list \<times> (string \<times> 'art) list \<Rightarrow>
   'art bg_result list \<times> (string \<times> 'art sub) list \<times> (string \<times> 'art) list" where
  "spec_run D [] st = ([], st)"
| "spec_run D (op # ops) st = (let (r, st') = spec_step D op st; (rs, st'') = spec_run D ops st' in (r # rs, st''))"

text \<open>Subscribers correspond one by one; \<open>n\<close> bounds what has gone through a ring so far.\<close>

definition sub_rel :: "nat \<Rightarrow> string \<times> 'a BroadcastConsumer \<Rightarrow> string \<times> 'a sub \<Rightarrow> bool" where
  "sub_rel n p p' \<longleftrightarrow>
     fst p = fst p' \<and> callback (snd p) = fst (snd p') \<and> dropOldestOnFull (ring (snd p)) \<and>
     (\<exists>t. ring_holds 7 t (snd (snd p')) (ring (snd p)) \<and> t + length (snd (snd p')) \<le> n)"

definition group_rel :: "nat \<Rightarrow> 'a BroadcastGroup \<Rightarrow> (string \<times> 'a sub) list \<times> (string \<times> 'a) list \<Rightarrow> bool" where
  "group_rel n bg st \<longleftrightarrow>
     \<not> bg_done bg \<and> bg_dropOldest bg \<and> distinct (map fst (fst st)) \<and> list_all2 (sub_rel n) (consumers bg) (fst st) \<and> calls bg = snd st"

lemma sub_rel_mono: "sub_rel n p p' \<Longrightarrow> n \<le> m \<Longrightarrow> sub_rel m p p'"
  by (auto simp: sub_rel_def intro: order_trans)

lemma subs_rel_mono: "list_all2 (sub_rel n) ps subs \<Longrightarrow> n \<le> m \<Longrightarrow> list_all2 (sub_rel m) ps subs"
  by (erule list_all2_mono) (rule sub_rel_mono)

lemma wake_fields [simp]: "ring (wake c) = ring c" "callback (wake c) = callback c"
  by (simp_all add: wake_def)

lemma hand_over_rel:
  assumes "sub_rel n p p'" "Suc n < 2 ^ 64"
  shows "\<exists>q. hand_over a p = Some (q, notified a [p']) \<and> sub_rel (Suc n) q (fst p', deposit a (snd p'))"
proof -
  obtain cb q where p': "p' = (fst p, cb, q)" "callback (snd p) = cb" using assms(1) by (cases p') (auto simp: sub_rel_def)
  obtain t where t: "ring_holds 7 t q (ring (snd p))" "t + length q \<le> n" "dropOldestOnFull (ring (snd p))"
    using assms(1) p' by (auto simp: sub_rel_def)
  show ?thesis
  proof (cases cb)
    case (Some f)
    then show ?thesis using p' t by (auto simp: hand_over_def notified_def deposit_def sub_rel_def intro: exI [of _ t])
  next
    case None
    let ?q = "snd (queue_push 128 True a q)"
    obtain r t' where r: "ring_Push (Some a) (ring (snd p)) = Some (fst (queue_push (2 ^ 7) True a q), r)"
      "ring_holds 7 t' ?q r" "t' + length ?q \<le> Suc (t + length q)" "dropOldestOnFull r"
      using ring_Push_refines [OF t(1), of a] t assms(2) by auto
    have "t' + length ?q \<le> Suc n" using r(3) t(2) by simp
    with None r p' show ?thesis
      by (auto simp: hand_over_def notified_def deposit_def sub_rel_def intro!: exI [of _ t'])
  qed
qed

lemma hand_over_all_rel:
  assumes "list_all2 (sub_rel n) ps subs" "Suc n < 2 ^ 64"
  shows "\<exists>qs. hand_over_all a ps = Some (qs, notified a subs) \<and>
    list_all2 (sub_rel (Suc n)) qs (map (\<lambda>p. (fst p, deposit a (snd p))) subs)"
  using assms(1)
proof (induction rule: list_all2_induct)
  case (Cons p ps p' subs)
  obtain q where "hand_over a p = Some (q, notified a [p'])" "sub_rel (Suc n) q (fst p', deposit a (snd p'))"
    using hand_over_rel [OF Cons.hyps(1) assms(2)] by blast
  with Cons.IH show ?case by (auto simp: notified_def)
qed (simp add: notified_def)

lemma map_of_rel:
  assumes "list_all2 (sub_rel n) ps subs"
  shows "rel_option (\<lambda>c s. sub_rel n (i, c) (i, s)) (map_of ps i) (map_of subs i)"
  using assms by (induction rule: list_all2_induct) (auto simp: sub_rel_def)

text \<open>Replacing one subscriber on both sides.\<close>

lemma put_rel:
  assumes "list_all2 (sub_rel n) ps subs" "sub_rel m (i, c) (i, s)" "n \<le> m"
  shows "list_all2 (sub_rel m) (map (\<lambda>p. if fst p = i then (i, c) else p) ps) (map (\<lambda>p. if fst p = i then (i, s) else p) subs)"
  using assms(1)
proof (induction rule: list_all2_induct)
  case (Cons p ps p' subs)
  then show ?case using assms(2,3) sub_rel_mono [of n p p' m] by (auto simp: sub_rel_def [of n p p'])
qed simp

lemma send_rel:
  assumes "group_rel n bg (subs, seen)" "Suc n < 2 ^ 64"
  shows "\<exists>bg'. bg_step D (OpSend (Some a)) bg = Some (fst (spec_step D (OpSend (Some a)) (subs, seen)), bg') \<and>
    group_rel (Suc n) bg' (snd (spec_step D (OpSend (Some a)) (subs, seen)))"
proof (cases "addressed D a")
  case True
  then obtain d where d: "d_Destination D a = Inr d" "d \<noteq> []" by (auto simp: addressed_def split: sum.splits)
  obtain qs where "hand_over_all a (consumers bg) = Some (qs, notified a subs)"
    "list_all2 (sub_rel (Suc n)) qs (map (\<lambda>p. (fst p, deposit a (snd p))) subs)"
    using hand_over_all_rel [of n "consumers bg" subs a] assms by (auto simp: group_rel_def)
  with True d assms show ?thesis by (auto simp: Send_def group_rel_def comp_def)
next
  case False
  then have dest: "(case d_Destination D a of Inl e \<Rightarrow> ([], Some e) | Inr d \<Rightarrow> (d, None)) =
      ([], case_sum Some (\<lambda>_. None) (d_Destination D a))"
    by (auto simp: addressed_def split: sum.splits)
  have rel: "list_all2 (sub_rel n) (consumers bg) subs" using assms(1) by (simp add: group_rel_def)
  show ?thesis
  proof (cases "map_of subs []")
    case None
    then have "map_of (consumers bg) [] = None" using map_of_rel [OF rel, of "[]"] by simp
    with None False dest assms show ?thesis
      by (auto simp: Send_def group_rel_def intro: subs_rel_mono)
  next
    case (Some s)
    then obtain c where c: "map_of (consumers bg) [] = Some c" "sub_rel n ([], c) ([], s)"
      using map_of_rel [OF rel, of "[]"] by (auto simp: option_rel_Some2)
    obtain q where q: "hand_over a ([], c) = Some (q, notified a [([], s)])" "sub_rel (Suc n) q ([], deposit a s)"
      using hand_over_rel [OF c(2) assms(2), of a] by auto
    then have "q = ([], snd q)" by (cases q) (simp add: sub_rel_def)
    with q put_rel [OF rel, of "Suc n" "[]" "snd q" "deposit a s"] Some c(1) False dest assms show ?thesis
      by (auto simp: Send_def group_rel_def put_consumer_def comp_def if_distrib cong: if_cong)
  qed
qed

lemma consumer_Poll_rel:
  assumes "sub_rel n (i, c) (i, cb, q)"
  shows "\<exists>r. consumer_Poll c = Some (fst (queue_pop q), c\<lparr>ring := r\<rparr>) \<and> sub_rel (Suc n) (i, c\<lparr>ring := r\<rparr>) (i, cb, snd (queue_pop q))"
proof -
  obtain t where c: "callback c = cb" "dropOldestOnFull (ring c)" "ring_holds 7 t q (ring c)" "t + length q \<le> n"
    using assms by (auto simp: sub_rel_def)
  obtain r where r: "ring_Pop (ring c) = Some (fst (queue_pop q), r)"
    "ring_holds 7 (t + length q - length (snd (queue_pop q))) (snd (queue_pop q)) r" "dropOldestOnFull r"
    using ring_Pop_refines [OF c(3)] c(2) by auto
  have "length (snd (queue_pop q)) \<le> length q" by (simp add: queue_pop_def split: list.split)
  then show ?thesis using r c(1,4) by (intro exI [of _ r]) (auto simp: sub_rel_def consumer_Poll_def)
qed

lemma bg_step_rel:
  assumes "group_rel n bg st" "Suc n < 2 ^ 64"
  shows "\<exists>bg'. bg_step D op bg = Some (fst (spec_step D op st), bg') \<and> group_rel (Suc n) bg' (snd (spec_step D op st))"
proof -
  obtain subs seen where st: "st = (subs, seen)" by (cases st)
  have rel: "list_all2 (sub_rel n) (consumers bg) subs" using assms(1) by (simp add: group_rel_def st)
  note up = subs_rel_mono [OF rel, of "Suc n"]
  show ?thesis
  proof (cases op)
    case (OpSend a)
    then show ?thesis using send_rel [of n bg subs seen D] assms up
      by (cases a) (auto simp: st Send_def group_rel_def)
  next
    case (OpAcquire i cb)
    have new: "sub_rel (Suc n) (i, NewBroadcastConsumer (NewSPSCRing 128 True) cb) (i, cb, [])"
      using ring_holds_new [of 7 True] by (auto simp: sub_rel_def NewBroadcastConsumer_def intro: exI [of _ 0])
    show ?thesis
    proof (cases "map_of subs i")
      case None
      then have "map_of (consumers bg) i = None" using map_of_rel [OF rel, of i] by simp
      moreover have "i \<notin> fst ` set subs" using None by (simp add: map_of_eq_None_iff)
      ultimately show ?thesis using None OpAcquire assms(1) up new
        by (auto simp: st Acquire_sub_def group_rel_def Let_def intro: list_all2_appendI)
    next
      case (Some s)
      then obtain c where "map_of (consumers bg) i = Some c" using map_of_rel [OF rel, of i] by (auto simp: option_rel_Some2)
      with Some OpAcquire assms(1) up show ?thesis by (auto simp: st Acquire_sub_def group_rel_def)
    qed
  next
    case (OpPoll i)
    show ?thesis
    proof (cases "map_of subs i")
      case None
      then have "map_of (consumers bg) i = None" using map_of_rel [OF rel, of i] by simp
      with None OpPoll assms(1) up show ?thesis by (auto simp: st Poll_def group_rel_def)
    next
      case (Some s)
      obtain cb q where s: "s = (cb, q)" by (cases s)
      obtain c where c: "map_of (consumers bg) i = Some c" "sub_rel n (i, c) (i, cb, q)"
        using map_of_rel [OF rel, of i] Some by (auto simp: option_rel_Some2 sub_rel_def s)
      from consumer_Poll_rel [OF c(2)] obtain r where r: "consumer_Poll c = Some (fst (queue_pop q), c\<lparr>ring := r\<rparr>)"
        "sub_rel (Suc n) (i, c\<lparr>ring := r\<rparr>) (i, cb, snd (queue_pop q))" by blast
      from put_rel [OF rel r(2)] r(1) c(1) Some s OpPoll assms(1) show ?thesis
        by (auto simp: st Poll_def group_rel_def put_consumer_def comp_def if_distrib cong: if_cong)
    qed
  qed
qed

text \<open>C14: a broadcast group is a family of bounded queues. Any sequence of fewer than \<open>2 ^ 64\<close> subscriptions, sends and
  polls on a new group returns, with the results of the abstract group: each subscriber without a callback receives
  the artifacts sent to it in order, the oldest ones dropped when more than 128 wait; each callback is called once
  per artifact; a second subscription under a name is refused.\<close>

theorem group_refines_queues:
  assumes "NewBroadcastGroup require_ok False i ttl = Some bg" "length ops < 2 ^ 64 - 1"
  shows "\<exists>bg'. bg_run D ops bg = Some (fst (spec_run D ops ([], [])), bg') \<and> calls bg' = snd (snd (spec_run D ops ([], [])))"
proof -
  have "\<exists>bg'. bg_run D ops bg = Some (fst (spec_run D ops st), bg') \<and> calls bg' = snd (snd (spec_run D ops st))"
    if "group_rel n bg st" "n + length ops < 2 ^ 64 - 1" for n bg st
    using that
  proof (induction ops arbitrary: n bg st)
    case (Cons op ops)
    obtain bg1 where "bg_step D op bg = Some (fst (spec_step D op st), bg1)" "group_rel (Suc n) bg1 (snd (spec_step D op st))"
      using bg_step_rel [OF Cons.prems(1), of D op] Cons.prems(2) by auto
    with Cons.IH [of "Suc n" bg1 "snd (spec_step D op st)"] Cons.prems(2) show ?case
      by (auto simp: case_prod_unfold Let_def)
  qed (simp add: group_rel_def)
  from this [of 0 bg "([], [])"] assms show ?thesis
    by (auto simp: group_rel_def NewBroadcastGroup_def Let_def split: if_split_asm)
qed

definition plain_message :: "string \<Rightarrow> envelope" where
  "plain_message d = \<lparr>env_attrs = (\<lambda>_. []), env_payload = [], env_error = None, env_scope = [], env_origin = [], env_dest = d, env_role = []\<rparr>"

theorem group_refines_queues_witness:
  "\<exists>bg bg'. NewBroadcastGroup (\<lambda>_. True) False ''g'' 60 = Some bg \<and>
     bg_run envelopes [OpAcquire ''x'' None, OpAcquire ''x'' None, OpSend (Some (plain_message ''d'')), OpPoll ''x'', OpPoll ''x''] bg =
       Some ([Acquired True, Acquired False, Sent None, Polled (Some (plain_message ''d'')), Polled None], bg')"
proof -
  obtain bg where "NewBroadcastGroup (\<lambda>_. True) False ''g'' 60 = Some (bg :: envelope BroadcastGroup)"
    by (simp add: NewBroadcastGroup_def Let_def)
  with group_refines_queues [OF this, of "[OpAcquire ''x'' None, OpAcquire ''x'' None, OpSend (Some (plain_message ''d'')), OpPoll ''x'', OpPoll ''x'']" envelopes]
  show ?thesis
    by (auto simp: addressed_def envelopes_def plain_message_def deposit_def queue_push_def queue_pop_def)
qed

text \<open>The routing test of \<^verbatim>\<open>Send\<close> is the wrong way round. An artifact that names a destination is pushed to every
  subscriber, whatever that name is; one that names none is refused, unless somebody subscribed under
  the empty name.\<close>

theorem send_ignores_destination:
  assumes "group_rel n bg (subs, seen)" "Suc n < 2 ^ 64"
  shows "\<exists>bg'. Send D (Some a) bg =
      Some (if addressed D a \<or> map_of subs [] \<noteq> None then None else Some (AppError ''subscriber not found''), bg') \<and>
      (addressed D a \<longrightarrow> group_rel (Suc n) bg' (map (\<lambda>p. (fst p, deposit a (snd p))) subs, seen @ notified a subs)) \<and>
      (\<not> addressed D a \<and> map_of subs [] = None \<longrightarrow> group_rel (Suc n) bg' (subs, seen))"
  using send_rel [OF assms, of D a] by (cases "addressed D a"; cases "map_of subs []") auto

theorem send_ignores_destination_witness:
  "\<exists>bg bg'. group_rel 0 bg ([(''x'', None, []), (''y'', None, [])], []) \<and>
     Send envelopes (Some (plain_message ''x'')) bg = Some (None, bg') \<and>
     group_rel 1 bg' ([(''x'', None, [plain_message ''x'']), (''y'', None, [plain_message ''x''])], [])"
proof -
  have sub: "sub_rel 0 (i, NewBroadcastConsumer (NewSPSCRing 128 True) None) (i, None, [])" for i :: string
    using ring_holds_new [of 7 True] by (auto simp: sub_rel_def NewBroadcastConsumer_def intro: exI [of _ 0])
  let ?c = "NewBroadcastConsumer (NewSPSCRing 128 True) None :: envelope BroadcastConsumer"
  let ?bg = "\<lparr>bg_done = False, bg_ttl = 0, bg_ID = [], nextSubscriberID = 0, bg_dropOldest = True,
      consumers = [(''x'', ?c), (''y'', ?c)], calls = []\<rparr>"
  have g: "group_rel 0 ?bg ([(''x'', None, []), (''y'', None, [])], [])" by (simp add: group_rel_def sub)
  from send_ignores_destination [OF g, of envelopes "plain_message ''x''"] g show ?thesis
    by (auto simp: addressed_def envelopes_def plain_message_def deposit_def queue_push_def notified_def)
qed

end
