(* ===== verification/Consumer_Wait.thy ===== *)
theory Consumer_Wait
  imports Broadcast
begin

text \<open>
  \<^verbatim>\<open>consumer.go\<close> under interleaving: the one goroutine that waits on a consumer and any number of goroutines that
  push into its ring and wake it. The ring is the bounded queue it was shown to be, with one push or pop a
  step; the flag \<^verbatim>\<open>wantWake\<close> and the semaphore are accessed as in the source, each load, store and
  compare-and-swap a step. The watcher that \<^verbatim>\<open>context.AfterFunc\<close> starts is a waker that pushes nothing.
\<close>

datatype 'a cons_pc =
    COut
  | CGot 'a
  | CFail go_error
  | CPop
  | CCtx
  | CArm
  | CCheck
  | CCheckCtx
  | CReclaim
  | CAbsorb
  | CSleep

datatype 'a wake_pc = WIdle | WPush 'a | WLoad | WCas | WRelease

record 'a consumer_sys =
  queue :: "'a list"
  want :: bool
  permits :: nat
  cons :: "'a cons_pc"
  wakers :: "nat \<Rightarrow> 'a wake_pc"

definition consumer_init :: "'a consumer_sys" where
  "consumer_init = \<lparr>queue = [], want = False, permits = 0, cons = COut, wakers = (\<lambda>_. WIdle)\<rparr>"

text \<open>\<^verbatim>\<open>park\<close>, and \<^verbatim>\<open>Wait\<close> around it; \<open>ctx_err\<close> is what \<^verbatim>\<open>ctx.Err()\<close> returns at this moment.\<close>

definition park_move :: "go_error option \<Rightarrow> 'a consumer_sys \<Rightarrow> 'a consumer_sys" where
  "park_move ctx_err s =
     (case cons s of
        CArm \<Rightarrow> s\<lparr>want := True, cons := CCheck\<rparr>
      | CCheck \<Rightarrow> (if queue s \<noteq> [] then s\<lparr>cons := CReclaim\<rparr> else s\<lparr>cons := CCheckCtx\<rparr>)
      | CCheckCtx \<Rightarrow> (if ctx_err \<noteq> None then s\<lparr>cons := CReclaim\<rparr> else s\<lparr>cons := CSleep\<rparr>)
      | CReclaim \<Rightarrow> (if want s then s\<lparr>want := False, cons := CPop\<rparr> else s\<lparr>cons := CAbsorb\<rparr>)
      | CAbsorb \<Rightarrow> (if 0 < permits s then s\<lparr>permits := permits s - 1, cons := CPop\<rparr> else s)
      | CSleep \<Rightarrow> (if 0 < permits s then s\<lparr>permits := permits s - 1, cons := CPop\<rparr> else s)
      | _ \<Rightarrow> s)"

definition cons_move :: "go_error option \<Rightarrow> 'a consumer_sys \<Rightarrow> 'a consumer_sys" where
  "cons_move ctx_err s =
     (case cons s of
        COut \<Rightarrow> s
      | CGot v \<Rightarrow> s
      | CFail e \<Rightarrow> s
      | CPop \<Rightarrow> (case queue_pop (queue s) of
                   (Some v, q) \<Rightarrow> s\<lparr>queue := q, cons := CGot v\<rparr>
                 | (None, q) \<Rightarrow> s\<lparr>cons := CCtx\<rparr>)
      | CCtx \<Rightarrow> (case ctx_err of Some e \<Rightarrow> s\<lparr>cons := CFail e\<rparr> | None \<Rightarrow> s\<lparr>cons := CArm\<rparr>)
      | _ \<Rightarrow> park_move ctx_err s)"

definition wgoto :: "nat \<Rightarrow> 'a wake_pc \<Rightarrow> 'a consumer_sys \<Rightarrow> 'a consumer_sys" where
  "wgoto j pc s = s\<lparr>wakers := (wakers s)(j := pc)\<rparr>"

text \<open>The push of \<^verbatim>\<open>Send\<close> and then \<^verbatim>\<open>wake\<close>.\<close>

definition wake_move :: "nat \<Rightarrow> 'a consumer_sys \<Rightarrow> 'a consumer_sys" where
  "wake_move j s =
     (case wakers s j of
        WIdle \<Rightarrow> s
      | WPush v \<Rightarrow> wgoto j WLoad (s\<lparr>queue := snd (queue_push 128 True v (queue s))\<rparr>)
      | WLoad \<Rightarrow> wgoto j (if want s then WCas else WIdle) s
      | WCas \<Rightarrow> (if want s then wgoto j WRelease (s\<lparr>want := False\<rparr>) else wgoto j WIdle s)
      | WRelease \<Rightarrow> wgoto j WIdle (s\<lparr>permits := permits s + 1\<rparr>))"

datatype 'a cons_act = StartWait | ConsMove "go_error option" | StartSend nat 'a | StartWake nat | WakeMove nat

fun cons_do :: "'a cons_act \<Rightarrow> 'a consumer_sys \<Rightarrow> 'a consumer_sys" where
  "cons_do StartWait s = (case cons s of COut \<Rightarrow> s\<lparr>cons := CPop\<rparr> | CGot v \<Rightarrow> s\<lparr>cons := CPop\<rparr> | CFail e \<Rightarrow> s\<lparr>cons := CPop\<rparr> | _ \<Rightarrow> s)"
| "cons_do (ConsMove c) s = cons_move c s"
| "cons_do (StartSend j v) s = (case wakers s j of WIdle \<Rightarrow> wgoto j (WPush v) s | _ \<Rightarrow> s)"
| "cons_do (StartWake j) s = (case wakers s j of WIdle \<Rightarrow> wgoto j WLoad s | _ \<Rightarrow> s)"
| "cons_do (WakeMove j) s = wake_move j s"

definition cons_run :: "'a cons_act list \<Rightarrow> 'a consumer_sys" where
  "cons_run acts = fold cons_do acts consumer_init"

section \<open>One wake-up per arming\<close>

text \<open>Between arming and taking the permit the consumer owns one token, which is the flag, a permit or a
  waker about to release; at all other times there is none.\<close>

fun armed :: "'a cons_pc \<Rightarrow> bool" where
  "armed CCheck = True"
| "armed CCheckCtx = True"
| "armed CReclaim = True"
| "armed CAbsorb = True"
| "armed CSleep = True"
| "armed _ = False"

definition releasers :: "'a consumer_sys \<Rightarrow> nat set" where
  "releasers s = {j. wakers s j = WRelease}"

definition token_inv :: "'a consumer_sys \<Rightarrow> bool" where
  "token_inv s \<longleftrightarrow>
     (if armed (cons s)
      then want s \<and> permits s = 0 \<and> releasers s = {} \<or> \<not> want s \<and> permits s = 1 \<and> releasers s = {} \<or>
           \<not> want s \<and> permits s = 0 \<and> (\<exists>j. releasers s = {j})
      else \<not> want s \<and> permits s = 0 \<and> releasers s = {}) \<and>
     (cons s = CAbsorb \<longrightarrow> \<not> want s)"

text \<open>A sleeper whose flag is still up has seen an empty ring, and whoever has pushed since is on the way to the flag.\<close>

definition pending_inv :: "'a consumer_sys \<Rightarrow> bool" where
  "pending_inv s \<longleftrightarrow>
     (cons s = CCheckCtx \<or> cons s = CSleep \<longrightarrow> want s \<longrightarrow> queue s \<noteq> [] \<longrightarrow> (\<exists>j. wakers s j = WLoad \<or> wakers s j = WCas))"

lemma releasers_wgoto:
  "pc \<noteq> WRelease \<Longrightarrow> releasers (wgoto j pc s) = releasers s - {j}" "releasers (wgoto j WRelease s) = insert j (releasers s)"
  by (auto simp: releasers_def wgoto_def)

lemma releasers_upd [simp]:
  "releasers (s\<lparr>want := w\<rparr>) = releasers s" "releasers (s\<lparr>permits := p\<rparr>) = releasers s"
  "releasers (s\<lparr>cons := c\<rparr>) = releasers s" "releasers (s\<lparr>queue := q\<rparr>) = releasers s"
  by (simp_all add: releasers_def)

lemma wgoto_fields [simp]:
  "want (wgoto j pc s) = want s" "permits (wgoto j pc s) = permits s" "cons (wgoto j pc s) = cons s" "queue (wgoto j pc s) = queue s"
  by (simp_all add: wgoto_def)

lemma token_cons: "token_inv s \<Longrightarrow> token_inv (cons_move c s)"
  unfolding token_inv_def
  by (cases "cons s") (auto simp: cons_move_def park_move_def queue_pop_def split: option.split list.split)

lemma token_wake:
  assumes "token_inv s"
  shows "token_inv (wake_move j s)"
proof (cases "wakers s j")
  case WRelease
  then have "j \<in> releasers s" by (simp add: releasers_def)
  with assms WRelease show ?thesis by (auto simp: token_inv_def wake_move_def releasers_wgoto split: if_split_asm)
next
  case WCas
  then have "j \<notin> releasers s" by (simp add: releasers_def)
  with assms WCas show ?thesis by (auto simp: token_inv_def wake_move_def releasers_wgoto split: if_split_asm)
next
  case WLoad
  then have "releasers s - {j} = releasers s" by (auto simp: releasers_def)
  with assms WLoad show ?thesis by (simp add: token_inv_def wake_move_def releasers_wgoto del: One_nat_def)
next
  case (WPush v)
  then have "releasers s - {j} = releasers s" by (auto simp: releasers_def)
  with assms WPush show ?thesis by (simp add: token_inv_def wake_move_def releasers_wgoto del: One_nat_def)
qed (use assms in \<open>simp add: wake_move_def\<close>)

lemma queue_push_nonempty: "snd (queue_push c True v q) \<noteq> []"
  by (simp add: queue_push_def)

lemma pending_cons: "pending_inv s \<Longrightarrow> pending_inv (cons_move c s)"
  unfolding pending_inv_def
  by (cases "cons s") (auto simp: cons_move_def park_move_def queue_pop_def split: option.split list.split)

lemma pending_wake:
  assumes "pending_inv s"
  shows "pending_inv (wake_move j s)"
proof -
  have here: "pending_inv t" if "wakers t j = WLoad \<or> wakers t j = WCas" for t :: "'a consumer_sys"
    using that by (auto simp: pending_inv_def)
  have other: "pending_inv (wgoto j WIdle t)" if "cons t = cons s" "queue t = queue s" "want t = want s" "wakers t = wakers s"
    "\<not> want s \<or> wakers s j \<noteq> WLoad \<and> wakers s j \<noteq> WCas" for t
  proof -
    have "\<exists>k. wakers (wgoto j WIdle t) k = WLoad \<or> wakers (wgoto j WIdle t) k = WCas"
      if "want s" "wakers s k = WLoad \<or> wakers s k = WCas" for k
      using that \<open>\<not> want s \<or> _\<close> \<open>wakers t = wakers s\<close> by (intro exI [of _ k]) (auto simp: wgoto_def)
    then show ?thesis using assms that by (auto simp: pending_inv_def)
  qed
  show ?thesis
  proof (cases "wakers s j")
    case WCas
    then show ?thesis using other [of s] by (auto simp: wake_move_def) (simp add: pending_inv_def)
  qed (use assms other here in \<open>auto simp: wake_move_def wgoto_def [of j WLoad] wgoto_def [of j WCas]\<close>)
qed

definition cons_inv :: "'a consumer_sys \<Rightarrow> bool" where
  "cons_inv s \<longleftrightarrow> token_inv s \<and> pending_inv s"

lemma cons_inv_do:
  assumes "cons_inv s"
  shows "cons_inv (cons_do a s)"
proof -
  have t: "token_inv s" and p: "pending_inv s" using assms by (simp_all add: cons_inv_def)
  have begin_waker: "cons_inv (wgoto j pc s)" if "wakers s j = WIdle" "pc \<noteq> WRelease" for j pc
  proof -
    have "releasers s - {j} = releasers s" using that by (auto simp: releasers_def)
    then have "token_inv (wgoto j pc s)" using t that by (simp add: token_inv_def releasers_wgoto del: One_nat_def)
    moreover have "\<exists>k. wakers (wgoto j pc s) k = WLoad \<or> wakers (wgoto j pc s) k = WCas" if "wakers s k = WLoad \<or> wakers s k = WCas" for k
      using that \<open>wakers s j = WIdle\<close> by (intro exI [of _ k]) (auto simp: wgoto_def)
    then have "pending_inv (wgoto j pc s)" using p by (auto simp: pending_inv_def)
    ultimately show ?thesis by (simp add: cons_inv_def)
  qed
  have enter: "cons_inv (s\<lparr>cons := CPop\<rparr>)" if "\<not> armed (cons s)"
    using t that by (simp add: cons_inv_def token_inv_def pending_inv_def)
  show ?thesis
    using assms begin_waker enter token_cons [OF t] token_wake [OF t] pending_cons [OF p] pending_wake [OF p]
    by (cases a) (auto simp: cons_inv_def split: cons_pc.split wake_pc.split)
qed

lemma cons_inv_run: "cons_inv (cons_run acts)"
proof -
  have "cons_inv (fold cons_do acts s)" if "cons_inv s" for s :: "'a consumer_sys"
    using that by (induction acts arbitrary: s) (simp_all add: cons_inv_do)
  moreover have "cons_inv (consumer_init :: 'a consumer_sys)"
    by (simp add: consumer_init_def cons_inv_def token_inv_def pending_inv_def releasers_def)
  ultimately show ?thesis by (simp add: cons_run_def)
qed

text \<open>C15: a consumer never sleeps on a value. Whatever the interleaving of the waiting goroutine with any number of senders and
  context watchers, the semaphore never holds more than one permit, as the comment on \<^verbatim>\<open>wake\<close> promises; and
  when the consumer is asleep although its ring holds a value and no sender is still on its way, the permit is
  there: its next two steps take it and return the oldest value.\<close>

theorem consumer_wakes:
  fixes acts :: "'a cons_act list"
  defines "s \<equiv> cons_run acts"
  shows "permits s \<le> 1 \<and>
    (cons s = CSleep \<and> queue s \<noteq> [] \<and> (\<forall>j. wakers s j = WIdle) \<longrightarrow>
       permits s = 1 \<and> cons (cons_move c' (cons_move c s)) = CGot (hd (queue s)))"
proof (intro conjI impI; (elim conjE)?)
  have inv: "token_inv s" "pending_inv s" using cons_inv_run [of acts] by (simp_all add: s_def cons_inv_def)
  show "permits s \<le> 1" using inv(1) by (auto simp: token_inv_def split: if_split_asm)
  assume a: "cons s = CSleep" "queue s \<noteq> []" "\<forall>j. wakers s j = WIdle"
  have "\<not> want s" using inv(2) a by (auto simp: pending_inv_def)
  moreover have "releasers s = {}" using a(3) by (simp add: releasers_def)
  ultimately show p: "permits s = 1" using inv(1) a(1) by (simp add: token_inv_def)
  then show "cons (cons_move c' (cons_move c s)) = CGot (hd (queue s))"
    using a(1,2) by (auto simp: cons_move_def park_move_def queue_pop_def split: list.split)
qed

definition sleeps_then_sent :: "nat cons_act list" where
  "sleeps_then_sent = StartWait # replicate 5 (ConsMove None) @ StartSend 3 7 # replicate 4 (WakeMove 3)"

theorem consumer_wakes_witness:
  "let s = cons_run sleeps_then_sent
   in cons s = CSleep \<and> permits s = 1 \<and> cons (cons_move None (cons_move None s)) = CGot 7"
proof -
  have s: "cons_run sleeps_then_sent = \<lparr>queue = [7], want = False, permits = 1, cons = CSleep, wakers = (\<lambda>_. WIdle)\<rparr>"
    by (auto simp: sleeps_then_sent_def cons_run_def consumer_init_def cons_move_def park_move_def wake_move_def wgoto_def queue_pop_def
        queue_push_def numeral_eq_Suc)
  from consumer_wakes [of sleeps_then_sent None None] show ?thesis by (simp add: s Let_def)
qed

end
