(* ===== verification/QSpace.thy ===== *)
theory QSpace
  imports Registry Broadcast
begin

text \<open>
  \<^verbatim>\<open>qspace.go\<close>: the space that stores job results, hands out waits, holds the broadcast groups and expires
  results. An operation on a stopped space returns early; the reads of \<^verbatim>\<open>stopped\<close> before and after
  \<^verbatim>\<open>getOrCreate\<close> see the same value when the operation runs alone, which is how it is modelled here. \<open>None\<close> is an
  operation that does not return. The identifier drawn by \<^verbatim>\<open>uuid.New\<close> is an argument, and so is the clock.
  The space's own context is never cancelled. The maintenance goroutine is the function \<open>qs_cleanup\<close>, once per
  interval, and the flag \<open>maintDone\<close>.
\<close>

record 'a QSpace =
  qs_ID :: string
  entries :: "'a Registry"
  groups :: "(string \<times> 'a BroadcastGroup option) list"
  stopped :: bool
  cleanupInterval :: int
  maintDone :: bool

definition NewQSpace :: "string \<Rightarrow> 'a QSpace" where
  "NewQSpace uuid =
     \<lparr>qs_ID = uuid, entries = NewRegistry, groups = [], stopped = False, cleanupInterval = minute, maintDone = False\<rparr>"

text \<open>The common end of \<^verbatim>\<open>Store\<close> and \<^verbatim>\<open>StoreError\<close>.\<close>

definition put_artifact :: "string \<Rightarrow> 'a \<Rightarrow> 'a QSpace \<Rightarrow> 'a QSpace option" where
  "put_artifact i artifact qs =
     (let (x, reg) = reg_getOrCreate i (entries qs);
          reg1 = update_entry x (\<lambda>e. e\<lparr>stored := Some artifact\<rparr>) reg
      in map_option (\<lambda>reg2. qs\<lparr>entries := reg2\<rparr>) (on_slot (Deliver (Some artifact)) x reg1))"

definition Store ::
  "('art, 'err) datura \<Rightarrow> 'v codec \<Rightarrow> string \<Rightarrow> 'v any_value \<Rightarrow> int \<Rightarrow> 'art QSpace \<Rightarrow> 'art QSpace option" where
  "Store D J i v ttl qs =
     (if stopped qs then Some qs
      else case newResultArtifact D J i v ttl of
             Inl _ \<Rightarrow> Some qs
           | Inr artifact \<Rightarrow> put_artifact i artifact qs)"

definition StoreError ::
  "('art, 'err) datura \<Rightarrow> 'v codec \<Rightarrow> string \<Rightarrow> go_error option \<Rightarrow> int \<Rightarrow> 'art QSpace \<Rightarrow> 'art QSpace option" where
  "StoreError D J i terminalErr ttl qs =
     (if stopped qs then Some qs
      else case newErrorArtifact D J i terminalErr ttl of
             Inl _ \<Rightarrow> Some qs
           | Inr artifact \<Rightarrow> put_artifact i artifact qs)"

definition Await :: "('art, 'err) datura \<Rightarrow> 'v codec \<Rightarrow> string \<Rightarrow> 'art QSpace \<Rightarrow> 'art ResultWait \<times> 'art QSpace" where
  "Await D J i qs =
     (if stopped qs then (errorResultWait D J (Some errResultClosed), qs)
      else let (x, reg) = reg_getOrCreate i (entries qs); qs' = qs\<lparr>entries := reg\<rparr>; e = entry_at reg x
           in case stored e of
                Some a \<Rightarrow> (readyResultWait (Some a), qs')
              | None \<Rightarrow>
                  (case entry_value e of
                     None \<Rightarrow> (errorResultWait D J (Some errResultClosed), qs')
                   | Some s \<Rightarrow>
                       if state (slot_at reg s) = slotReady \<and> stored e \<noteq> None then (readyResultWait (stored e), qs')
                       else (pendingResultWait (Some s), qs')))"

definition space_PeekResult :: "('art, 'err) datura \<Rightarrow> string \<Rightarrow> 'art QSpace \<Rightarrow> 'art option \<times> bool" where
  "space_PeekResult D i qs =
     (if stopped qs then (None, False)
      else case reg_find i (entries qs) of
             None \<Rightarrow> (None, False)
           | Some x \<Rightarrow>
               (case stored (entry_at (entries qs) x) of
                  None \<Rightarrow> (None, False)
                | Some a \<Rightarrow> (cloneArtifact D (Some a), True)))"

definition Exists :: "string \<Rightarrow> 'a QSpace \<Rightarrow> bool" where
  "Exists i qs =
     (if stopped qs then False
      else case reg_find i (entries qs) of None \<Rightarrow> False | Some x \<Rightarrow> stored (entry_at (entries qs) x) \<noteq> None)"

definition AddRelationship :: "string \<Rightarrow> string \<Rightarrow> 'a QSpace \<Rightarrow> go_error option \<times> 'a QSpace" where
  "AddRelationship parentID childID qs =
     (if stopped qs then (Some (AppError ''qpool: space closed''), qs)
      else case addRelationship parentID childID (entries qs) of
             Inl e \<Rightarrow> (Some e, qs)
           | Inr reg \<Rightarrow> (None, qs\<lparr>entries := reg\<rparr>))"

definition RegisterDependent :: "string \<Rightarrow> string \<Rightarrow> 'a QSpace \<Rightarrow> 'a QSpace" where
  "RegisterDependent depID jobID qs =
     (if stopped qs then qs else qs\<lparr>entries := registerDependent depID jobID (entries qs)\<rparr>)"

text \<open>\<^verbatim>\<open>LoadOrStore\<close> keeps the group that is there; the new one, made in any case, may be nil.\<close>

definition CreateBroadcastGroup :: "('a BroadcastGroup \<Rightarrow> bool) \<Rightarrow> string \<Rightarrow> 'a QSpace \<Rightarrow> 'a BroadcastGroup option \<times> 'a QSpace" where
  "CreateBroadcastGroup require_ok i qs =
     (let fresh = NewBroadcastGroup require_ok False i minute
      in case map_of (groups qs) i of
           Some g \<Rightarrow> (g, qs)
         | None \<Rightarrow> (fresh, qs\<lparr>groups := groups qs @ [(i, fresh)]\<rparr>))"

text \<open>A call on a nil group panics.\<close>

definition Subscribe ::
  "('a BroadcastGroup \<Rightarrow> bool) \<Rightarrow> string \<Rightarrow> string \<Rightarrow> ('a \<Rightarrow> go_error option) option \<Rightarrow> 'a QSpace \<Rightarrow>
   ('a BroadcastConsumer option \<times> 'a QSpace) option" where
  "Subscribe require_ok uuid groupID cb qs =
     (case CreateBroadcastGroup require_ok groupID qs of
        (None, _) \<Rightarrow> None
      | (Some g, qs1) \<Rightarrow>
          (let (c, g') = Acquire_sub uuid cb g
           in Some (c, qs1\<lparr>groups := map (\<lambda>p. if fst p = groupID then (groupID, Some g') else p) (groups qs1)\<rparr>)))"

fun close_groups :: "(string \<times> 'a BroadcastGroup option) list \<Rightarrow> (string \<times> 'a BroadcastGroup option) list option" where
  "close_groups [] = Some []"
| "close_groups ((i, g) # gs) =
     (case g of
        None \<Rightarrow> None
      | Some bg \<Rightarrow>
          (case group_Close bg of
             None \<Rightarrow> None
           | Some (_, bg') \<Rightarrow> map_option ((#) (i, Some bg')) (close_groups gs)))"

text \<open>\<^verbatim>\<open>Close\<close> waits for the maintenance loop, which ends within one poll of \<^verbatim>\<open>stopped\<close>.\<close>

definition space_Close :: "'a QSpace \<Rightarrow> 'a QSpace option" where
  "space_Close qs =
     (if stopped qs then Some qs
      else let qs1 = qs\<lparr>stopped := True, maintDone := True\<rparr>
           in case closeAll (entries qs1) of
                None \<Rightarrow> None
              | Some reg \<Rightarrow> map_option (\<lambda>gs. qs1\<lparr>entries := reg, groups := gs\<rparr>) (close_groups (groups qs1)))"

definition expired :: "('art, 'err) datura \<Rightarrow> int \<Rightarrow> 'art RegistryEntry \<Rightarrow> bool" where
  "expired D now e =
     (case stored e of
        None \<Rightarrow> False
      | Some a \<Rightarrow> let ttl = artifactTTL D (Some a) in \<not> ttl \<le> 0 \<and> \<not> since now (d_Timestamp D a) \<le> ttl)"

definition cleanup_entry :: "('art, 'err) datura \<Rightarrow> int \<Rightarrow> nat \<Rightarrow> 'art Registry \<Rightarrow> 'art Registry" where
  "cleanup_entry D now x reg =
     (if \<not> expired D now (entry_at reg x) then reg
      else let reg1 = update_entry x (\<lambda>e. e\<lparr>stored := None\<rparr>) reg;
               k = key (entry_at reg1 x)
           in pruneDependencyEdges k (removeExpired k reg1))"

definition cleanup_shard :: "('art, 'err) datura \<Rightarrow> int \<Rightarrow> nat \<Rightarrow> 'art Registry \<Rightarrow> 'art Registry" where
  "cleanup_shard D now i reg = fold (cleanup_entry D now) (shards reg i) reg"

definition qs_cleanup :: "('art, 'err) datura \<Rightarrow> int \<Rightarrow> 'art QSpace \<Rightarrow> 'art QSpace" where
  "qs_cleanup D now qs = qs\<lparr>entries := fold (cleanup_shard D now) [0..<registryShardCount] (entries qs)\<rparr>"

text \<open>One round of the maintenance loop: \<open>elapsed\<close> tells that the interval passed before \<^verbatim>\<open>stopped\<close> was set.\<close>

definition loop_round :: "('art, 'err) datura \<Rightarrow> bool \<Rightarrow> int \<Rightarrow> 'art QSpace \<Rightarrow> bool \<times> 'art QSpace" where
  "loop_round D elapsed now qs =
     (if stopped qs then (False, qs\<lparr>maintDone := True\<rparr>)
      else if \<not> elapsed then (True, qs) else (True, qs_cleanup D now qs))"

section \<open>Operations on slots\<close>

lemma reg_wf_stacks: "reg_wf reg \<Longrightarrow> \<exists>xs. waiting_nodes (slot_at reg s) (sleepers reg) xs"
  by (simp add: reg_wf_def)

text \<open>What the space relies on when it calls a slot: the call returns and leaves every stack of sleepers well formed.\<close>

locale slot_op =
  fixes f :: "'a resultSlot \<Rightarrow> waiter_heap \<Rightarrow> ('a resultSlot \<times> waiter_heap) option"
  assumes op_returns: "waiting_nodes sl m xs \<Longrightarrow>
    \<exists>sl' m'. f sl m = Some (sl', m') \<and> (\<forall>y. waiter_next (waiter_at m' y) = waiter_next (waiter_at m y)) \<and> (\<exists>ys. waiting_nodes sl' m' ys)"
begin

lemma on_slot_returns:
  assumes "reg_wf reg" "x \<in> set (shards reg i)"
  shows "\<exists>s m reg'. entry_value (entry_at reg x) = Some s \<and> on_slot f x reg = Some reg' \<and> reg_wf reg' \<and>
    shards reg' = shards reg \<and> entry_at reg' = entry_at reg \<and> f (slot_at reg s) (sleepers reg) = Some (slot_at reg' s, m) \<and>
    (\<forall>s'. s' \<noteq> s \<longrightarrow> slot_at reg' s' = slot_at reg s')"
proof -
  obtain s where s: "entry_value (entry_at reg x) = Some s" using reg_wf_entry(6) [OF assms] by blast
  obtain xs where "waiting_nodes (slot_at reg s) (sleepers reg) xs" using reg_wf_stacks [OF assms(1)] by blast
  then obtain sl m ys where f: "f (slot_at reg s) (sleepers reg) = Some (sl, m)"
    "\<And>y. waiter_next (waiter_at m y) = waiter_next (waiter_at (sleepers reg) y)" "waiting_nodes sl m ys"
    using op_returns by blast
  define reg' where "reg' = reg\<lparr>slot_at := (slot_at reg)(s := sl), sleepers := m\<rparr>"
  have "\<exists>zs. waiting_nodes (slot_at reg s') m zs" for s'
    using reg_wf_stacks [OF assms(1), of s'] f(2) by (simp add: waiting_nodes_def)
  then have "reg_wf reg'" using assms(1) f(3) by (auto simp: reg_wf_def reg'_def)
  then show ?thesis using s f(1) by (auto simp: on_slot_def reg'_def intro!: exI [of _ m])
qed

end

interpretation deliver: slot_op "Deliver v" for v
  using Deliver_effect by unfold_locales blast

interpretation slot_close: slot_op slot_Close
  using slot_Close_effect by unfold_locales blast

section \<open>The space as a map of results\<close>

definition space_view :: "'a QSpace \<Rightarrow> string \<rightharpoonup> 'a" where
  "space_view qs k = Option.bind (lookup (entries qs) k) stored"

definition slot_agrees :: "'a Registry \<Rightarrow> 'a RegistryEntry \<Rightarrow> bool" where
  "slot_agrees reg e \<longleftrightarrow>
     (\<exists>s. entry_value e = Some s \<and>
       (case stored e of
          None \<Rightarrow> state (slot_at reg s) = slotPending
        | Some a \<Rightarrow> state (slot_at reg s) = slotReady \<and> slot_value (slot_at reg s) = Some a))"

lemma slot_agrees_cong:
  "slot_at reg' = slot_at reg \<Longrightarrow> entry_value e' = entry_value e \<Longrightarrow> stored e' = stored e \<Longrightarrow>
   slot_agrees reg' e' \<longleftrightarrow> slot_agrees reg e"
  by (cases "stored e") (simp_all add: slot_agrees_def)

definition qs_inv :: "'a QSpace \<Rightarrow> bool" where
  "qs_inv qs \<longleftrightarrow> reg_wf (entries qs) \<and> \<not> stopped qs \<and>
     (\<forall>k e. lookup (entries qs) k = Some e \<longrightarrow> slot_agrees (entries qs) e)"

lemma qs_inv_new: "qs_inv (NewQSpace i)" "space_view (NewQSpace i) = Map.empty"
  by (simp_all add: qs_inv_def NewQSpace_def reg_wf_new lookup_new space_view_def fun_eq_iff)

lemma slot_owner:
  assumes "reg_wf reg" "lookup reg k = Some e" "lookup reg k' = Some e'" "entry_value e = entry_value e'"
  shows "k = k'"
proof -
  obtain x y where x: "reg_find k reg = Some x" "e = entry_at reg x" and y: "reg_find k' reg = Some y" "e' = entry_at reg y"
    using assms(2,3) by (auto simp: lookup_def)
  have "x = y"
    using reg_wf_slot [OF assms(1)] reg_find_in [OF assms(1) x(1)] reg_find_in [OF assms(1) y(1)] assms(4) x(2) y(2) by blast
  then show ?thesis using reg_find_inj [OF assms(1) x(1)] y(1) by simp
qed

lemma lookup_slot_old: "reg_wf reg \<Longrightarrow> lookup reg k = Some e \<Longrightarrow> \<exists>s. s < slot_free reg \<and> entry_value e = Some s"
  using reg_wf_entry(6) reg_find_in by (fastforce simp: lookup_def)

lemma lookup_cong: "shards reg' = shards reg \<Longrightarrow> entry_at reg' = entry_at reg \<Longrightarrow> lookup reg' = lookup reg"
  by (rule ext) (simp add: lookup_def reg_find_def)

text \<open>Looking up or creating an entry does not change what is stored.\<close>

lemma getOrCreate_slots:
  assumes "reg_wf reg" "reg_getOrCreate k reg = (x, reg')"
  shows "s < slot_free reg \<Longrightarrow> slot_at reg' s = slot_at reg s"
    and "lookup reg k = None \<Longrightarrow> slot_at reg' (slot_free reg) = newResultSlot"
proof -
  consider "reg' = reg" "lookup reg k \<noteq> None" | "reg' = inserted k reg"
    using assms(2) reg_getOrCreate_hit [of k reg] reg_getOrCreate_miss [OF assms(1), of k] by (cases "reg_find k reg") (auto simp: lookup_def)
  then show "s < slot_free reg \<Longrightarrow> slot_at reg' s = slot_at reg s"
    "lookup reg k = None \<Longrightarrow> slot_at reg' (slot_free reg) = newResultSlot"
    by (cases; simp add: inserted_fields)+
qed

lemma getOrCreate_inv:
  assumes "qs_inv qs" "reg_getOrCreate k (entries qs) = (x, reg)"
  shows "qs_inv (qs\<lparr>entries := reg\<rparr>)" "space_view (qs\<lparr>entries := reg\<rparr>) = space_view qs"
proof -
  have wf: "reg_wf (entries qs)" using assms(1) by (simp add: qs_inv_def)
  note sp = getOrCreate_spec [OF wf assms(2)]
  have old: "lookup reg k' = lookup (entries qs) k' \<or>
      k' = k \<and> lookup (entries qs) k = None \<and> lookup reg k = Some (fresh_entry k (slot_free (entries qs)))" for k'
    using sp(3) [of k'] sp(5) by (cases "k' = k"; cases "lookup (entries qs) k") auto
  have "slot_agrees reg e" if "lookup reg k' = Some e" for k' e
    using old [of k']
  proof
    assume "lookup reg k' = lookup (entries qs) k'"
    with that have l: "lookup (entries qs) k' = Some e" by simp
    then obtain s where "s < slot_free (entries qs)" "entry_value e = Some s" using lookup_slot_old [OF wf] by blast
    moreover have "slot_agrees (entries qs) e" using assms(1) l by (simp add: qs_inv_def)
    ultimately show ?thesis using getOrCreate_slots(1) [OF wf assms(2), of s]
      by (simp add: slot_agrees_def cong: option.case_cong)
  next
    assume "k' = k \<and> lookup (entries qs) k = None \<and> lookup reg k = Some (fresh_entry k (slot_free (entries qs)))"
    then show ?thesis using that getOrCreate_slots(2) [OF wf assms(2)]
      by (auto simp: slot_agrees_def fresh_entry_def newResultSlot_def)
  qed
  then show "qs_inv (qs\<lparr>entries := reg\<rparr>)" using assms(1) sp(1) by (auto simp: qs_inv_def)
  show "space_view (qs\<lparr>entries := reg\<rparr>) = space_view qs"
  proof
    show "space_view (qs\<lparr>entries := reg\<rparr>) k' = space_view qs k'" for k'
      using old [of k'] by (auto simp: space_view_def fresh_entry_def)
  qed
qed

lemma put_artifact_spec:
  assumes "qs_inv qs"
  shows "\<exists>qs' s. put_artifact i a qs = Some qs' \<and> qs_inv qs' \<and> space_view qs' = (space_view qs)(i \<mapsto> a) \<and>
    (\<exists>e. lookup (entries qs') i = Some e \<and> entry_value e = Some s) \<and>
    state (slot_at (entries qs') s) = slotReady \<and> slot_value (slot_at (entries qs') s) = Some a \<and>
    (\<forall>e. lookup (entries qs) i = Some e \<longrightarrow> entry_value e = Some s)"
proof -
  obtain x reg where g: "reg_getOrCreate i (entries qs) = (x, reg)" by (cases "reg_getOrCreate i (entries qs)")
  have wf0: "reg_wf (entries qs)" using assms by (simp add: qs_inv_def)
  note sp = getOrCreate_spec [OF wf0 g]
  have inv: "qs_inv (qs\<lparr>entries := reg\<rparr>)" and view: "space_view (qs\<lparr>entries := reg\<rparr>) = space_view qs"
    using getOrCreate_inv [OF assms g] by auto
  define put where "put = (\<lambda>e :: 'a RegistryEntry. e\<lparr>stored := Some a\<rparr>)"
  have keep: "key (put e) = key e \<and> keyHash (put e) = keyHash e \<and> entry_value (put e) = entry_value e" for e by (simp add: put_def)
  define reg1 where "reg1 = update_entry x put reg"
  have wf1: "reg_wf reg1" unfolding reg1_def using sp(1) keep by (intro reg_wf_update) (auto simp: put_def)
  have l1: "lookup reg1 = (lookup reg)(i \<mapsto> put (entry_at reg x))"
    unfolding reg1_def using sp(1,2) keep by (intro lookup_update) auto
  have "x \<in> set (shards reg1 (shard_of i))" using reg_find_in [OF sp(1,2)] by (simp add: reg1_def)
  from deliver.on_slot_returns [OF wf1 this, of "Some a"] obtain s m reg2 where
    r: "entry_value (entry_at reg1 x) = Some s" "on_slot (Deliver (Some a)) x reg1 = Some reg2" "reg_wf reg2"
      "shards reg2 = shards reg1" "entry_at reg2 = entry_at reg1" "Deliver (Some a) (slot_at reg1 s) (sleepers reg1) = Some (slot_at reg2 s, m)"
      "\<And>s'. s' \<noteq> s \<Longrightarrow> slot_at reg2 s' = slot_at reg1 s'" by blast
  have lx: "lookup reg i = Some (entry_at reg x)" using sp(2) by (simp add: lookup_def)
  have sx: "entry_value (entry_at reg x) = Some s" using r(1) keep by (simp add: reg1_def)
  have "slot_agrees reg (entry_at reg x)" using inv lx by (auto simp: qs_inv_def)
  then have "state (slot_at reg1 s) \<noteq> slotClosed" using sx by (auto simp: slot_agrees_def reg1_def split: option.splits)
  moreover obtain ws where "waiting_nodes (slot_at reg1 s) (sleepers reg1) ws" using reg_wf_stacks [OF wf1] by blast
  ultimately have rdy: "state (slot_at reg2 s) = slotReady" "slot_value (slot_at reg2 s) = Some a"
    using Deliver_effect [of "slot_at reg1 s" "sleepers reg1" ws "Some a"] r(6) by (cases "state (slot_at reg1 s)"; auto)+
  have l2: "lookup reg2 = lookup reg1" using r(4,5) by (rule lookup_cong)
  have "slot_agrees reg2 e" if "lookup reg2 k = Some e" for k e
  proof (cases "k = i")
    case True
    then show ?thesis using that l2 l1 sx keep rdy by (auto simp: slot_agrees_def put_def)
  next
    case False
    then have le: "lookup reg k = Some e" using that l1 l2 by simp
    then have "slot_agrees reg e" using inv by (auto simp: qs_inv_def)
    moreover have "entry_value e \<noteq> Some s" using slot_owner [OF sp(1) le lx] sx False by auto
    ultimately show ?thesis using r(7) by (auto simp: slot_agrees_def reg1_def cong: option.case_cong)
  qed
  then have inv2: "qs_inv (qs\<lparr>entries := reg2\<rparr>)" using r(3) assms by (auto simp: qs_inv_def)
  have "space_view (qs\<lparr>entries := reg2\<rparr>) = (space_view qs)(i \<mapsto> a)"
    using view by (auto simp: fun_eq_iff space_view_def l2 l1 put_def)
  moreover have "entry_value e = Some s" if "lookup (entries qs) i = Some e" for e
    using sp(5) that lx sx by simp
  ultimately show ?thesis
    using inv2 rdy r(1,2) l2 l1 keep sx
    by (intro exI [of _ "qs\<lparr>entries := reg2\<rparr>"] exI [of _ s]) (simp add: put_artifact_def g reg1_def put_def)
qed

section \<open>Expiry\<close>

lemma cleanup_entry_spec:
  assumes "reg_wf reg" "x \<in> set (shards reg i)" "reg' = cleanup_entry D now x reg"
  shows "reg_wf reg'" "slot_at reg' = slot_at reg"
    "lookup reg' = (if expired D now (entry_at reg x) then (lookup reg)(key (entry_at reg x) := None) else lookup reg)"
    "\<And>y. y \<noteq> x \<Longrightarrow> entry_at reg' y = entry_at reg y"
    "\<And>y. y \<noteq> x \<Longrightarrow> y \<in> set (shards reg j) \<Longrightarrow> y \<in> set (shards reg' j)"
proof -
  let ?k = "key (entry_at reg x)"
  define clr where "clr = (\<lambda>e :: 'a RegistryEntry. e\<lparr>stored := None\<rparr>)"
  have keep: "key (clr e) = key e \<and> keyHash (clr e) = keyHash e \<and> entry_value (clr e) = entry_value e" for e by (simp add: clr_def)
  define reg1 where "reg1 = update_entry x clr reg"
  have wf1: "reg_wf reg1" unfolding reg1_def using assms(1) keep by (intro reg_wf_update) (auto simp: clr_def)
  have fx: "reg_find ?k reg = Some x"
    using reg_find_Some [OF assms(1)] reg_wf_entry(3) [OF assms(1,2)] assms(2) by auto
  note ex = removeExpired_spec [OF wf1, where k = ?k]
  have "pruneDependencyEdges ?k (removeExpired ?k reg1) = removeExpired ?k reg1"
    using ex(3) [where k' = ?k] by (simp add: pruneDependencyEdges_def)
  then have r: "reg' = (if expired D now (entry_at reg x) then removeExpired ?k reg1 else reg)"
    by (simp add: assms(3) cleanup_entry_def reg1_def clr_def Let_def keep)
  have l1: "lookup reg1 = (lookup reg)(?k \<mapsto> clr (entry_at reg x))"
    unfolding reg1_def using assms(1) fx keep by (intro lookup_update) auto
  show "reg_wf reg'" using r ex(1) assms(1) by simp
  show "slot_at reg' = slot_at reg" by (simp add: r removeExpired_def set_shard_def Let_def reg1_def)
  show "lookup reg' = (if expired D now (entry_at reg x) then (lookup reg)(?k := None) else lookup reg)"
    using r ex(2) l1 by simp
  show "entry_at reg' y = entry_at reg y" if "y \<noteq> x" for y
    using that by (simp add: r removeExpired_def set_shard_def Let_def reg1_def)
  show "y \<in> set (shards reg' j)" if y: "y \<noteq> x" "y \<in> set (shards reg j)" for y
  proof -
    have "key (entry_at reg y) \<noteq> ?k"
      using y(1) reg_find_Some [OF assms(1), of ?k y] fx reg_wf_entry(3) [OF assms(1) y(2)] y(2) by auto
    then have "reg_find (key (entry_at reg y)) (removeExpired ?k reg1) = reg_find (key (entry_at reg y)) reg"
      unfolding ex(3) by (simp add: reg1_def keep)
    moreover have "reg_find (key (entry_at reg y)) reg = Some y"
      using reg_find_Some [OF assms(1)] reg_wf_entry(3) [OF assms(1) y(2)] y(2) by auto
    ultimately show ?thesis
      using reg_find_in [OF ex(1), of "key (entry_at reg y)" y] reg_wf_entry(3) [OF assms(1) y(2)] y(2) r by auto
  qed
qed

lemma cleanup_fold_spec:
  assumes "reg_wf reg" "distinct xs" "\<And>x. x \<in> set xs \<Longrightarrow> x \<in> set (shards reg i)"
  shows "reg_wf (fold (cleanup_entry D now) xs reg) \<and> slot_at (fold (cleanup_entry D now) xs reg) = slot_at reg \<and>
    lookup (fold (cleanup_entry D now) xs reg) =
      (\<lambda>k. if \<exists>x\<in>set xs. key (entry_at reg x) = k \<and> expired D now (entry_at reg x) then None else lookup reg k)"
  using assms
proof (induction xs arbitrary: reg)
  case (Cons x xs)
  let ?r = "cleanup_entry D now x reg"
  have "x \<in> set (shards reg i)" using Cons.prems(3) by simp
  note sp = cleanup_entry_spec [OF Cons.prems(1) this refl, where D = D and now = now]
  have same: "entry_at ?r y = entry_at reg y" if "y \<in> set xs" for y using that Cons.prems(2) by (intro sp(4)) auto
  have "reg_wf (fold (cleanup_entry D now) xs ?r) \<and> slot_at (fold (cleanup_entry D now) xs ?r) = slot_at ?r \<and>
    lookup (fold (cleanup_entry D now) xs ?r) =
      (\<lambda>k. if \<exists>y\<in>set xs. key (entry_at ?r y) = k \<and> expired D now (entry_at ?r y) then None else lookup ?r k)"
  proof (rule Cons.IH [OF sp(1)])
    show "y \<in> set (shards ?r i)" if "y \<in> set xs" for y
      using that Cons.prems(2,3) by (intro sp(5)) auto
  qed (use Cons.prems(2) in simp)
  then show ?case using same sp(2,3) by (auto simp: fun_eq_iff)
qed simp

lemma cleanup_shards_spec:
  assumes "reg_wf reg" "distinct is"
  shows "reg_wf (fold (cleanup_shard D now) is reg) \<and> slot_at (fold (cleanup_shard D now) is reg) = slot_at reg \<and>
    lookup (fold (cleanup_shard D now) is reg) =
      (\<lambda>k. if shard_of k \<in> set is \<and> (\<exists>e. lookup reg k = Some e \<and> expired D now e) then None else lookup reg k)"
  using assms
proof (induction "is" arbitrary: reg)
  case (Cons i "is")
  let ?r = "cleanup_shard D now i reg"
  have "distinct (shards reg i)" using Cons.prems(1) by (auto simp: reg_wf_def distinct_map)
  from cleanup_fold_spec [OF Cons.prems(1) this, of i D now]
  have r: "reg_wf ?r" "slot_at ?r = slot_at reg"
    "lookup ?r = (\<lambda>k. if \<exists>x\<in>set (shards reg i). key (entry_at reg x) = k \<and> expired D now (entry_at reg x) then None else lookup reg k)"
    by (auto simp: cleanup_shard_def)
  have iff: "(\<exists>x\<in>set (shards reg i). key (entry_at reg x) = k \<and> expired D now (entry_at reg x)) \<longleftrightarrow>
      shard_of k = i \<and> (\<exists>e. lookup reg k = Some e \<and> expired D now e)" for k
  proof -
    have "key (entry_at reg x) = k \<and> x \<in> set (shards reg i) \<longleftrightarrow> shard_of k = i \<and> reg_find k reg = Some x" for x
      using reg_find_Some [OF Cons.prems(1), of k x] reg_wf_entry(3) [OF Cons.prems(1), of x i] by auto
    then show ?thesis by (auto simp: lookup_def)
  qed
  from Cons.IH [OF r(1)] Cons.prems(2) show ?case
    by (auto simp: r(2) r(3) iff fun_eq_iff)
qed simp

lemma qs_cleanup_lookup:
  assumes "reg_wf (entries qs)"
  shows "reg_wf (entries (qs_cleanup D now qs)) \<and> slot_at (entries (qs_cleanup D now qs)) = slot_at (entries qs) \<and>
    lookup (entries (qs_cleanup D now qs)) =
      (\<lambda>k. case lookup (entries qs) k of None \<Rightarrow> None | Some e \<Rightarrow> if expired D now e then None else Some e)"
  using cleanup_shards_spec [OF assms, of "[0..<registryShardCount]" D now] shard_of_bound(1)
  by (auto simp: qs_cleanup_def fun_eq_iff split: option.split)

section \<open>Sequences of operations\<close>

datatype 'v space_op =
    SStore string "'v any_value" int
  | SStoreError string "go_error option" int
  | SAwait string
  | SRelate string string
  | SRegister string string
  | SCleanup int

fun space_step :: "('art, 'err) datura \<Rightarrow> 'v codec \<Rightarrow> 'v space_op \<Rightarrow> 'art QSpace \<Rightarrow> 'art QSpace option" where
  "space_step D J (SStore i v ttl) qs = Store D J i v ttl qs"
| "space_step D J (SStoreError i e ttl) qs = StoreError D J i e ttl qs"
| "space_step D J (SAwait i) qs = Some (snd (Await D J i qs))"
| "space_step D J (SRelate p c) qs = Some (snd (AddRelationship p c qs))"
| "space_step D J (SRegister d j) qs = Some (RegisterDependent d j qs)"
| "space_step D J (SCleanup now) qs = Some (qs_cleanup D now qs)"

definition put_result :: "string \<Rightarrow> go_error + 'art \<Rightarrow> (string \<rightharpoonup> 'art) \<Rightarrow> (string \<rightharpoonup> 'art)" where
  "put_result i r m = (case r of Inl _ \<Rightarrow> m | Inr a \<Rightarrow> m(i \<mapsto> a))"

definition is_expired :: "('art, 'err) datura \<Rightarrow> int \<Rightarrow> 'art \<Rightarrow> bool" where
  "is_expired D now a \<longleftrightarrow> 0 < artifactTTL D (Some a) \<and> artifactTTL D (Some a) < since now (d_Timestamp D a)"

fun map_step :: "('art, 'err) datura \<Rightarrow> 'v codec \<Rightarrow> 'v space_op \<Rightarrow> (string \<rightharpoonup> 'art) \<Rightarrow> (string \<rightharpoonup> 'art)" where
  "map_step D J (SStore i v ttl) m = put_result i (newResultArtifact D J i v ttl) m"
| "map_step D J (SStoreError i e ttl) m = put_result i (newErrorArtifact D J i e ttl) m"
| "map_step D J (SCleanup now) m = (\<lambda>k. case m k of None \<Rightarrow> None | Some a \<Rightarrow> if is_expired D now a then None else Some a)"
| "map_step D J _ m = m"

fun space_run :: "('art, 'err) datura \<Rightarrow> 'v codec \<Rightarrow> 'v space_op list \<Rightarrow> 'art QSpace \<Rightarrow> 'art QSpace option" where
  "space_run D J [] qs = Some qs"
| "space_run D J (op # ops) qs = (case space_step D J op qs of None \<Rightarrow> None | Some qs' \<Rightarrow> space_run D J ops qs')"

text \<open>A change of an entry's edges is not a change of the space.\<close>

lemma update_edges_inv:
  assumes "qs_inv (qs\<lparr>entries := reg\<rparr>)" "reg_wf (update_entry x f reg)"
    "\<And>e. key (f e) = key e \<and> keyHash (f e) = keyHash e \<and> entry_value (f e) = entry_value e \<and> stored (f e) = stored e"
  shows "qs_inv (qs\<lparr>entries := update_entry x f reg\<rparr>)"
    "space_view (qs\<lparr>entries := update_entry x f reg\<rparr>) = space_view (qs\<lparr>entries := reg\<rparr>)"
proof -
  have l: "lookup (update_entry x f reg) k = map_option (\<lambda>e. if reg_find k reg = Some x then f e else e) (lookup reg k)" for k
    using assms(3) by (cases "reg_find k reg") (auto simp: lookup_def)
  have "slot_agrees (update_entry x f reg) e'" if e': "lookup (update_entry x f reg) k = Some e'" for k e'
  proof -
    obtain e where e: "lookup reg k = Some e" "e' = f e \<or> e' = e" using e' unfolding l by auto
    then have "slot_agrees reg e" using assms(1) by (simp add: qs_inv_def)
    moreover have "entry_value e' = entry_value e" "stored e' = stored e" using e(2) assms(3) by auto
    ultimately show ?thesis by (simp add: slot_agrees_cong [of "update_entry x f reg" reg e' e])
  qed
  then show "qs_inv (qs\<lparr>entries := update_entry x f reg\<rparr>)" using assms(1,2) by (simp add: qs_inv_def)
  show "space_view (qs\<lparr>entries := update_entry x f reg\<rparr>) = space_view (qs\<lparr>entries := reg\<rparr>)"
  proof
    show "space_view (qs\<lparr>entries := update_entry x f reg\<rparr>) k = space_view (qs\<lparr>entries := reg\<rparr>) k" for k
      using assms(3) by (cases "lookup reg k") (auto simp: space_view_def l)
  qed
qed

lemma link_inv:
  assumes "qs_inv qs"
  shows "qs_inv (qs\<lparr>entries := link p c (entries qs)\<rparr>)" "space_view (qs\<lparr>entries := link p c (entries qs)\<rparr>) = space_view qs"
proof -
  obtain x reg1 where g1: "reg_getOrCreate p (entries qs) = (x, reg1)" by (cases "reg_getOrCreate p (entries qs)")
  obtain y reg2 where g2: "reg_getOrCreate c reg1 = (y, reg2)" by (cases "reg_getOrCreate c reg1")
  note i1 = getOrCreate_inv [OF assms g1]
  have i2: "qs_inv (qs\<lparr>entries := reg2\<rparr>)" "space_view (qs\<lparr>entries := reg2\<rparr>) = space_view qs"
    using getOrCreate_inv [OF i1(1), of c y reg2] g2 i1(2) by simp_all
  have wf: "reg_wf reg2" using i2(1) by (simp add: qs_inv_def)
  let ?r3 = "update_entry x (\<lambda>e. e\<lparr>children := push_id c (children e)\<rparr>) reg2"
  have wf3: "reg_wf ?r3" by (rule reg_wf_update [OF wf]) (auto simp: push_id_set)
  note i3 = update_edges_inv [OF i2(1) wf3]
  have wf4: "reg_wf (update_entry y (\<lambda>e. e\<lparr>parents := push_id p (parents e)\<rparr>) ?r3)"
    by (rule reg_wf_update [OF wf3]) (auto simp: push_id_set)
  show "qs_inv (qs\<lparr>entries := link p c (entries qs)\<rparr>)" "space_view (qs\<lparr>entries := link p c (entries qs)\<rparr>) = space_view qs"
    using update_edges_inv [OF i3(1) wf4] i3(2) i2(2) by (simp_all add: link_def g1 g2)
qed

lemma expired_iff: "expired D now e \<longleftrightarrow> (\<exists>a. stored e = Some a \<and> is_expired D now a)"
  by (auto simp: expired_def is_expired_def Let_def split: option.split)

lemma stopped_cleanup: "stopped (qs_cleanup D now qs) = stopped qs"
  by (simp add: qs_cleanup_def)

lemma qs_cleanup_inv:
  assumes "qs_inv qs"
  shows "qs_inv (qs_cleanup D now qs)"
    "space_view (qs_cleanup D now qs) =
       (\<lambda>k. case space_view qs k of None \<Rightarrow> None | Some a \<Rightarrow> if is_expired D now a then None else Some a)"
proof -
  have wf: "reg_wf (entries qs)" using assms by (simp add: qs_inv_def)
  note c = qs_cleanup_lookup [OF wf, of D now]
  have ag: "slot_agrees (entries (qs_cleanup D now qs)) e \<longleftrightarrow> slot_agrees (entries qs) e" for e
    using c by (intro slot_agrees_cong) simp_all
  have "lookup (entries qs) k = Some e" if "lookup (entries (qs_cleanup D now qs)) k = Some e" for k e
    using c that by (auto split: option.splits if_split_asm)
  then show "qs_inv (qs_cleanup D now qs)"
    using assms c ag unfolding qs_inv_def stopped_cleanup by metis
  show "space_view (qs_cleanup D now qs) =
       (\<lambda>k. case space_view qs k of None \<Rightarrow> None | Some a \<Rightarrow> if is_expired D now a then None else Some a)"
  proof
    fix k
    show "space_view (qs_cleanup D now qs) k =
       (case space_view qs k of None \<Rightarrow> None | Some a \<Rightarrow> if is_expired D now a then None else Some a)"
      using c by (cases "lookup (entries qs) k") (auto simp: space_view_def expired_iff split: option.split)
  qed
qed

lemma Await_space:
  assumes "qs_inv qs"
  shows "\<exists>x reg. reg_getOrCreate i (entries qs) = (x, reg) \<and> snd (Await D J i qs) = qs\<lparr>entries := reg\<rparr>"
  using assms by (auto simp: Await_def qs_inv_def Let_def split: prod.split option.split)

lemma space_step_inv:
  assumes "qs_inv qs"
  shows "\<exists>qs'. space_step D J op qs = Some qs' \<and> qs_inv qs' \<and> space_view qs' = map_step D J op (space_view qs)"
proof -
  have put: "\<exists>qs'. put_artifact i a qs = Some qs' \<and> qs_inv qs' \<and> space_view qs' = (space_view qs)(i \<mapsto> a)" for i a
    using put_artifact_spec [OF assms, of i a] by blast
  have run: "\<not> stopped qs" using assms by (simp add: qs_inv_def)
  show ?thesis
  proof (cases op)
    case (SStore i v ttl)
    then show ?thesis using put assms run by (auto simp: Store_def put_result_def split: sum.split)
  next
    case (SStoreError i e ttl)
    then show ?thesis using put assms run by (auto simp: StoreError_def put_result_def split: sum.split)
  next
    case (SAwait i)
    then show ?thesis using Await_space [OF assms, of i D J] getOrCreate_inv [OF assms, of i] by auto
  next
    case (SRelate p c)
    then show ?thesis using assms run link_inv [OF assms, of p c] by (auto simp: AddRelationship_def addRelationship_def)
  next
    case (SRegister d j)
    then show ?thesis using run link_inv [OF assms, of d j] by (auto simp: RegisterDependent_def registerDependent_def)
  next
    case (SCleanup now)
    then show ?thesis using qs_cleanup_inv [OF assms, of D now] by auto
  qed
qed

lemma space_run_inv:
  "qs_inv qs \<Longrightarrow> \<exists>qs'. space_run D J ops qs = Some qs' \<and> qs_inv qs' \<and> space_view qs' = fold (map_step D J) ops (space_view qs)"
proof (induction ops arbitrary: qs)
  case (Cons op ops)
  from space_step_inv [OF Cons.prems, of D J op] obtain qs1 where
    "space_step D J op qs = Some qs1" "qs_inv qs1" "space_view qs1 = map_step D J op (space_view qs)" by blast
  with Cons.IH [of qs1] show ?case by auto
qed simp

lemma peek_view:
  assumes "qs_inv qs"
  shows "space_PeekResult D k qs = (case space_view qs k of None \<Rightarrow> (None, False) | Some a \<Rightarrow> (cloneArtifact D (Some a), True))"
    "Exists k qs \<longleftrightarrow> k \<in> dom (space_view qs)"
  using assms by (cases "reg_find k (entries qs)"; auto simp: space_PeekResult_def Exists_def qs_inv_def space_view_def lookup_def
      split: option.split)+

text \<open>C4: a space that is not closed is a map from identifiers to results. Whatever sequence of stores, failed stores, awaits,
  dependency edges and expiry rounds runs on a new space, every operation returns, and afterwards \<^verbatim>\<open>PeekResult\<close> gives
  a copy of, and \<^verbatim>\<open>Exists\<close> reports, exactly what the same sequence leaves in a finite map in which a store
  whose artifact can be built replaces the value and an expiry round drops the values older than their time to
  live.\<close>

theorem space_refines_map:
  "\<exists>qs. space_run D J ops (NewQSpace uuid) = Some qs \<and>
     (\<forall>k. space_PeekResult D k qs =
            (case fold (map_step D J) ops Map.empty k of None \<Rightarrow> (None, False) | Some a \<Rightarrow> (cloneArtifact D (Some a), True)) \<and>
          (Exists k qs \<longleftrightarrow> k \<in> dom (fold (map_step D J) ops Map.empty)))"
  using space_run_inv [OF qs_inv_new(1), of D J ops uuid] peek_view by (fastforce simp: qs_inv_new(2))

text \<open>C33: the invariant of the space. Every operation keeps the registry well formed, with one entry per identifier in the shard its
  hash selects, a slot of its own for each entry and intact stacks of sleepers, and keeps entry and slot in agreement: the slot is pending
  as long as nothing is stored, and afterwards ready with the stored artifact.\<close>

theorem space_invariant: "\<exists>qs. space_run D J ops (NewQSpace uuid) = Some qs \<and> qs_inv qs"
  using space_run_inv [OF qs_inv_new(1)] by blast

text \<open>An expiry round drops the entries of the results that expired, but not the edges that lead to them: the edges
  of the round's result are exactly the old edges whose own source did not expire. So an edge to an expired
  identifier stays in the lists of its parents, because \<^verbatim>\<open>pruneDependencyEdges\<close> is called when
  \<^verbatim>\<open>removeExpired\<close> has already taken away the entry it looks up.\<close>

theorem cleanup_leaves_edges:
  "\<exists>qs. space_run D J ops (NewQSpace uuid) = Some qs \<and>
     (let gone = (\<lambda>k. \<exists>a. space_view qs k = Some a \<and> is_expired D now a)
      in edges (entries (qs_cleanup D now qs)) = {(p, c) \<in> edges (entries qs). \<not> gone p} \<and>
         back_edges (entries (qs_cleanup D now qs)) = {(p, c) \<in> back_edges (entries qs). \<not> gone c})"
proof -
  obtain qs where qs: "space_run D J ops (NewQSpace uuid) = Some qs" "qs_inv qs"
    using space_run_inv [OF qs_inv_new(1), of D J ops uuid] by blast
  then have wf: "reg_wf (entries qs)" by (simp add: qs_inv_def)
  have l: "lookup (entries (qs_cleanup D now qs)) k = Some e \<longleftrightarrow>
      lookup (entries qs) k = Some e \<and> \<not> (\<exists>a. space_view qs k = Some a \<and> is_expired D now a)" for k e
    using qs_cleanup_lookup [OF wf, of D now] by (auto simp: space_view_def expired_iff split: option.split)
  show ?thesis using qs(1) by (auto simp: edges_def back_edges_def l Let_def)
qed

end
