(* ===== verification/Space_Handles.thy ===== *)
theory Space_Handles
  imports QSpace
begin

text \<open>
  What a handle returned by \<^verbatim>\<open>Await\<close> yields while other operations run on the space, and what \<^verbatim>\<open>Close\<close> does
  to it: the slot a handle points to outlives the registry entry it was taken from.
\<close>

section \<open>Slots and the entries that own them\<close>

definition owns :: "'a Registry \<Rightarrow> nat \<Rightarrow> string \<Rightarrow> bool" where
  "owns reg s k \<longleftrightarrow> (\<exists>e. lookup reg k = Some e \<and> entry_value e = Some s)"

text \<open>A change of the registry that keeps the old slots, apart from those in \<open>S\<close>, and their owners.\<close>

definition keeps_slots :: "nat set \<Rightarrow> 'a Registry \<Rightarrow> 'a Registry \<Rightarrow> bool" where
  "keeps_slots S reg reg' \<longleftrightarrow> slot_free reg \<le> slot_free reg' \<and>
     (\<forall>s. s < slot_free reg \<longrightarrow> (s \<notin> S \<longrightarrow> slot_at reg' s = slot_at reg s) \<and> (\<forall>k. owns reg' s k \<longleftrightarrow> owns reg s k))"

lemma keeps_slots_refl [simp]: "keeps_slots {} reg reg"
  by (simp add: keeps_slots_def)

lemma keeps_slots_trans: "keeps_slots S r1 r2 \<Longrightarrow> keeps_slots T r2 r3 \<Longrightarrow> keeps_slots (S \<union> T) r1 r3"
  by (fastforce simp: keeps_slots_def)

lemma keeps_slots_mono: "keeps_slots S r1 r2 \<Longrightarrow> S \<subseteq> T \<Longrightarrow> keeps_slots T r1 r2"
  unfolding keeps_slots_def by blast

lemma getOrCreate_keeps:
  assumes "reg_wf reg" "reg_getOrCreate k reg = (x, reg')"
  shows "keeps_slots {} reg reg'"
proof -
  note sp = getOrCreate_spec [OF assms]
  have "slot_free reg \<le> slot_free reg'"
    using assms(2) reg_getOrCreate_hit [of k reg] reg_getOrCreate_miss [OF assms(1), of k]
    by (cases "reg_find k reg") (auto simp: inserted_fields)
  moreover have "owns reg' s k' \<longleftrightarrow> owns reg s k'" if "s < slot_free reg" for s k'
    using that sp(3) [of k'] sp(5) by (cases "k' = k"; cases "lookup reg k") (auto simp: owns_def fresh_entry_def)
  ultimately show ?thesis using getOrCreate_slots(1) [OF assms] by (simp add: keeps_slots_def)
qed

lemma update_keeps:
  assumes "\<And>e. key (f e) = key e \<and> keyHash (f e) = keyHash e \<and> entry_value (f e) = entry_value e"
  shows "keeps_slots {} reg (update_entry x f reg)"
proof -
  have "owns (update_entry x f reg) s k \<longleftrightarrow> owns reg s k" for s k
    using assms by (cases "reg_find k reg") (auto simp: owns_def lookup_def)
  then show ?thesis by (simp add: keeps_slots_def)
qed

lemma link_keeps:
  assumes "reg_wf reg"
  shows "keeps_slots {} reg (link p c reg)"
proof -
  obtain x reg1 where g1: "reg_getOrCreate p reg = (x, reg1)" by (cases "reg_getOrCreate p reg")
  obtain y reg2 where g2: "reg_getOrCreate c reg1 = (y, reg2)" by (cases "reg_getOrCreate c reg1")
  let ?r3 = "update_entry x (\<lambda>e. e\<lparr>children := push_id c (children e)\<rparr>) reg2"
  have k3: "keeps_slots {} reg2 ?r3" by (rule update_keeps) simp
  have k4: "keeps_slots {} ?r3 (update_entry y (\<lambda>e. e\<lparr>parents := push_id p (parents e)\<rparr>) ?r3)"
    by (rule update_keeps) simp
  note k2 = getOrCreate_keeps [OF getOrCreate_spec(1) [OF assms g1] g2]
  from keeps_slots_trans [OF keeps_slots_trans [OF keeps_slots_trans [OF getOrCreate_keeps [OF assms g1] k2] k3] k4]
  have "keeps_slots {} reg (update_entry y (\<lambda>e. e\<lparr>parents := push_id p (parents e)\<rparr>) ?r3)" by simp
  then show ?thesis by (simp add: link_def g1 g2)
qed

lemma on_slot_keeps:
  assumes "on_slot f x reg = Some reg'"
  shows "keeps_slots {s. entry_value (entry_at reg x) = Some s} reg reg'"
proof -
  have "lookup reg' = lookup reg \<and> slot_free reg' = slot_free reg \<and>
      (\<forall>s. entry_value (entry_at reg x) \<noteq> Some s \<longrightarrow> slot_at reg' s = slot_at reg s)"
    using assms by (auto simp: on_slot_def split: option.splits intro: lookup_cong)
  then show ?thesis by (simp add: keeps_slots_def owns_def)
qed

lemma put_artifact_keeps:
  assumes "qs_inv qs" "put_artifact i a qs = Some qs'"
  shows "keeps_slots {s. owns (entries qs) s i} (entries qs) (entries qs')"
proof -
  obtain x reg where g: "reg_getOrCreate i (entries qs) = (x, reg)" by (cases "reg_getOrCreate i (entries qs)")
  have wf: "reg_wf (entries qs)" using assms(1) by (simp add: qs_inv_def)
  let ?r1 = "update_entry x (\<lambda>e. e\<lparr>stored := Some a\<rparr>) reg"
  from assms(2) obtain reg2 where r: "on_slot (Deliver (Some a)) x ?r1 = Some reg2" "qs' = qs\<lparr>entries := reg2\<rparr>"
    by (auto simp: put_artifact_def g)
  have "keeps_slots {} (entries qs) ?r1"
    using keeps_slots_trans [OF getOrCreate_keeps [OF wf g] update_keeps] by simp
  from keeps_slots_trans [OF this on_slot_keeps [OF r(1)]]
  have k: "keeps_slots {s. entry_value (entry_at ?r1 x) = Some s} (entries qs) (entries qs')" using r(2) by simp
  have "owns (entries qs) s i" if "s < slot_free (entries qs)" "entry_value (entry_at ?r1 x) = Some s" for s
  proof -
    have "owns reg s i" using that(2) getOrCreate_spec(2) [OF wf g] by (simp add: owns_def lookup_def)
    then show ?thesis using that(1) getOrCreate_keeps [OF wf g] by (simp add: keeps_slots_def)
  qed
  then show ?thesis using k by (auto simp: keeps_slots_def)
qed

section \<open>Following a handle\<close>

text \<open>The artifact that a store puts under an identifier.\<close>

fun put_by :: "('art, 'err) datura \<Rightarrow> 'v codec \<Rightarrow> 'v space_op \<Rightarrow> (string \<times> 'art) option" where
  "put_by D J (SStore i v ttl) = (case newResultArtifact D J i v ttl of Inl _ \<Rightarrow> None | Inr a \<Rightarrow> Some (i, a))"
| "put_by D J (SStoreError i e ttl) = (case newErrorArtifact D J i e ttl of Inl _ \<Rightarrow> None | Inr a \<Rightarrow> Some (i, a))"
| "put_by D J _ = None"

fun cleans :: "('art, 'err) datura \<Rightarrow> 'v space_op \<Rightarrow> 'art \<Rightarrow> bool" where
  "cleans D (SCleanup now) a \<longleftrightarrow> is_expired D now a"
| "cleans D _ a \<longleftrightarrow> False"

text \<open>The value a handle for \<open>i\<close> sees, and whether the entry it was taken from is still registered: a
  store replaces the value while it is, and the round that expires the value cuts the handle off.\<close>

definition watch :: "('art, 'err) datura \<Rightarrow> 'v codec \<Rightarrow> string \<Rightarrow> 'v space_op \<Rightarrow> 'art option \<times> bool \<Rightarrow> 'art option \<times> bool" where
  "watch D J i op = (\<lambda>(v, attached).
     if \<not> attached then (v, False)
     else case put_by D J op of
            Some (j, a) \<Rightarrow> (if j = i then Some a else v, True)
          | None \<Rightarrow> (v, case v of None \<Rightarrow> True | Some a \<Rightarrow> \<not> cleans D op a))"

definition handle_ok :: "'art QSpace \<Rightarrow> string \<Rightarrow> nat \<Rightarrow> 'art option \<times> bool \<Rightarrow> bool" where
  "handle_ok qs i s = (\<lambda>(v, attached).
     qs_inv qs \<and> s < slot_free (entries qs) \<and>
     (if attached then owns (entries qs) s i \<and> space_view qs i = v
      else (\<forall>k. \<not> owns (entries qs) s k) \<and> v \<noteq> None \<and>
           state (slot_at (entries qs) s) = slotReady \<and> slot_value (slot_at (entries qs) s) = v))"

lemma owns_unique: "reg_wf reg \<Longrightarrow> owns reg s k \<Longrightarrow> owns reg s k' \<Longrightarrow> k = k'"
  using slot_owner by (fastforce simp: owns_def)

lemma owns_slot:
  assumes "qs_inv qs" "owns (entries qs) s i"
  shows "case space_view qs i of
           None \<Rightarrow> state (slot_at (entries qs) s) = slotPending
         | Some a \<Rightarrow> state (slot_at (entries qs) s) = slotReady \<and> slot_value (slot_at (entries qs) s) = Some a"
proof -
  obtain e where e: "lookup (entries qs) i = Some e" "entry_value e = Some s" using assms(2) by (auto simp: owns_def)
  then have "slot_agrees (entries qs) e" using assms(1) by (simp add: qs_inv_def)
  then show ?thesis using e by (cases "stored e") (simp_all add: slot_agrees_def space_view_def)
qed

text \<open>What one operation does to the slots.\<close>

lemma space_step_slots:
  assumes "qs_inv qs" "space_step D J op qs = Some qs'"
  shows "(\<exists>now. op = SCleanup now) \<or>
    keeps_slots {s. \<exists>i a. put_by D J op = Some (i, a) \<and> owns (entries qs) s i} (entries qs) (entries qs')"
proof -
  have wf: "reg_wf (entries qs)" and run: "\<not> stopped qs" using assms(1) by (simp_all add: qs_inv_def)
  have await: "keeps_slots {} (entries qs) (entries (snd (Await D J i qs)))" for i
    using Await_space [OF assms(1), of i D J] getOrCreate_keeps [OF wf] by auto
  show ?thesis
  proof (cases op)
    case (SStore i v ttl)
    then show ?thesis using assms run put_artifact_keeps [OF assms(1)] by (auto simp: Store_def split: sum.splits)
  next
    case (SStoreError i e ttl)
    then show ?thesis using assms run put_artifact_keeps [OF assms(1)] by (auto simp: StoreError_def split: sum.splits)
  next
    case (SAwait i)
    then show ?thesis using assms(2) await [of i] by auto
  next
    case (SRelate p c)
    then show ?thesis using assms(2) run link_keeps [OF wf, of p c] by (auto simp: AddRelationship_def addRelationship_def)
  next
    case (SRegister d j)
    then show ?thesis using assms(2) run link_keeps [OF wf, of d j] by (auto simp: RegisterDependent_def registerDependent_def)
  qed simp
qed

lemma fold_keeps_field: "(\<And>x r. g (f x r) = g r) \<Longrightarrow> g (fold f xs r) = g r"
  by (induction xs arbitrary: r) auto

lemma drop_free [simp]:
  "slot_free (drop_parent i k reg) = slot_free reg" "slot_free (drop_child i k reg) = slot_free reg"
  by (simp_all add: drop_parent_def drop_child_def split: option.split)

lemma cleanup_free: "slot_free (entries (qs_cleanup D now qs)) = slot_free (entries qs)"
proof -
  have prune: "slot_free (pruneDependencyEdges k reg) = slot_free reg" for k and reg :: "'a Registry"
    by (simp add: pruneDependencyEdges_def Let_def fold_keeps_field [where g = slot_free] split: option.split)
  have "slot_free (cleanup_entry D now x reg) = slot_free reg" for x reg
    by (simp add: cleanup_entry_def prune Let_def removeExpired_def set_shard_def)
  then have "slot_free (cleanup_shard D now j reg) = slot_free reg" for j reg
    by (simp add: cleanup_shard_def fold_keeps_field [where g = slot_free])
  then show ?thesis by (simp add: qs_cleanup_def fold_keeps_field [where g = slot_free])
qed

lemma cleanup_owns:
  assumes "qs_inv qs"
  shows "owns (entries (qs_cleanup D now qs)) s k \<longleftrightarrow>
    owns (entries qs) s k \<and> \<not> (\<exists>a. space_view qs k = Some a \<and> is_expired D now a)"
proof -
  have wf: "reg_wf (entries qs)" using assms by (simp add: qs_inv_def)
  show ?thesis using qs_cleanup_lookup [OF wf, of D now]
    by (cases "lookup (entries qs) k") (auto simp: owns_def space_view_def expired_iff)
qed

lemma watch_attached:
  "watch D J i op (m i, True) = (v, True) \<Longrightarrow> map_step D J op m i = v"
  by (cases op) (auto simp: watch_def put_result_def split: sum.splits option.splits if_split_asm)

lemma watch_detach:
  "watch D J i op (v, True) = (v', False) \<Longrightarrow> v' = v \<and> (\<exists>now a. op = SCleanup now \<and> v = Some a \<and> is_expired D now a)"
  by (cases op) (auto simp: watch_def split: sum.splits option.splits if_split_asm)

lemma step_ownership:
  assumes "qs_inv qs" "space_step D J op qs = Some qs'" "s < slot_free (entries qs)"
  shows "s < slot_free (entries qs')"
    and "owns (entries qs') s k \<longleftrightarrow> owns (entries qs) s k \<and> \<not> (\<exists>now a. op = SCleanup now \<and> space_view qs k = Some a \<and> is_expired D now a)"
proof -
  have "s < slot_free (entries qs') \<and>
    (owns (entries qs') s k \<longleftrightarrow> owns (entries qs) s k \<and> \<not> (\<exists>now a. op = SCleanup now \<and> space_view qs k = Some a \<and> is_expired D now a))"
  proof (cases "\<exists>now. op = SCleanup now")
    case True
    then show ?thesis using assms(2,3) by (auto simp: cleanup_free cleanup_owns [OF assms(1)])
  next
    case False
    then show ?thesis using space_step_slots [OF assms(1,2)] assms(3) by (auto simp: keeps_slots_def)
  qed
  then show "s < slot_free (entries qs')"
    "owns (entries qs') s k \<longleftrightarrow> owns (entries qs) s k \<and> \<not> (\<exists>now a. op = SCleanup now \<and> space_view qs k = Some a \<and> is_expired D now a)"
    by blast+
qed

lemma handle_step:
  assumes "handle_ok qs i s w" "space_step D J op qs = Some qs'"
  shows "handle_ok qs' i s (watch D J i op w)"
proof -
  obtain v att where w: "w = (v, att)" by (cases w)
  have inv: "qs_inv qs" and s: "s < slot_free (entries qs)" using assms(1) by (auto simp: handle_ok_def w)
  have wf: "reg_wf (entries qs)" using inv by (simp add: qs_inv_def)
  have inv': "qs_inv qs'" and view': "space_view qs' = map_step D J op (space_view qs)"
    using space_step_inv [OF inv, of D J op] assms(2) by auto
  note free = step_ownership(1) [OF inv assms(2) s] and own = step_ownership(2) [OF inv assms(2) s]
  show ?thesis
  proof (cases att)
    case True
    then have o: "owns (entries qs) s i" and v: "space_view qs i = v" using assms(1) by (auto simp: handle_ok_def w)
    obtain v' att' where w': "watch D J i op (v, True) = (v', att')" by (cases "watch D J i op (v, True)")
    show ?thesis
    proof (cases att')
      case True
      then have "space_view qs' i = v'" using watch_attached [of D J i op "space_view qs" v'] w' v view' by simp
      moreover have "owns (entries qs') s i"
        using own o w' True v by (auto simp: watch_def)
      ultimately show ?thesis using inv' free True w' w \<open>att\<close> by (simp add: handle_ok_def)
    next
      case False
      with watch_detach [of D J i op v v'] w' obtain now a where d: "v' = v" "op = SCleanup now" "v = Some a" "is_expired D now a" by auto
      have "slot_at (entries qs') s = slot_at (entries qs) s"
        using qs_cleanup_lookup [OF wf, of D now] assms(2) d(2) by auto
      moreover have "\<not> owns (entries qs') s k" for k
        using own [of k] owns_unique [OF wf o, of k] d v by auto
      ultimately show ?thesis using inv' free False w' w \<open>att\<close> owns_slot [OF inv o] d v by (simp add: handle_ok_def)
    qed
  next
    case False
    then have o: "\<And>k. \<not> owns (entries qs) s k" using assms(1) by (auto simp: handle_ok_def w)
    then have "slot_at (entries qs') s = slot_at (entries qs) s"
      using space_step_slots [OF inv assms(2)] s qs_cleanup_lookup [OF wf, of D] assms(2) by (auto simp: keeps_slots_def)
    then show ?thesis using assms(1) inv' free own o False by (simp add: handle_ok_def w watch_def)
  qed
qed

lemma handle_run:
  "handle_ok qs i s w \<Longrightarrow> space_run D J ops qs = Some qs' \<Longrightarrow> handle_ok qs' i s (fold (watch D J i) ops w)"
proof (induction ops arbitrary: qs w)
  case (Cons op ops)
  from Cons.prems(2) obtain q where "space_step D J op qs = Some q" "space_run D J ops q = Some qs'" by (auto split: option.splits)
  with Cons.IH [OF handle_step [OF Cons.prems(1), of D J op q]] show ?case by simp
qed simp

lemma Get_handle:
  assumes "handle_ok qs i s w"
  shows "Get c (slot_at (entries qs)) (Some (pendingResultWait (Some s))) =
    (case fst w of Some a \<Rightarrow> Some (Inr a) | None \<Rightarrow> map_option Inl c)"
proof -
  obtain v att where w: "w = (v, att)" by (cases w)
  have "case v of None \<Rightarrow> state (slot_at (entries qs) s) = slotPending
    | Some a \<Rightarrow> state (slot_at (entries qs) s) = slotReady \<and> slot_value (slot_at (entries qs) s) = Some a"
    using assms owns_slot [of qs s i] by (cases att; cases v) (auto simp: handle_ok_def w)
  then show ?thesis by (cases v; cases c) (auto simp: Get_def pendingResultWait_def Wait_def w)
qed

lemma Await_handle:
  assumes "qs_inv qs" "Await D J i qs = (h, qs1)"
  shows "case space_view qs i of Some a \<Rightarrow> h = readyResultWait (Some a)
    | None \<Rightarrow> \<exists>s. h = pendingResultWait (Some s) \<and> handle_ok qs1 i s (None, True)"
proof -
  obtain x reg where g: "reg_getOrCreate i (entries qs) = (x, reg)" by (cases "reg_getOrCreate i (entries qs)")
  have run: "\<not> stopped qs" and wf: "reg_wf (entries qs)" using assms(1) by (simp_all add: qs_inv_def)
  note inv = getOrCreate_inv [OF assms(1) g] and sp = getOrCreate_spec [OF wf g]
  let ?e = "entry_at reg x"
  have l: "lookup reg i = Some ?e" using sp(2) by (simp add: lookup_def)
  obtain s where s: "entry_value ?e = Some s" "s < slot_free reg" using lookup_slot_old [OF sp(1) l] by blast
  have v: "stored ?e = space_view qs i" using fun_cong [OF inv(2), of i] l by (simp add: space_view_def)
  have "h = (case stored ?e of Some a \<Rightarrow> readyResultWait (Some a) | None \<Rightarrow> pendingResultWait (Some s))" "qs1 = qs\<lparr>entries := reg\<rparr>"
    using assms(2) run g s by (auto simp: Await_def Let_def split: option.splits)
  then show ?thesis using v inv l s by (auto simp: handle_ok_def owns_def split: option.split)
qed

lemma await_run:
  assumes "qs_inv qs" "Await D J i qs = (h, qs1)"
  shows "\<exists>qs2. space_run D J later qs1 = Some qs2 \<and> qs_inv qs2 \<and> space_view qs2 = fold (map_step D J) later (space_view qs) \<and>
    (\<forall>c. Get c (slot_at (entries qs2)) (Some h) =
       (case space_view qs i of
          Some a \<Rightarrow> Some (Inr a)
        | None \<Rightarrow> (case fst (fold (watch D J i) later (None, True)) of
                     Some a \<Rightarrow> Some (Inr a)
                   | None \<Rightarrow> map_option Inl c)))"
proof -
  have "qs_inv qs1" "space_view qs1 = space_view qs" using space_step_inv [OF assms(1), of D J "SAwait i"] assms(2) by simp_all
  then obtain qs2 where q2: "space_run D J later qs1 = Some qs2" "qs_inv qs2" "space_view qs2 = fold (map_step D J) later (space_view qs)"
    using space_run_inv [of qs1 D J later] by auto
  have "Get c (slot_at (entries qs2)) (Some h) = (case space_view qs i of Some a \<Rightarrow> Some (Inr a)
        | None \<Rightarrow> (case fst (fold (watch D J i) later (None, True)) of Some a \<Rightarrow> Some (Inr a) | None \<Rightarrow> map_option Inl c))" for c
  proof (cases "space_view qs i")
    case None
    then obtain s where "h = pendingResultWait (Some s)" "handle_ok qs1 i s (None, True)"
      using Await_handle [OF assms] by auto
    then show ?thesis using Get_handle [OF handle_run [OF _ q2(1)]] None by simp
  qed (use Await_handle [OF assms] in \<open>auto simp: Get_def readyResultWait_def\<close>)
  then show ?thesis using q2 by auto
qed

text \<open>C6: what a handle yields. Take any handle from \<^verbatim>\<open>Await\<close> on a space reached by any sequence of operations and let any further
  sequence run. If a result was stored when the handle was taken, \<^verbatim>\<open>Get\<close> returns it at once. Otherwise
  \<^verbatim>\<open>Get\<close> returns the artifact of the last store under that identifier before the round that expired it, a store
  of an error included; before the first such store it sleeps, or returns the error of its
  cancelled context.\<close>

theorem handle_yields_result:
  "\<exists>qs h qs1 qs2. space_run D J ops (NewQSpace uuid) = Some qs \<and> Await D J i qs = (h, qs1) \<and>
     space_run D J later qs1 = Some qs2 \<and>
     Get c (slot_at (entries qs2)) (Some h) =
       (case fold (map_step D J) ops Map.empty i of
          Some a \<Rightarrow> Some (Inr a)
        | None \<Rightarrow> (case fst (fold (watch D J i) later (None, True)) of
                     Some a \<Rightarrow> Some (Inr a)
                   | None \<Rightarrow> map_option Inl c))"
proof -
  obtain qs where qs: "space_run D J ops (NewQSpace uuid) = Some qs" "qs_inv qs" "space_view qs = fold (map_step D J) ops Map.empty"
    using space_run_inv [OF qs_inv_new(1), of D J ops uuid] by (auto simp: qs_inv_new(2))
  obtain h qs1 where a: "Await D J i qs = (h, qs1)" by (cases "Await D J i qs")
  show ?thesis using qs a await_run [OF qs(2) a, of later] by auto
qed

section \<open>Closing the space\<close>

lemma close_entries_spec:
  assumes "reg_wf reg" "\<And>x. x \<in> set xs \<Longrightarrow> \<exists>i. x \<in> set (shards reg i)"
  shows "\<exists>reg'. close_entries xs reg = Some reg' \<and> reg_wf reg' \<and> shards reg' = shards reg \<and> entry_at reg' = entry_at reg \<and>
    (\<forall>s. if \<exists>x\<in>set xs. entry_value (entry_at reg x) = Some s then state (slot_at reg' s) = slotClosed
         else slot_at reg' s = slot_at reg s)"
  using assms
proof (induction xs arbitrary: reg)
  case (Cons x xs)
  obtain i where "x \<in> set (shards reg i)" using Cons.prems(2) by auto
  from slot_close.on_slot_returns [OF Cons.prems(1) this] obtain s m reg1 where
    r: "entry_value (entry_at reg x) = Some s" "on_slot slot_Close x reg = Some reg1" "reg_wf reg1" "shards reg1 = shards reg"
      "entry_at reg1 = entry_at reg" "slot_Close (slot_at reg s) (sleepers reg) = Some (slot_at reg1 s, m)"
      "\<And>s'. s' \<noteq> s \<Longrightarrow> slot_at reg1 s' = slot_at reg s'" by blast
  obtain ws where "waiting_nodes (slot_at reg s) (sleepers reg) ws" using reg_wf_stacks [OF Cons.prems(1)] by blast
  then have closed: "state (slot_at reg1 s) = slotClosed" using slot_Close_effect [of "slot_at reg s" "sleepers reg" ws] r(6) by auto
  have "\<exists>i. y \<in> set (shards reg1 i)" if "y \<in> set xs" for y using Cons.prems(2) that r(4) by simp
  from Cons.IH [OF r(3) this] obtain reg' where
    r': "close_entries xs reg1 = Some reg'" "reg_wf reg'" "shards reg' = shards reg" "entry_at reg' = entry_at reg"
      "\<And>s. if \<exists>y\<in>set xs. entry_value (entry_at reg y) = Some s then state (slot_at reg' s) = slotClosed
         else slot_at reg' s = slot_at reg1 s" using r(4,5) by auto
  have "if \<exists>y\<in>set (x # xs). entry_value (entry_at reg y) = Some s' then state (slot_at reg' s') = slotClosed
        else slot_at reg' s' = slot_at reg s'" for s'
    using r'(5) [of s'] r(1) r(7) [of s'] closed by (auto split: if_split_asm)
  then show ?case using r(2) r'(1-4) by auto
qed simp

lemma closeAll_spec:
  assumes "reg_wf reg"
  shows "\<exists>reg'. closeAll reg = Some reg' \<and>
    (\<forall>s. if \<exists>k. owns reg s k then state (slot_at reg' s) = slotClosed else slot_at reg' s = slot_at reg s)"
proof -
  have "\<exists>i. x \<in> set (shards reg i)" if "x \<in> set (all_entries reg)" for x using that by (auto simp: all_entries_def)
  from close_entries_spec [OF assms this] obtain reg' where
    c: "close_entries (all_entries reg) reg = Some reg'"
      "\<And>s. if \<exists>x\<in>set (all_entries reg). entry_value (entry_at reg x) = Some s then state (slot_at reg' s) = slotClosed
         else slot_at reg' s = slot_at reg s" by blast
  have "(\<exists>x\<in>set (all_entries reg). entry_value (entry_at reg x) = Some s) \<longleftrightarrow> (\<exists>k. owns reg s k)" for s
  proof
    assume "\<exists>x\<in>set (all_entries reg). entry_value (entry_at reg x) = Some s"
    then obtain x i where x: "x \<in> set (shards reg i)" "entry_value (entry_at reg x) = Some s" by (auto simp: all_entries_def)
    have "reg_find (key (entry_at reg x)) reg = Some x"
      using reg_find_Some [OF assms] reg_wf_entry(3) [OF assms x(1)] x(1) by auto
    then show "\<exists>k. owns reg s k" using x(2) by (auto simp: owns_def lookup_def)
  next
    assume "\<exists>k. owns reg s k"
    then obtain k x where "reg_find k reg = Some x" "entry_value (entry_at reg x) = Some s" by (auto simp: owns_def lookup_def)
    then show "\<exists>x\<in>set (all_entries reg). entry_value (entry_at reg x) = Some s"
      using reg_find_in [OF assms] shard_of_bound(1) by (force simp: all_entries_def)
  qed
  then show ?thesis using c by (auto simp: closeAll_def)
qed

lemma space_run_groups: "space_run D J ops qs = Some qs' \<Longrightarrow> groups qs' = groups qs"
proof (induction ops arbitrary: qs)
  case (Cons op ops)
  from Cons.prems obtain q where q: "space_step D J op qs = Some q" "space_run D J ops q = Some qs'" by (auto split: option.splits)
  have "groups q = groups qs"
    using q(1) by (cases op) (auto simp: Store_def StoreError_def put_artifact_def Await_def AddRelationship_def RegisterDependent_def
        qs_cleanup_def Let_def split: sum.splits if_split_asm option.splits prod.splits)
  then show ?case using Cons.IH [OF q(2)] by simp
qed simp

lemma space_Close_spec:
  assumes "qs_inv qs" "groups qs = []"
  shows "\<exists>reg. space_Close qs = Some (qs\<lparr>stopped := True, maintDone := True, entries := reg\<rparr>) \<and>
    (\<forall>s. if \<exists>k. owns (entries qs) s k then state (slot_at reg s) = slotClosed else slot_at reg s = slot_at (entries qs) s)"
proof -
  obtain reg where reg: "closeAll (entries qs) = Some reg"
      "\<And>s. if \<exists>k. owns (entries qs) s k then state (slot_at reg s) = slotClosed else slot_at reg s = slot_at (entries qs) s"
    using closeAll_spec assms(1) unfolding qs_inv_def by blast
  have "qs\<lparr>stopped := True, maintDone := True, entries := reg, groups := []\<rparr> = qs\<lparr>stopped := True, maintDone := True, entries := reg\<rparr>"
    using assms(2) by (cases qs) simp
  then have "space_Close qs = Some (qs\<lparr>stopped := True, maintDone := True, entries := reg\<rparr>)"
    using assms reg(1) by (simp add: space_Close_def qs_inv_def)
  then show ?thesis using reg(2) by blast
qed

text \<open>C26: closing the space ends every wait. After \<^verbatim>\<open>Close\<close> a handle whose entry is still registered fails with
  \<^verbatim>\<open>errResultClosed\<close>, whether its result had arrived or not: a result delivered but not yet fetched is
  lost. A handle that was taken when the result was there, or whose entry has
  expired, keeps its artifact. The closed space reports no result.\<close>

theorem close_ends_waits:
  "\<exists>qs h qs1 qs2 qs3. space_run D J ops (NewQSpace uuid) = Some qs \<and> Await D J i qs = (h, qs1) \<and>
     space_run D J later qs1 = Some qs2 \<and> space_Close qs2 = Some qs3 \<and>
     Get c (slot_at (entries qs3)) (Some h) =
       (case fold (map_step D J) ops Map.empty i of
          Some a \<Rightarrow> Some (Inr a)
        | None \<Rightarrow> (case fold (watch D J i) later (None, True) of
                     (_, True) \<Rightarrow> Some (Inl errResultClosed)
                   | (v, False) \<Rightarrow> map_option Inr v)) \<and>
     (\<forall>k. space_PeekResult D k qs3 = (None, False))"
proof -
  obtain qs where qs: "space_run D J ops (NewQSpace uuid) = Some qs" "qs_inv qs" "space_view qs = fold (map_step D J) ops Map.empty"
    using space_run_inv [OF qs_inv_new(1), of D J ops uuid] by (auto simp: qs_inv_new(2))
  obtain h qs1 where a: "Await D J i qs = (h, qs1)" by (cases "Await D J i qs")
  have "qs_inv qs1" using space_step_inv [OF qs(2), of D J "SAwait i"] a by simp
  then obtain qs2 where q2: "space_run D J later qs1 = Some qs2" "qs_inv qs2" using space_run_inv by blast
  have "groups qs2 = []"
    using space_run_groups [OF qs(1)] space_run_groups [of D J "[SAwait i]" qs qs1] space_run_groups [OF q2(1)] a by (simp add: NewQSpace_def)
  then obtain reg where c: "space_Close qs2 = Some (qs2\<lparr>stopped := True, maintDone := True, entries := reg\<rparr>)" and
    reg: "\<And>s. if \<exists>k. owns (entries qs2) s k then state (slot_at reg s) = slotClosed else slot_at reg s = slot_at (entries qs2) s"
    using space_Close_spec [OF q2(2)] by blast
  have "Get c (slot_at reg) (Some h) = (case space_view qs i of Some a \<Rightarrow> Some (Inr a)
        | None \<Rightarrow> (case fold (watch D J i) later (None, True) of (_, True) \<Rightarrow> Some (Inl errResultClosed) | (v, False) \<Rightarrow> map_option Inr v))"
  proof (cases "space_view qs i")
    case None
    then obtain s where h: "h = pendingResultWait (Some s)" "handle_ok qs1 i s (None, True)"
      using Await_handle [OF qs(2) a] by auto
    obtain v att where w: "fold (watch D J i) later (None, True) = (v, att)" by (cases "fold (watch D J i) later (None, True)")
    have "handle_ok qs2 i s (v, att)" using handle_run [OF h(2) q2(1)] w by simp
    then show ?thesis using reg [of s] None w h(1)
      by (cases att) (auto simp: handle_ok_def Get_def pendingResultWait_def Wait_def split: if_split_asm)
  qed (use Await_handle [OF qs(2) a] in \<open>auto simp: Get_def readyResultWait_def\<close>)
  then show ?thesis using qs a q2 c by (auto simp: space_PeekResult_def)
qed

end
