(* ===== verification/Space_Race.thy ===== *)
theory Space_Race
  imports QSpace
begin

text \<open>
  \<^verbatim>\<open>qspace.go\<close> with its operations running at the same time: any number of goroutines in \<^verbatim>\<open>Await\<close>, \<^verbatim>\<open>Store\<close> and \<^verbatim>\<open>Close\<close>, one load, store or swap at a time,
  beside the maintenance goroutine, which clears an expired result with one swap and takes its entry out of the registry with the next step.
  A lookup or insertion of the registry is one step here (\<open>Registry\<close> has \<^verbatim>\<open>getOrCreate\<close> in single steps), and so is the swap of a
  slot's state with the waking that follows it (\<open>Result_Wait\<close> has the waiters in single steps). \<^verbatim>\<open>StoreError\<close> differs from \<^verbatim>\<open>Store\<close> in the artifact only, which is
  built before the steps of a store begin.

  Shown are that a \<^verbatim>\<open>Close\<close> leaves no waiter behind, thanks to the second test of \<^verbatim>\<open>stopped\<close> in \<^verbatim>\<open>Await\<close>, and that the two steps of the maintenance can drop a
  result that was stored between them.
\<close>

section \<open>The operations in steps\<close>

text \<open>\<^verbatim>\<open>Deliver\<close> in its two steps.\<close>

definition store_value :: "'a option \<Rightarrow> 'a resultSlot \<Rightarrow> waiter_heap \<Rightarrow> ('a resultSlot \<times> waiter_heap) option" where
  "store_value v sl m = Some (sl\<lparr>slot_value := v\<rparr>, m)"

definition swap_ready :: "'a resultSlot \<Rightarrow> waiter_heap \<Rightarrow> ('a resultSlot \<times> waiter_heap) option" where
  "swap_ready sl m = (if state sl = slotPending then wakeWaiters (sl\<lparr>state := slotReady\<rparr>) m else Some (sl, m))"

lemma Deliver_steps: "Deliver v sl m = Option.bind (store_value v sl m) (\<lambda>(sl', m'). swap_ready sl' m')"
  by (simp add: Deliver_def store_value_def swap_ready_def Let_def)

definition at_slot ::
  "('a resultSlot \<Rightarrow> waiter_heap \<Rightarrow> ('a resultSlot \<times> waiter_heap) option) \<Rightarrow> nat \<Rightarrow> 'a Registry \<Rightarrow> 'a Registry option" where
  "at_slot f s reg = map_option (\<lambda>(sl, m). reg\<lparr>slot_at := (slot_at reg)(s := sl), sleepers := m\<rparr>) (f (slot_at reg s) (sleepers reg))"

lemma on_slot_at: "on_slot f x reg = (case entry_value (entry_at reg x) of None \<Rightarrow> Some reg | Some s \<Rightarrow> at_slot f s reg)"
  by (simp add: on_slot_def at_slot_def split: option.split)

datatype 'a space_pc =
    NoCall
  | AwCheck string | AwCreate string | AwCheck2 nat | AwStored nat | AwSlot nat | AwState nat nat | AwStored2 nat nat | AwGot "'a ResultWait"
  | StCheck string 'a | StCreate string 'a | StCheck2 nat 'a | StStored nat 'a | StSlot nat 'a | StValue nat 'a | StReady nat | StDone
  | ClSwap | ClWait | ClShard nat | ClWalk nat "nat list" | ClDone | ClReturned

text \<open>\<open>sweeping\<close> is the entry whose result the maintenance has cleared and that it is about to take out. \<open>bound\<close> only records: the entries made when
  \<^verbatim>\<open>Close\<close> began.\<close>

record 'a space_sys =
  s_space :: "'a QSpace"
  s_pc :: "nat \<Rightarrow> 'a space_pc"
  sweeping :: "nat option"
  bound :: nat

definition new_space_sys :: "string \<Rightarrow> 'a space_sys" where
  "new_space_sys uuid = \<lparr>s_space = NewQSpace uuid, s_pc = (\<lambda>_. NoCall), sweeping = None, bound = 0\<rparr>"

definition at_pc :: "nat \<Rightarrow> 'a space_pc \<Rightarrow> 'a space_sys \<Rightarrow> 'a space_sys" where
  "at_pc g pc s = s\<lparr>s_pc := (s_pc s)(g := pc)\<rparr>"

definition set_reg :: "'a Registry \<Rightarrow> 'a space_sys \<Rightarrow> 'a space_sys" where
  "set_reg reg s = s\<lparr>s_space := (s_space s)\<lparr>entries := reg\<rparr>\<rparr>"

definition await_move :: "('art, 'err) datura \<Rightarrow> 'v codec \<Rightarrow> nat \<Rightarrow> 'art space_sys \<Rightarrow> 'art space_sys" where
  "await_move D J g s =
     (let qs = s_space s; reg = entries qs; closed = AwGot (errorResultWait D J (Some errResultClosed))
      in case s_pc s g of
           AwCheck i \<Rightarrow> at_pc g (if stopped qs then closed else AwCreate i) s
         | AwCreate i \<Rightarrow> (let (x, reg') = reg_getOrCreate i reg in at_pc g (AwCheck2 x) (set_reg reg' s))
         | AwCheck2 x \<Rightarrow> at_pc g (if stopped qs then closed else AwStored x) s
         | AwStored x \<Rightarrow>
             at_pc g (case stored (entry_at reg x) of Some a \<Rightarrow> AwGot (readyResultWait (Some a)) | None \<Rightarrow> AwSlot x) s
         | AwSlot x \<Rightarrow> at_pc g (case entry_value (entry_at reg x) of None \<Rightarrow> closed | Some sl \<Rightarrow> AwState x sl) s
         | AwState x sl \<Rightarrow>
             at_pc g (if state (slot_at reg sl) = slotReady then AwStored2 x sl else AwGot (pendingResultWait (Some sl))) s
         | AwStored2 x sl \<Rightarrow>
             at_pc g (case stored (entry_at reg x) of
                        Some a \<Rightarrow> AwGot (readyResultWait (Some a)) | None \<Rightarrow> AwGot (pendingResultWait (Some sl))) s
         | _ \<Rightarrow> s)"

text \<open>\<open>None\<close>: the walk over the sleepers of a slot does not return.\<close>

definition store_move :: "nat \<Rightarrow> 'a space_sys \<Rightarrow> 'a space_sys option" where
  "store_move g s =
     (let qs = s_space s; reg = entries qs
      in case s_pc s g of
           StCheck i a \<Rightarrow> Some (at_pc g (if stopped qs then StDone else StCreate i a) s)
         | StCreate i a \<Rightarrow> (let (x, reg') = reg_getOrCreate i reg in Some (at_pc g (StCheck2 x a) (set_reg reg' s)))
         | StCheck2 x a \<Rightarrow> Some (at_pc g (if stopped qs then StDone else StStored x a) s)
         | StStored x a \<Rightarrow> Some (at_pc g (StSlot x a) (set_reg (update_entry x (\<lambda>e. e\<lparr>stored := Some a\<rparr>) reg) s))
         | StSlot x a \<Rightarrow> Some (at_pc g (case entry_value (entry_at reg x) of None \<Rightarrow> StDone | Some sl \<Rightarrow> StValue sl a) s)
         | StValue sl a \<Rightarrow> map_option (\<lambda>reg'. at_pc g (StReady sl) (set_reg reg' s)) (at_slot (store_value (Some a)) sl reg)
         | StReady sl \<Rightarrow> map_option (\<lambda>reg'. at_pc g StDone (set_reg reg' s)) (at_slot swap_ready sl reg)
         | _ \<Rightarrow> Some s)"

text \<open>\<^verbatim>\<open>Close\<close> up to the broadcast groups. The walk over a shard meets the entries that were in it when it loaded the head: others are
  only put before the head, and nothing is removed once the maintenance has ended.\<close>

definition close_move :: "nat \<Rightarrow> 'a space_sys \<Rightarrow> 'a space_sys option" where
  "close_move g s =
     (let qs = s_space s; reg = entries qs
      in case s_pc s g of
           ClSwap \<Rightarrow>
             Some (if stopped qs then at_pc g ClReturned s
                   else at_pc g ClWait (s\<lparr>s_space := qs\<lparr>stopped := True\<rparr>, bound := entry_free reg\<rparr>))
         | ClWait \<Rightarrow> Some (if maintDone qs then at_pc g (ClShard 0) s else s)
         | ClShard n \<Rightarrow> Some (at_pc g (if n < registryShardCount then ClWalk n (shards reg n) else ClDone) s)
         | ClWalk n xs \<Rightarrow>
             (case xs of
                [] \<Rightarrow> Some (at_pc g (ClShard (Suc n)) s)
              | x # ys \<Rightarrow> map_option (\<lambda>reg'. at_pc g (ClWalk n ys) (set_reg reg' s)) (on_slot slot_Close x reg))
         | _ \<Rightarrow> Some s)"

inductive space_race :: "('art, 'err) datura \<Rightarrow> 'v codec \<Rightarrow> 'art space_sys \<Rightarrow> 'art space_sys \<Rightarrow> bool" for D J where
  call_await: "s_pc s g = NoCall \<Longrightarrow> space_race D J s (at_pc g (AwCheck i) s)"
| call_store: "s_pc s g = NoCall \<Longrightarrow> space_race D J s (at_pc g (StCheck i a) s)"
| call_close: "s_pc s g = NoCall \<Longrightarrow> space_race D J s (at_pc g ClSwap s)"
| await: "space_race D J s (await_move D J g s)"
| store: "store_move g s = Some s' \<Longrightarrow> space_race D J s s'"
| close: "close_move g s = Some s' \<Longrightarrow> space_race D J s s'"
| sweep_clear: "\<not> maintDone (s_space s) \<Longrightarrow> sweeping s = None \<Longrightarrow> x \<in> set (shards (entries (s_space s)) n) \<Longrightarrow>
    expired D now (entry_at (entries (s_space s)) x) \<Longrightarrow>
    space_race D J s ((set_reg (update_entry x (\<lambda>e. e\<lparr>stored := None\<rparr>) (entries (s_space s))) s)\<lparr>sweeping := Some x\<rparr>)"
| sweep_remove: "sweeping s = Some x \<Longrightarrow> k = key (entry_at (entries (s_space s)) x) \<Longrightarrow>
    space_race D J s ((set_reg (pruneDependencyEdges k (removeExpired k (entries (s_space s)))) s)\<lparr>sweeping := None\<rparr>)"
| maintenance_ends: "sweeping s = None \<Longrightarrow> stopped (s_space s) \<Longrightarrow>
    space_race D J s (s\<lparr>s_space := (s_space s)\<lparr>maintDone := True\<rparr>\<rparr>)"

section \<open>The invariant\<close>

definition settled :: "'a Registry \<Rightarrow> nat \<Rightarrow> bool" where
  "settled reg x \<longleftrightarrow> state (slot_at reg x) \<noteq> slotPending"

definition listed :: "'a Registry \<Rightarrow> nat \<Rightarrow> bool" where
  "listed reg x \<longleftrightarrow> (\<exists>i. x \<in> set (shards reg i))"

text \<open>Entries and slots are made in pairs, so that the slot of an entry has the same address.\<close>

definition paired :: "'a Registry \<Rightarrow> bool" where
  "paired reg \<longleftrightarrow> reg_wf reg \<and> slot_free reg = entry_free reg \<and> (\<forall>x<entry_free reg. entry_value (entry_at reg x) = Some x)"

text \<open>A store that has made its result visible and will settle the slot.\<close>

fun delivers :: "'a space_pc \<Rightarrow> nat \<Rightarrow> bool" where
  "delivers (StSlot x a) y \<longleftrightarrow> x = y"
| "delivers (StValue x a) y \<longleftrightarrow> x = y"
| "delivers (StReady x) y \<longleftrightarrow> x = y"
| "delivers _ y \<longleftrightarrow> False"

definition cared :: "'a space_sys \<Rightarrow> nat \<Rightarrow> bool" where
  "cared s x \<longleftrightarrow> settled (entries (s_space s)) x \<or> (\<exists>g. delivers (s_pc s g) x)"

definition swept_below :: "nat \<Rightarrow> 'a Registry \<Rightarrow> nat \<Rightarrow> bool" where
  "swept_below b reg n \<longleftrightarrow> (\<forall>x<b. \<forall>i<n. x \<in> set (shards reg i) \<longrightarrow> settled reg x)"

text \<open>What a goroutine knows of the entries it holds: it holds made ones, an \<^verbatim>\<open>Await\<close> past its second test one that was made before \<^verbatim>\<open>Close\<close> began, and a \<^verbatim>\<open>Close\<close> has
  settled those of the shards it has passed that were.\<close>

fun pc_ok :: "bool \<Rightarrow> nat \<Rightarrow> 'a Registry \<Rightarrow> 'a space_pc \<Rightarrow> bool" where
  "pc_ok st b reg (AwCheck2 x) \<longleftrightarrow> x < entry_free reg"
| "pc_ok st b reg (AwStored x) \<longleftrightarrow> x < (if st then b else entry_free reg)"
| "pc_ok st b reg (AwSlot x) \<longleftrightarrow> x < (if st then b else entry_free reg)"
| "pc_ok st b reg (AwState x sl) \<longleftrightarrow> x < (if st then b else entry_free reg) \<and> sl = x"
| "pc_ok st b reg (AwStored2 x sl) \<longleftrightarrow> x < (if st then b else entry_free reg) \<and> sl = x"
| "pc_ok st b reg (AwGot h) \<longleftrightarrow> (\<forall>y. wait_slot h = Some y \<longrightarrow> y < (if st then b else entry_free reg))"
| "pc_ok st b reg (StCheck2 x a) \<longleftrightarrow> x < entry_free reg"
| "pc_ok st b reg (StStored x a) \<longleftrightarrow> x < entry_free reg"
| "pc_ok st b reg (StSlot x a) \<longleftrightarrow> x < entry_free reg"
| "pc_ok st b reg (StValue x a) \<longleftrightarrow> x < entry_free reg"
| "pc_ok st b reg (StReady x) \<longleftrightarrow> x < entry_free reg"
| "pc_ok st b reg ClWait \<longleftrightarrow> st"
| "pc_ok st b reg (ClShard n) \<longleftrightarrow> st \<and> swept_below b reg n"
| "pc_ok st b reg (ClWalk n xs) \<longleftrightarrow> st \<and> swept_below b reg n \<and> (\<forall>x<b. x \<in> set (shards reg n) \<longrightarrow> x \<in> set xs \<or> settled reg x) \<and>
     (\<forall>x\<in>set xs. x < entry_free reg)"
| "pc_ok st b reg ClDone \<longleftrightarrow> st \<and> swept_below b reg registryShardCount"
| "pc_ok st b reg _ \<longleftrightarrow> True"

definition race_inv :: "'a space_sys \<Rightarrow> bool" where
  "race_inv s \<longleftrightarrow>
     (let reg = entries (s_space s); st = stopped (s_space s)
      in paired reg \<and> (st \<longrightarrow> bound s \<le> entry_free reg) \<and> (\<forall>g. pc_ok st (bound s) reg (s_pc s g)) \<and>
         (\<forall>x<entry_free reg. stored (entry_at reg x) \<noteq> None \<longrightarrow> cared s x) \<and>
         (\<forall>x. sweeping s = Some x \<longrightarrow> listed reg x \<and> x < entry_free reg \<and> cared s x) \<and>
         (\<forall>x<entry_free reg. listed reg x \<or> cared s x))"

text \<open>Registries only grow, settled slots stay settled, and what is not new in a shard was there before.\<close>

definition reg_grows :: "'a Registry \<Rightarrow> 'a Registry \<Rightarrow> bool" where
  "reg_grows reg reg' \<longleftrightarrow> entry_free reg \<le> entry_free reg' \<and> (\<forall>x<entry_free reg. settled reg x \<longrightarrow> settled reg' x) \<and>
     (\<forall>x<entry_free reg. \<forall>i. x \<in> set (shards reg' i) \<longrightarrow> x \<in> set (shards reg i)) \<and>
     (\<forall>x<entry_free reg'. entry_free reg \<le> x \<longrightarrow> listed reg' x \<and> stored (entry_at reg' x) = None)"

lemma reg_grows_refl [simp]: "reg_grows reg reg"
  by (simp add: reg_grows_def)

lemma pc_ok_grows:
  assumes "pc_ok st b reg pc" "reg_grows reg reg'" "st \<longrightarrow> st' \<and> b' = b \<and> b \<le> entry_free reg" "\<not> st \<and> st' \<longrightarrow> b' = entry_free reg"
  shows "pc_ok st' b' reg' pc"
proof -
  have g: "entry_free reg \<le> entry_free reg'" "\<And>x. x < entry_free reg \<Longrightarrow> settled reg x \<Longrightarrow> settled reg' x"
    "\<And>x i. x < entry_free reg \<Longrightarrow> x \<in> set (shards reg' i) \<Longrightarrow> x \<in> set (shards reg i)"
    using assms(2) by (auto simp: reg_grows_def)
  have lim: "x < (if st' then b' else entry_free reg')" if "x < (if st then b else entry_free reg)" for x
    using that g(1) assms(3,4) by (auto split: if_splits)
  have sw: "swept_below b' reg' n" if "st" "swept_below b reg n" for n
    using that g assms(3) unfolding swept_below_def by (meson less_le_trans)
  show ?thesis
  proof (cases pc)
    case (ClWalk n xs)
    then show ?thesis using assms(1,3) g sw by (auto dest: less_le_trans)
  qed (use assms(1,3) g(1) lim sw in \<open>auto dest: less_le_trans\<close>)
qed

lemma race_inv_move:
  assumes "race_inv s" "paired (entries (s_space s'))" "reg_grows (entries (s_space s)) (entries (s_space s'))"
    "s_pc s' = (s_pc s)(g := pc)" "\<And>x. delivers (s_pc s g) x \<Longrightarrow> delivers pc x \<or> settled (entries (s_space s')) x"
    "stopped (s_space s) \<longrightarrow> stopped (s_space s') \<and> bound s' = bound s"
    "\<not> stopped (s_space s) \<and> stopped (s_space s') \<longrightarrow> bound s' = entry_free (entries (s_space s))"
    "pc_ok (stopped (s_space s')) (bound s') (entries (s_space s')) pc"
    "\<And>x. x < entry_free (entries (s_space s)) \<Longrightarrow> stored (entry_at (entries (s_space s')) x) \<noteq> None \<Longrightarrow>
       stored (entry_at (entries (s_space s)) x) \<noteq> None \<or> delivers pc x"
    "\<And>x. listed (entries (s_space s)) x \<Longrightarrow> listed (entries (s_space s')) x \<or> cared s x"
    "\<And>x. sweeping s' = Some x \<Longrightarrow> x < entry_free (entries (s_space s)) \<and> listed (entries (s_space s')) x \<and> cared s x"
  shows "race_inv s'"
proof -
  let ?reg = "entries (s_space s)" and ?reg' = "entries (s_space s')"
  have inv: "stopped (s_space s) \<longrightarrow> bound s \<le> entry_free ?reg" "\<And>g. pc_ok (stopped (s_space s)) (bound s) ?reg (s_pc s g)"
    "\<And>x. x < entry_free ?reg \<Longrightarrow> stored (entry_at ?reg x) \<noteq> None \<Longrightarrow> cared s x" "\<And>x. x < entry_free ?reg \<Longrightarrow> listed ?reg x \<or> cared s x"
    using assms(1) by (auto simp: race_inv_def Let_def)
  have g: "entry_free ?reg \<le> entry_free ?reg'" "\<And>x. x < entry_free ?reg \<Longrightarrow> settled ?reg x \<Longrightarrow> settled ?reg' x"
    "\<And>x. x < entry_free ?reg' \<Longrightarrow> entry_free ?reg \<le> x \<Longrightarrow> listed ?reg' x \<and> stored (entry_at ?reg' x) = None"
    using assms(3) by (auto simp: reg_grows_def)
  have c: "cared s' x" if "x < entry_free ?reg" "cared s x" for x
    using that g(2) assms(5) unfolding cared_def assms(4) by (metis fun_upd_other fun_upd_same)
  have d: "cared s' x" if "delivers pc x" for x using that unfolding cared_def assms(4) by (metis fun_upd_same)
  have "pc_ok (stopped (s_space s')) (bound s') ?reg' (s_pc s' h)" for h
    using assms(8) pc_ok_grows [OF inv(2) assms(3), of "stopped (s_space s')" "bound s'" h] inv(1) assms(6,7) by (auto simp: assms(4))
  moreover have "cared s' x" if "x < entry_free ?reg'" "stored (entry_at ?reg' x) \<noteq> None" for x
    using that assms(9) [of x] inv(3) [of x] g(3) [of x] c d by (cases "x < entry_free ?reg") auto
  moreover have "listed ?reg' x \<or> cared s' x" if "x < entry_free ?reg'" for x
    using that assms(10) [of x] inv(4) [of x] g(3) [of x] c by (cases "x < entry_free ?reg") auto
  ultimately show ?thesis
    using assms(2,6,7,11) inv(1) g(1) c unfolding race_inv_def Let_def by (auto dest: le_trans)
qed

section \<open>What each step changes in the registry\<close>

lemma race_inv_pc:
  assumes "race_inv s" "\<And>x. delivers (s_pc s g) x \<Longrightarrow> delivers pc x" "pc_ok (stopped (s_space s)) (bound s) (entries (s_space s)) pc"
  shows "race_inv (at_pc g pc s)"
  by (rule race_inv_move [OF assms(1), of _ g pc]) (use assms in \<open>auto simp: at_pc_def race_inv_def Let_def\<close>)

lemma getOrCreate_grows:
  assumes "paired reg" "reg_getOrCreate k reg = (x, reg')"
  shows "paired reg'" "reg_grows reg reg'" "x < entry_free reg'" "\<And>y. listed reg y \<Longrightarrow> listed reg' y"
    "\<And>y. y < entry_free reg \<Longrightarrow> stored (entry_at reg' y) = stored (entry_at reg y)"
proof -
  have wf: "reg_wf reg" "slot_free reg = entry_free reg" "\<forall>x<entry_free reg. entry_value (entry_at reg x) = Some x"
    using assms(1) by (simp_all add: paired_def)
  consider (hit) "reg_find k reg = Some x" "reg' = reg" | (miss) "reg_find k reg = None" "x = entry_free reg" "reg' = inserted k reg"
    using assms(2) reg_getOrCreate_hit [of k reg] reg_getOrCreate_miss [OF wf(1), of k] by (cases "reg_find k reg") auto
  then have "paired reg' \<and> reg_grows reg reg' \<and> x < entry_free reg' \<and> (\<forall>y. listed reg y \<longrightarrow> listed reg' y) \<and>
    (\<forall>y<entry_free reg. stored (entry_at reg' y) = stored (entry_at reg y))"
  proof cases
    case hit
    then show ?thesis using assms(1) reg_find_in [OF wf(1) hit(1)] reg_wf_entry(1) [OF wf(1)] by auto
  next
    case miss
    have "entry_free reg \<in> set (shards reg' (shard_of k))" by (simp add: miss(3) inserted_fields)
    then have "listed reg' (entry_free reg)" unfolding listed_def by blast
    moreover have "paired reg'" using wf reg_wf_inserted [OF wf(1) miss(1)] by (auto simp: paired_def miss(3) inserted_fields fresh_entry_def less_Suc_eq)
    moreover have "set (shards reg i) \<subseteq> set (shards reg' i)" for i by (auto simp: miss(3) inserted_fields)
    then have "listed reg' y" if "listed reg y" for y using that unfolding listed_def by blast
    ultimately show ?thesis
      using miss(2) by (auto simp: reg_grows_def miss(3) inserted_fields settled_def wf(2) fresh_entry_def less_Suc_eq newResultSlot_def)
  qed
  then show "paired reg'" "reg_grows reg reg'" "x < entry_free reg'" "\<And>y. listed reg y \<Longrightarrow> listed reg' y"
    "\<And>y. y < entry_free reg \<Longrightarrow> stored (entry_at reg' y) = stored (entry_at reg y)" by blast+
qed

lemma stored_grows:
  assumes "paired reg" "reg' = update_entry x (\<lambda>e. e\<lparr>stored := v\<rparr>) reg"
  shows "paired reg'" "reg_grows reg reg'" "listed reg' = listed reg" "entry_free reg' = entry_free reg"
    "stored (entry_at reg' y) = (if y = x then v else stored (entry_at reg y))"
proof -
  have "reg_wf reg'" using assms by (auto simp: paired_def intro!: reg_wf_update)
  then show "paired reg'" using assms by (auto simp: paired_def update_entry_def)
  show "reg_grows reg reg'" "listed reg' = listed reg" "entry_free reg' = entry_free reg"
    "stored (entry_at reg' y) = (if y = x then v else stored (entry_at reg y))"
    by (auto simp: assms(2) update_entry_def reg_grows_def listed_def settled_def fun_eq_iff)
qed

context slot_op
begin

lemma at_slot_returns: "reg_wf reg \<Longrightarrow> \<exists>reg'. at_slot f s reg = Some reg'"
  using op_returns reg_wf_stacks [of reg s] by (fastforce simp: at_slot_def)

lemma at_slot_grows:
  assumes "paired reg" "at_slot f s reg = Some reg'" "\<And>sl m sl' m'. f sl m = Some (sl', m') \<Longrightarrow> state sl \<noteq> slotPending \<Longrightarrow> state sl' \<noteq> slotPending"
  shows "paired reg' \<and> reg_grows reg reg' \<and> shards reg' = shards reg \<and> entry_at reg' = entry_at reg \<and> entry_free reg' = entry_free reg \<and>
    (\<exists>m. f (slot_at reg s) (sleepers reg) = Some (slot_at reg' s, m))"
proof -
  have wf: "reg_wf reg" using assms(1) by (simp add: paired_def)
  obtain xs where xs: "waiting_nodes (slot_at reg s) (sleepers reg) xs" using reg_wf_stacks [OF wf] by blast
  from op_returns [OF this] obtain sl m ys where f: "f (slot_at reg s) (sleepers reg) = Some (sl, m)"
    "\<And>y. waiter_next (waiter_at m y) = waiter_next (waiter_at (sleepers reg) y)" "waiting_nodes sl m ys" by blast
  have r: "reg' = reg\<lparr>slot_at := (slot_at reg)(s := sl), sleepers := m\<rparr>" using assms(2) f(1) by (simp add: at_slot_def)
  have "\<exists>zs. waiting_nodes (slot_at reg s') m zs" for s'
    using reg_wf_stacks [OF wf, of s'] f(2) by (simp add: waiting_nodes_def)
  then have "reg_wf reg'" using wf f(3) by (auto simp: reg_wf_def r)
  then show ?thesis using assms(1) f(1) assms(3) [OF f(1)] by (auto simp: paired_def r reg_grows_def settled_def)
qed

end

interpretation value_store: slot_op "store_value v" for v
  by unfold_locales (auto simp: store_value_def waiting_nodes_def)

interpretation ready_swap: slot_op swap_ready
proof unfold_locales
  fix sl :: "'a resultSlot" and m xs
  assume w: "waiting_nodes sl m xs"
  then have "waiting_nodes (sl\<lparr>slot_value := slot_value sl\<rparr>) m xs" by simp
  moreover have "swap_ready sl m = Deliver (slot_value sl) sl m" by (simp add: swap_ready_def Deliver_def Let_def)
  ultimately show "\<exists>sl' m'. swap_ready sl m = Some (sl', m') \<and> (\<forall>y. waiter_next (waiter_at m' y) = waiter_next (waiter_at m y)) \<and>
    (\<exists>ys. waiting_nodes sl' m' ys)" using deliver.op_returns [OF w, of "slot_value sl"] by simp
qed

lemma wakeWaiters_state: "wakeWaiters sl m = Some (sl', m') \<Longrightarrow> state sl' = state sl"
  by (auto simp: wakeWaiters_def)

lemma swap_ready_state: "swap_ready sl m = Some (sl', m') \<Longrightarrow> state sl' \<noteq> slotPending"
  by (auto simp: swap_ready_def dest: wakeWaiters_state split: if_splits)

lemma slot_Close_state: "slot_Close sl m = Some (sl', m') \<Longrightarrow> state sl' \<noteq> slotPending"
  by (auto simp: slot_Close_def dest: wakeWaiters_state split: slot_state.splits)

section \<open>Every step keeps the invariant\<close>

lemma handle_slots [simp]:
  "wait_slot (errorResultWait D J e) = None" "wait_slot (readyResultWait v) = None" "wait_slot (pendingResultWait sl) = sl"
  by (simp_all add: errorResultWait_def readyResultWait_def pendingResultWait_def split: sum.split)

lemma race_invD:
  assumes "race_inv s"
  shows "paired (entries (s_space s))" "pc_ok (stopped (s_space s)) (bound s) (entries (s_space s)) (s_pc s g)"
    "stopped (s_space s) \<Longrightarrow> bound s \<le> entry_free (entries (s_space s))"
    "x < (if stopped (s_space s) then bound s else entry_free (entries (s_space s))) \<Longrightarrow>
       x < entry_free (entries (s_space s)) \<and> entry_value (entry_at (entries (s_space s)) x) = Some x"
    "x < entry_free (entries (s_space s)) \<Longrightarrow> entry_value (entry_at (entries (s_space s)) x) = Some x"
    "sweeping s = Some x \<Longrightarrow> x < entry_free (entries (s_space s)) \<and> listed (entries (s_space s)) x \<and> cared s x"
    "x < entry_free (entries (s_space s)) \<Longrightarrow> stored (entry_at (entries (s_space s)) x) \<noteq> None \<Longrightarrow> cared s x"
    "x < entry_free (entries (s_space s)) \<Longrightarrow> listed (entries (s_space s)) x \<or> cared s x"
  using assms by (auto simp: race_inv_def Let_def paired_def split: if_splits)

lemma race_inv_create:
  assumes "race_inv s" "reg_getOrCreate i (entries (s_space s)) = (x, reg')" "\<And>y. \<not> delivers (s_pc s g) y" "\<And>y. \<not> delivers pc y"
    "x < entry_free reg' \<Longrightarrow> pc_ok (stopped (s_space s)) (bound s) reg' pc"
  shows "race_inv (at_pc g pc (set_reg reg' s))"
proof -
  note g = getOrCreate_grows [OF race_invD(1) [OF assms(1)] assms(2)]
  show ?thesis
    by (rule race_inv_move [OF assms(1), of _ g pc])
      (use g assms(3-5) race_invD(6) [OF assms(1)] in \<open>auto simp: at_pc_def set_reg_def\<close>)
qed

lemma await_inv:
  assumes "race_inv s"
  shows "race_inv (await_move D J g s)"
proof -
  note ok = race_invD(2) [OF assms, of g]
  show ?thesis
  proof (cases "s_pc s g")
    case (AwCreate i)
    obtain x reg' where "reg_getOrCreate i (entries (s_space s)) = (x, reg')" by force
    with race_inv_create [OF assms this, of g "AwCheck2 x"] AwCreate show ?thesis by (simp add: await_move_def Let_def)
  qed (use assms ok race_invD(4) [OF assms] in \<open>auto simp: await_move_def Let_def intro!: race_inv_pc split: option.split\<close>)
qed

lemma race_inv_slot:
  assumes "race_inv s" "paired reg'" "reg_grows (entries (s_space s)) reg'" "shards reg' = shards (entries (s_space s))"
    "entry_at reg' = entry_at (entries (s_space s))" "entry_free reg' = entry_free (entries (s_space s))"
    "\<And>x. delivers (s_pc s g) x \<Longrightarrow> delivers pc x \<or> settled reg' x" "pc_ok (stopped (s_space s)) (bound s) reg' pc"
  shows "race_inv (at_pc g pc (set_reg reg' s))"
proof -
  have "listed reg' = listed (entries (s_space s))" by (simp add: listed_def assms(4) fun_eq_iff)
  then show ?thesis
    by (intro race_inv_move [OF assms(1), of _ g pc]) (use assms race_invD(6) [OF assms(1)] in \<open>auto simp: at_pc_def set_reg_def\<close>)
qed

lemma store_inv:
  assumes "race_inv s" "store_move g s = Some s'"
  shows "race_inv s'"
proof -
  note ok = race_invD(2) [OF assms(1), of g]
  note p = race_invD(1) [OF assms(1)]
  show ?thesis
  proof (cases "s_pc s g")
    case (StCreate i a)
    obtain x reg' where "reg_getOrCreate i (entries (s_space s)) = (x, reg')" by force
    with race_inv_create [OF assms(1) this, of g "StCheck2 x a"] StCreate assms(2) show ?thesis by (simp add: store_move_def Let_def)
  next
    case (StStored x a)
    let ?r = "update_entry x (\<lambda>e. e\<lparr>stored := Some a\<rparr>) (entries (s_space s))"
    note g = stored_grows [OF p, of ?r x "Some a", OF refl]
    have "s' = at_pc g (StSlot x a) (set_reg ?r s)" using StStored assms(2) by (simp add: store_move_def)
    moreover have "race_inv (at_pc g (StSlot x a) (set_reg ?r s))"
      by (rule race_inv_move [OF assms(1), of _ g "StSlot x a"])
        (use g StStored ok race_invD(6) [OF assms(1)] in \<open>auto simp: at_pc_def set_reg_def split: if_splits\<close>)
    ultimately show ?thesis by simp
  next
    case (StValue x a)
    then obtain reg' where r: "at_slot (store_value (Some a)) x (entries (s_space s)) = Some reg'" "s' = at_pc g (StReady x) (set_reg reg' s)"
      using assms(2) by (auto simp: store_move_def)
    have "paired reg' \<and> reg_grows (entries (s_space s)) reg' \<and> shards reg' = shards (entries (s_space s)) \<and> entry_at reg' = entry_at (entries (s_space s)) \<and>
      entry_free reg' = entry_free (entries (s_space s))"
      using value_store.at_slot_grows [OF p r(1)] by (auto simp: store_value_def)
    then show ?thesis using race_inv_slot [OF assms(1), of reg' g "StReady x"] StValue ok r(2) by simp
  next
    case (StReady x)
    then obtain reg' where r: "at_slot swap_ready x (entries (s_space s)) = Some reg'" "s' = at_pc g StDone (set_reg reg' s)"
      using assms(2) by (auto simp: store_move_def)
    have g: "paired reg' \<and> reg_grows (entries (s_space s)) reg' \<and> shards reg' = shards (entries (s_space s)) \<and> entry_at reg' = entry_at (entries (s_space s)) \<and>
      entry_free reg' = entry_free (entries (s_space s)) \<and> (\<exists>m. swap_ready (slot_at (entries (s_space s)) x) (sleepers (entries (s_space s))) = Some (slot_at reg' x, m))"
      using ready_swap.at_slot_grows [OF p r(1)] swap_ready_state by blast
    then have "settled reg' x" using swap_ready_state by (auto simp: settled_def)
    with g show ?thesis using race_inv_slot [OF assms(1), of reg' g StDone] StReady r(2) by simp
  qed (use assms ok race_invD(4,5) [OF assms(1)] in \<open>auto simp: store_move_def Let_def intro!: race_inv_pc split: option.split\<close>)
qed

lemma swept_below_mono: "swept_below b reg n \<Longrightarrow> m \<le> n \<Longrightarrow> swept_below b reg m"
  unfolding swept_below_def by (meson less_le_trans)

lemma close_inv:
  assumes "race_inv s" "close_move g s = Some s'"
  shows "race_inv s'"
proof -
  let ?reg = "entries (s_space s)"
  note ok = race_invD(2) [OF assms(1), of g]
  note p = race_invD(1) [OF assms(1)]
  show ?thesis
  proof (cases "s_pc s g")
    case ClSwap
    show ?thesis
    proof (cases "stopped (s_space s)")
      case False
      then have s': "s' = at_pc g ClWait (s\<lparr>s_space := (s_space s)\<lparr>stopped := True\<rparr>, bound := entry_free ?reg\<rparr>)"
        using ClSwap assms(2) by (simp add: close_move_def Let_def)
      show ?thesis unfolding s'
        by (rule race_inv_move [OF assms(1), of _ g ClWait]) (use ClSwap False p race_invD(6) [OF assms(1)] in \<open>auto simp: at_pc_def\<close>)
    qed (use ClSwap assms in \<open>auto simp: close_move_def intro: race_inv_pc\<close>)
  next
    case (ClShard n)
    have "\<forall>x\<in>set (shards ?reg n). x < entry_free ?reg" using p reg_wf_entry(1) by (auto simp: paired_def)
    then show ?thesis using ClShard assms ok swept_below_mono [of "bound s" ?reg n registryShardCount]
      by (auto simp: close_move_def Let_def not_less intro!: race_inv_pc split: if_splits)
  next
    case (ClWalk n xs)
    show ?thesis
    proof (cases xs)
      case Nil
      then show ?thesis using ClWalk assms ok by (auto simp: close_move_def Let_def swept_below_def less_Suc_eq intro!: race_inv_pc)
    next
      case (Cons x ys)
      have x: "entry_value (entry_at ?reg x) = Some x" using ok ClWalk Cons race_invD(5) [OF assms(1)] by simp
      then obtain reg' where r: "at_slot slot_Close x ?reg = Some reg'" "s' = at_pc g (ClWalk n ys) (set_reg reg' s)"
        using assms(2) ClWalk Cons by (auto simp: close_move_def on_slot_at)
      have g: "paired reg'" "reg_grows ?reg reg'" "shards reg' = shards ?reg" "entry_at reg' = entry_at ?reg" "entry_free reg' = entry_free ?reg"
        "\<exists>m. slot_Close (slot_at ?reg x) (sleepers ?reg) = Some (slot_at reg' x, m)"
        using slot_close.at_slot_grows [OF p r(1)] slot_Close_state by blast+
      then have "settled reg' x" using slot_Close_state by (auto simp: settled_def)
      moreover have "pc_ok (stopped (s_space s)) (bound s) reg' (ClWalk n xs)"
        using pc_ok_grows [OF _ g(2)] ok ClWalk race_invD(3) [OF assms(1)] by metis
      ultimately have "pc_ok (stopped (s_space s)) (bound s) reg' (ClWalk n ys)" using Cons by auto
      then show ?thesis unfolding r(2) by (intro race_inv_slot [OF assms(1) g(1-5)]) (use ClWalk in simp_all)
    qed
  qed (use assms ok in \<open>auto simp: close_move_def Let_def swept_below_def intro!: race_inv_pc split: if_splits\<close>)
qed

text \<open>A step that leaves the goroutines where they are.\<close>

lemma race_inv_maint:
  assumes "race_inv s" "paired reg'" "reg_grows (entries (s_space s)) reg'" "s_space s' = (s_space s)\<lparr>entries := reg', maintDone := b\<rparr>"
    "s_pc s' = s_pc s" "bound s' = bound s"
    "\<And>x. stored (entry_at reg' x) \<noteq> None \<Longrightarrow> stored (entry_at (entries (s_space s)) x) \<noteq> None"
    "\<And>x. listed (entries (s_space s)) x \<Longrightarrow> listed reg' x \<or> cared s x"
    "\<And>x. sweeping s' = Some x \<Longrightarrow> x < entry_free (entries (s_space s)) \<and> listed reg' x \<and> cared s x"
  shows "race_inv s'"
proof (rule race_inv_move [OF assms(1), of s' 0 "s_pc s 0"])
  show "pc_ok (stopped (s_space s')) (bound s') (entries (s_space s')) (s_pc s 0)"
    using pc_ok_grows [OF race_invD(2) [OF assms(1)] assms(3)] race_invD(3) [OF assms(1)] by (simp add: assms(4,6))
qed (use assms in \<open>auto\<close>)

lemma removeExpired_grows:
  assumes "paired reg" "listed reg x" "k = key (entry_at reg x)" "reg' = pruneDependencyEdges k (removeExpired k reg)"
  shows "paired reg'" "reg_grows reg reg'" "entry_at reg' = entry_at reg" "\<And>y. listed reg y \<Longrightarrow> listed reg' y \<or> y = x"
proof -
  have wf: "reg_wf reg" using assms(1) by (simp add: paired_def)
  note r = removeExpired_spec [OF wf, where k = k]
  have e: "reg' = removeExpired k reg" using r(3) [of k] by (simp add: assms(4) pruneDependencyEdges_def)
  have f: "entry_at reg' = entry_at reg" "entry_free reg' = entry_free reg" "slot_free reg' = slot_free reg" "slot_at reg' = slot_at reg"
    "set (shards reg' i) \<subseteq> set (shards reg i)" for i
    by (auto simp: e removeExpired_def set_shard_def Let_def split: if_splits dest: set_remove_first_subset [THEN subsetD])
  show "entry_at reg' = entry_at reg" by (rule f)
  show "paired reg'" using assms(1) r(1) f by (simp add: paired_def e)
  show "reg_grows reg reg'" using f(2,4,5) by (auto simp: reg_grows_def settled_def)
  have x: "reg_find k reg = Some x" using assms(2,3) reg_wf_entry(3) [OF wf] unfolding listed_def reg_find_Some [OF wf] by blast
  show "listed reg' y \<or> y = x" if y: "listed reg y" for y
  proof -
    let ?k = "key (entry_at reg y)"
    have find: "reg_find ?k reg = Some y" using y reg_wf_entry(3) [OF wf] unfolding listed_def reg_find_Some [OF wf] by blast
    show ?thesis
    proof (cases "?k = k")
      case False
      then have "reg_find ?k reg' = Some y" using r(3) [of ?k] find by (simp add: e)
      then show ?thesis using reg_find_in [of reg' ?k y] r(1) by (auto simp: e listed_def)
    qed (use find x in simp)
  qed
qed

lemma race_inv_step:
  assumes "space_race D J s s'" "race_inv s"
  shows "race_inv s'"
  using assms(1)
proof cases
  case (sweep_clear x n now)
  let ?r = "update_entry x (\<lambda>e. e\<lparr>stored := None\<rparr>) (entries (s_space s))"
  note g = stored_grows [OF race_invD(1) [OF assms(2)], of ?r x None, OF refl]
  have x: "x < entry_free (entries (s_space s))" "listed (entries (s_space s)) x"
    using sweep_clear(4) race_invD(1) [OF assms(2)] reg_wf_entry(1) by (auto simp: paired_def listed_def)
  have "stored (entry_at (entries (s_space s)) x) \<noteq> None" using sweep_clear(5) by (auto simp: expired_def split: option.splits)
  then have "cared s x" using race_invD(7) [OF assms(2) x(1)] by simp
  then show ?thesis unfolding sweep_clear(1)
    by (intro race_inv_maint [OF assms(2), of ?r _ "maintDone (s_space s)"]) (use g x in \<open>auto simp: set_reg_def split: if_splits\<close>)
next
  case (sweep_remove x k)
  let ?r = "pruneDependencyEdges k (removeExpired k (entries (s_space s)))"
  note x = race_invD(6) [OF assms(2) sweep_remove(2)]
  note g = removeExpired_grows [OF race_invD(1) [OF assms(2)] x [THEN conjunct2, THEN conjunct1] sweep_remove(3) refl]
  show ?thesis unfolding sweep_remove(1)
    by (intro race_inv_maint [OF assms(2), of ?r _ "maintDone (s_space s)"]) (use g x in \<open>auto simp: set_reg_def\<close>)
next
  case maintenance_ends
  show ?thesis unfolding maintenance_ends(1)
    by (intro race_inv_maint [OF assms(2), of "entries (s_space s)" _ True]) (use race_invD(1,6) [OF assms(2)] in auto)
next
  case (store g)
  then show ?thesis using store_inv [OF assms(2)] by blast
next
  case (close g)
  then show ?thesis using close_inv [OF assms(2)] by blast
next
  case (await g)
  then show ?thesis using await_inv [OF assms(2)] by blast
qed (auto intro!: race_inv_pc [OF assms(2)])

lemma race_inv_run: "(space_race D J)\<^sup>*\<^sup>* (new_space_sys uuid) s \<Longrightarrow> race_inv s"
proof (induction rule: rtranclp_induct)
  case base
  show ?case using reg_wf_new by (auto simp: race_inv_def new_space_sys_def NewQSpace_def paired_def Let_def) (simp_all add: NewRegistry_def)
qed (rule race_inv_step)


section \<open>Sample runs\<close>

lemma at_pc_simps [simp]:
  "s_space (at_pc g pc s) = s_space s" "s_pc (at_pc g pc s) = (s_pc s)(g := pc)" "sweeping (at_pc g pc s) = sweeping s" "bound (at_pc g pc s) = bound s"
  "s_space (set_reg reg s) = (s_space s)\<lparr>entries := reg\<rparr>" "s_pc (set_reg reg s) = s_pc s" "sweeping (set_reg reg s) = sweeping s" "bound (set_reg reg s) = bound s"
  by (simp_all add: at_pc_def set_reg_def)

text \<open>A store that nobody disturbs comes to its end, and its result is there.\<close>

lemma store_completes:
  assumes "race_inv s" "s_pc s g = NoCall" "\<not> stopped (s_space s)"
  shows "\<exists>s' x. (space_race D J)\<^sup>*\<^sup>* s s' \<and> s_pc s' = (s_pc s)(g := StDone) \<and> sweeping s' = sweeping s \<and> \<not> stopped (s_space s') \<and>
    maintDone (s_space s') = maintDone (s_space s) \<and> reg_find i (entries (s_space s')) = Some x \<and> stored (entry_at (entries (s_space s')) x) = Some a \<and>
    (\<forall>y. reg_find i (entries (s_space s)) = Some y \<longrightarrow> x = y)"
proof -
  let ?reg = "entries (s_space s)"
  obtain x r1 where c: "reg_getOrCreate i ?reg = (x, r1)" by force
  note p = race_invD(1) [OF assms(1)]
  note g1 = getOrCreate_grows [OF p c]
  have wf: "reg_wf ?reg" using p by (simp add: paired_def)
  have f1: "reg_find i r1 = Some x" "\<And>y. reg_find i ?reg = Some y \<Longrightarrow> x = y" using getOrCreate_spec(2,4) [OF wf c] by (blast, force)
  define r2 where "r2 = update_entry x (\<lambda>e. e\<lparr>stored := Some a\<rparr>) r1"
  note g2 = stored_grows [OF g1(1) r2_def]
  have x: "entry_value (entry_at r2 x) = Some x" using g2(1,4) g1(3) by (simp add: paired_def)
  obtain r3 where r3: "at_slot (store_value (Some a)) x r2 = Some r3" using value_store.at_slot_returns g2(1) by (fastforce simp: paired_def)
  have g3: "paired r3" "shards r3 = shards r2" "entry_at r3 = entry_at r2"
    using value_store.at_slot_grows [OF g2(1) r3] by (auto simp: store_value_def)
  obtain r4 where r4: "at_slot swap_ready x r3 = Some r4" using ready_swap.at_slot_returns g3(1) by (fastforce simp: paired_def)
  have g4: "shards r4 = shards r3" "entry_at r4 = entry_at r3" using ready_swap.at_slot_grows [OF g3(1) r4] swap_ready_state by blast+
  define s1 where "s1 = at_pc g (StCheck i a) s"
  define s2 where "s2 = at_pc g (StCreate i a) s1"
  define s3 where "s3 = at_pc g (StCheck2 x a) (set_reg r1 s2)"
  define s4 where "s4 = at_pc g (StStored x a) s3"
  define s5 where "s5 = at_pc g (StSlot x a) (set_reg r2 s4)"
  define s6 where "s6 = at_pc g (StValue x a) s5"
  define s7 where "s7 = at_pc g (StReady x) (set_reg r3 s6)"
  define s8 where "s8 = at_pc g StDone (set_reg r4 s7)"
  note defs = s1_def s2_def s3_def s4_def s5_def s6_def s7_def s8_def
  have "store_move g s1 = Some s2" "store_move g s2 = Some s3" "store_move g s3 = Some s4" "store_move g s4 = Some s5"
    "store_move g s5 = Some s6" "store_move g s6 = Some s7" "store_move g s7 = Some s8"
    using assms(3) c x r3 r4 by (simp_all add: store_move_def Let_def defs r2_def)
  then have "(space_race D J)\<^sup>*\<^sup>* s1 s8" by (meson space_race.store converse_rtranclp_into_rtranclp rtranclp.rtrancl_refl)
  moreover have "space_race D J s s1" unfolding s1_def by (rule space_race.call_store [OF assms(2)])
  ultimately have run: "(space_race D J)\<^sup>*\<^sup>* s s8" by simp
  have "reg_find i r2 = Some x" using f1(1) by (simp add: r2_def)
  then have "reg_find i r4 = Some x" "stored (entry_at r4 x) = Some a" using g2(5) [of x] by (simp_all add: reg_find_def g4 g3)
  then show ?thesis using run assms(3) f1(2) by (intro exI [of _ s8] exI [of _ x]) (auto simp: defs)
qed

text \<open>C35: The maintenance can drop a fresh result. When it has cleared an expired result of an identifier, a store of that identifier can come to its end before the maintenance
  takes the entry out of the registry: the artifact that was just stored, whatever its time to live, is gone with the next step, and nobody
  finds it any more.\<close>

theorem store_lost_by_sweep:
  assumes "is_expired D now old"
  shows "\<exists>s s' x. (space_race D J)\<^sup>*\<^sup>* (new_space_sys uuid) s \<and> s_pc s 1 = StDone \<and>
    space_PeekResult D i (s_space s) = (cloneArtifact D (Some fresh), True) \<and>
    sweeping s = Some x \<and> space_race D J s s' \<and> sweeping s' = None \<and> \<not> stopped (s_space s') \<and> space_PeekResult D i (s_space s') = (None, False)"
proof -
  let ?s0 = "new_space_sys uuid :: 'a space_sys"
  have s0: "race_inv ?s0" "\<not> stopped (s_space ?s0)" "s_pc ?s0 = (\<lambda>_. NoCall)" "\<not> maintDone (s_space ?s0)" "sweeping ?s0 = None"
    using race_inv_run [OF rtranclp.rtrancl_refl] by (auto simp: new_space_sys_def NewQSpace_def)
  obtain s1 x where s1: "(space_race D J)\<^sup>*\<^sup>* ?s0 s1" "s_pc s1 = (\<lambda>_. NoCall)(0 := StDone)" "sweeping s1 = None" "\<not> stopped (s_space s1)"
    "\<not> maintDone (s_space s1)" "reg_find i (entries (s_space s1)) = Some x" "stored (entry_at (entries (s_space s1)) x) = Some old"
    using store_completes [OF s0(1) _ s0(2), of 0 D J i old] s0(3-5) by auto
  define s2 where "s2 = (set_reg (update_entry x (\<lambda>e. e\<lparr>stored := None\<rparr>) (entries (s_space s1))) s1)\<lparr>sweeping := Some x\<rparr>"
  have wf: "reg_wf (entries (s_space s1))" using race_invD(1) [OF race_inv_run [OF s1(1)]] by (simp add: paired_def)
  have "expired D now (entry_at (entries (s_space s1)) x)" using assms s1(7) by (auto simp: expired_iff)
  then have sw: "space_race D J s1 s2"
    unfolding s2_def using s1(3,5) reg_find_in [OF wf s1(6)] by (intro space_race.sweep_clear) auto
  have r2: "(space_race D J)\<^sup>*\<^sup>* ?s0 s2" using s1(1) sw by (rule rtranclp.rtrancl_into_rtrancl)
  have s2: "s_pc s2 1 = NoCall" "\<not> stopped (s_space s2)" "sweeping s2 = Some x" "reg_find i (entries (s_space s2)) = Some x"
    using s1(2,4,6) by (simp_all add: s2_def)
  obtain s3 where s3: "(space_race D J)\<^sup>*\<^sup>* s2 s3" "s_pc s3 1 = StDone" "sweeping s3 = Some x" "\<not> stopped (s_space s3)"
    "reg_find i (entries (s_space s3)) = Some x" "stored (entry_at (entries (s_space s3)) x) = Some fresh"
    using store_completes [OF race_inv_run [OF r2] s2(1,2), of D J i fresh] s2(3,4) by auto
  have run: "(space_race D J)\<^sup>*\<^sup>* ?s0 s3" using r2 s3(1) by (rule rtranclp_trans)
  have wf3: "reg_wf (entries (s_space s3))" using race_invD(1) [OF race_inv_run [OF run]] by (simp add: paired_def)
  have k: "key (entry_at (entries (s_space s3)) x) = i" using reg_find_in [OF wf3 s3(5)] by simp
  define s4 where "s4 = (set_reg (pruneDependencyEdges i (removeExpired i (entries (s_space s3)))) s3)\<lparr>sweeping := None\<rparr>"
  have "space_race D J s3 s4" unfolding s4_def using space_race.sweep_remove [OF s3(3), of i D J] k by simp
  moreover have "reg_find i (entries (s_space s4)) = None"
    using removeExpired_spec(3) [OF wf3, of i i] by (simp add: s4_def pruneDependencyEdges_def)
  ultimately show ?thesis using run s3 by (intro exI [of _ s3] exI [of _ s4] exI [of _ x]) (auto simp: space_PeekResult_def s4_def)
qed

theorem store_lost_by_sweep_witness:
  "\<exists>fresh s s' x. newResultArtifact envelopes number_codec ''job'' (VOther 42) 0 = Inr fresh \<and>
     (space_race envelopes number_codec)\<^sup>*\<^sup>* (new_space_sys []) s \<and> space_PeekResult envelopes ''job'' (s_space s) = (Some fresh, True) \<and>
     sweeping s = Some x \<and> space_race envelopes number_codec s s' \<and> space_PeekResult envelopes ''job'' (s_space s') = (None, False)"
proof -
  have made: "\<exists>a. newResultArtifact envelopes number_codec ''job'' (VOther 42) ttl = Inr a" for ttl
    by (simp add: newResultArtifact_def envelopes_def encodePayload_def number_codec_def in64_def Let_def)
  obtain old fresh where a: "newResultArtifact envelopes number_codec ''job'' (VOther 42) 7 = Inr old"
    "newResultArtifact envelopes number_codec ''job'' (VOther 42) 0 = Inr fresh" using made by blast
  have "d_Peek envelopes artifactAttrTTLNs old = FormatInt 7"
    using a(1) by (auto simp: newResultArtifact_def envelopes_def encodePayload_def number_codec_def Let_def split: sum.splits if_splits)
  then have "artifactTTL envelopes (Some old) = 7" by (rule artifactTTL_read) (simp add: in64_def)
  then have "is_expired envelopes 8 old" by (simp add: is_expired_def since_def) (simp add: envelopes_def)
  from store_lost_by_sweep [OF this, of number_codec "[]" "''job''" fresh] a(2) show ?thesis
    by (auto simp: cloneArtifact_def) (auto simp: envelopes_def)
qed

text \<open>A \<^verbatim>\<open>Close\<close> that has waited for the maintenance comes to its end.\<close>

lemma walk_ends:
  "race_inv s \<Longrightarrow> s_pc s c = ClWalk n xs \<Longrightarrow> \<exists>s'. (space_race D J)\<^sup>*\<^sup>* s s' \<and> s_pc s' = (s_pc s)(c := ClShard (Suc n))"
proof (induction xs arbitrary: s)
  case Nil
  then have "space_race D J s (at_pc c (ClShard (Suc n)) s)" by (intro space_race.close [of c]) (simp add: close_move_def)
  then show ?case by (intro exI [of _ "at_pc c (ClShard (Suc n)) s"]) auto
next
  case (Cons x xs)
  have "entry_value (entry_at (entries (s_space s)) x) = Some x" using race_invD(2) [OF Cons.prems(1), of c] race_invD(5) [OF Cons.prems(1)] Cons.prems(2) by simp
  moreover obtain reg' where "at_slot slot_Close x (entries (s_space s)) = Some reg'"
    using slot_close.at_slot_returns race_invD(1) [OF Cons.prems(1)] by (fastforce simp: paired_def)
  ultimately have "close_move c s = Some (at_pc c (ClWalk n xs) (set_reg reg' s))" using Cons.prems(2) by (simp add: close_move_def on_slot_at)
  then have step: "space_race D J s (at_pc c (ClWalk n xs) (set_reg reg' s))" by (rule space_race.close)
  have pc: "s_pc (at_pc c (ClWalk n xs) (set_reg reg' s)) = (s_pc s)(c := ClWalk n xs)" by simp
  from Cons.IH [OF race_inv_step [OF step Cons.prems(1)], unfolded pc fun_upd_upd, OF fun_upd_same] obtain s' where
    "(space_race D J)\<^sup>*\<^sup>* (at_pc c (ClWalk n xs) (set_reg reg' s)) s'" "s_pc s' = (s_pc s)(c := ClShard (Suc n))" by blast
  then show ?case using converse_rtranclp_into_rtranclp [of "space_race D J", OF step] by blast
qed

lemma shards_end:
  "race_inv s \<Longrightarrow> s_pc s c = ClShard n \<Longrightarrow> \<exists>s'. (space_race D J)\<^sup>*\<^sup>* s s' \<and> s_pc s' = (s_pc s)(c := ClDone)"
proof (induction "registryShardCount - n" arbitrary: n s rule: less_induct)
  case less
  let ?pc = "if n < registryShardCount then ClWalk n (shards (entries (s_space s)) n) else ClDone"
  have step: "space_race D J s (at_pc c ?pc s)" using less.prems(2) by (intro space_race.close [of c]) (simp add: close_move_def)
  show ?case
  proof (cases "n < registryShardCount")
    case True
    then obtain s1 where s1: "(space_race D J)\<^sup>*\<^sup>* (at_pc c ?pc s) s1" "s_pc s1 = (s_pc s)(c := ClShard (Suc n))"
      using walk_ends [OF race_inv_step [OF step less.prems(1)], of c n "shards (entries (s_space s)) n" D J] by auto
    have run: "(space_race D J)\<^sup>*\<^sup>* s s1" using step s1(1) by (rule converse_rtranclp_into_rtranclp)
    have inv: "race_inv s1" using run less.prems(1) by (induction rule: rtranclp_induct) (auto intro: race_inv_step)
    have "registryShardCount - Suc n < registryShardCount - n" using True by linarith
    from less.hyps [OF this inv] s1(2) obtain s2 where "(space_race D J)\<^sup>*\<^sup>* s1 s2" "s_pc s2 = (s_pc s1)(c := ClDone)" by auto
    then show ?thesis using run s1(2) by (intro exI [of _ s2]) auto
  next
    case False
    then show ?thesis using step by (intro exI [of _ "at_pc c ?pc s"]) auto
  qed
qed


end
