(* ===== verification/Dependency.thy ===== *)
theory Dependency
  imports Space_Handles Scaler
begin

text \<open>
  The waiting part of \<^verbatim>\<open>dependency.go\<close>: how one dependency is awaited, attempt by attempt, and how the
  goroutines of a job with several dependencies report. What the rest of the program does meanwhile is an
  observation: the operations on the space before the attempt takes its handle and while it waits, and the
  state of the two contexts. \<open>None\<close>: the wait has not returned, it sleeps.
  A handle never yields a nil artifact without an error (\<open>Get\<close>), so that branch of the loop is not
  represented.
\<close>

definition maxDerived :: int where
  "maxDerived = 60 * second"

definition dependencyAwaitTimeout :: "RetryPolicy option \<Rightarrow> strategy option \<Rightarrow> int" where
  "dependencyAwaitTimeout policy strat =
     (let fixed = (case policy of None \<Rightarrow> 0 | Some p \<Rightarrow> PerAttemptTimeout p)
      in if 0 < fixed then fixed
         else let base0 = (case strat of None \<Rightarrow> 0 | Some f \<Rightarrow> f 1);
                  base = (if base0 \<le> 0 then second else base0)
              in if maxDerived < base then maxDerived
                 else if base < second then second
                 else base)"

record 'v dep_obs =
  before :: "'v space_op list"
  during :: "'v space_op list"
  wait_err :: "go_error option"
  dep_err :: "go_error option"

datatype dep_event = AwaitedWithin int | Delayed int

definition dep_attempts :: "'v Job \<Rightarrow> int" where
  "dep_attempts job = (case DependencyRetryPolicy job of None \<Rightarrow> 1 | Some p \<Rightarrow> MaxAttempts p)"

definition dep_strategy :: "'v Job \<Rightarrow> strategy" where
  "dep_strategy job =
     (case DependencyRetryPolicy job of
        None \<Rightarrow> default_backoff
      | Some p \<Rightarrow> (case Strategy p of None \<Rightarrow> default_backoff | Some s \<Rightarrow> s))"

definition dep_error :: "string \<Rightarrow> go_error \<Rightarrow> go_error" where
  "dep_error dependencyID e = Wrapped (''dependency '' @ dependencyID) e"

definition gave_up :: "string \<Rightarrow> int \<Rightarrow> go_error option \<Rightarrow> go_error" where
  "gave_up dependencyID n lastErr =
     (let text = ''dependency '' @ dependencyID @ '' failed after '' @ FormatInt n @ '' attempts''
      in case lastErr of Some e \<Rightarrow> Wrapped text e | None \<Rightarrow> AppError text)"

text \<open>The loop over the attempts, counted from zero; one observation per attempt.\<close>

function wait_loop ::
  "('art, 'err) datura \<Rightarrow> 'v codec \<Rightarrow> 'w Job \<Rightarrow> string \<Rightarrow> int \<Rightarrow> int \<Rightarrow> go_error option \<Rightarrow> 'v dep_obs list \<Rightarrow>
   'art QSpace \<Rightarrow> (go_error option \<times> dep_event list \<times> 'art QSpace) option" where
  "wait_loop D J job dependencyID maxAttempts attempt lastErr obs qs =
     (if attempt < maxAttempts
      then case obs of
             [] \<Rightarrow> None
           | ob # obs' \<Rightarrow>
               (case space_run D J (before ob) qs of
                  None \<Rightarrow> None
                | Some qs1 \<Rightarrow>
                    (let (wait, qs2) = Await D J dependencyID qs1;
                         awaited = AwaitedWithin (dependencyAwaitTimeout (DependencyRetryPolicy job) (Some (dep_strategy job)))
                     in case space_run D J (during ob) qs2 of
                          None \<Rightarrow> None
                        | Some qs3 \<Rightarrow>
                            (case Get (wait_err ob) (Registry.slot_at (entries qs3)) (Some wait) of
                               None \<Rightarrow> None
                             | Some (Inr result) \<Rightarrow>
                                 Some (map_option (dep_error dependencyID) (ArtifactError D (Some result)), [awaited], qs3)
                             | Some (Inl err) \<Rightarrow>
                                 (case dep_err ob of
                                    Some e \<Rightarrow> Some (Some (dep_error dependencyID e), [awaited], qs3)
                                  | None \<Rightarrow>
                                      (let delays = (if attempt < maxAttempts - 1
                                                     then [Delayed (dep_strategy job (attempt + 1))] else [])
                                       in map_option (\<lambda>(r, ev, qs'). (r, awaited # delays @ ev, qs'))
                                            (wait_loop D J job dependencyID maxAttempts (attempt + 1) (Some err) obs' qs3))))))
      else Some (Some (gave_up dependencyID maxAttempts lastErr), [], RegisterDependent dependencyID (ID job) qs))"
  by pat_completeness auto
termination
  by (relation "measure (\<lambda>(_, _, _, _, m, a, _). nat (m - a))") auto

declare wait_loop.simps [simp del]

definition waitOneDependency ::
  "('art, 'err) datura \<Rightarrow> 'v codec \<Rightarrow> 'w Job \<Rightarrow> string \<Rightarrow> 'v dep_obs list \<Rightarrow> 'art QSpace \<Rightarrow>
   (go_error option \<times> dep_event list \<times> 'art QSpace) option" where
  "waitOneDependency D J job dependencyID obs qs = wait_loop D J job dependencyID (dep_attempts job) 0 None obs qs"

text \<open>The goroutines of \<^verbatim>\<open>waitDependencies\<close>, one per dependency, here one after the other in the
  order in which they end; the first error swapped into \<^verbatim>\<open>firstErr\<close> stays.\<close>

fun wait_each ::
  "('art, 'err) datura \<Rightarrow> 'v codec \<Rightarrow> 'w Job \<Rightarrow> (string \<times> 'v dep_obs list) list \<Rightarrow> go_error option \<Rightarrow> 'art QSpace \<Rightarrow>
   (go_error option \<times> 'art QSpace) option" where
  "wait_each D J job [] firstErr qs = Some (firstErr, qs)"
| "wait_each D J job ((d, obs) # ds) firstErr qs =
     (case waitOneDependency D J job d obs qs of
        None \<Rightarrow> None
      | Some (err, _, qs') \<Rightarrow> wait_each D J job ds (case firstErr of Some e \<Rightarrow> Some e | None \<Rightarrow> err) qs')"

definition waitDependencies ::
  "('art, 'err) datura \<Rightarrow> 'v codec \<Rightarrow> 'w Job \<Rightarrow> (string \<times> 'v dep_obs list) list \<Rightarrow> go_error option \<Rightarrow> 'art QSpace \<Rightarrow>
   (go_error option \<times> 'art QSpace) option" where
  "waitDependencies D J job order ctx_err qs =
     (if length (Dependencies job) = 0 then Some (None, qs)
      else case wait_each D J job order None qs of
             None \<Rightarrow> None
           | Some (Some e, qs') \<Rightarrow> Some (Some e, qs')
           | Some (None, qs') \<Rightarrow> Some (ctx_err, qs'))"

section \<open>The time an attempt may take\<close>

text \<open>How long an attempt waits: the policy's timeout when it is positive, and otherwise the first
  delay of the strategy cut to between one second and one minute, a minute for a longer delay and a second
  for one that is shorter, zero or negative.\<close>

theorem await_timeout_bounds:
  "dependencyAwaitTimeout policy strat =
     (case policy of
        Some p \<Rightarrow> if 0 < PerAttemptTimeout p then PerAttemptTimeout p
                  else max second (min maxDerived (case strat of None \<Rightarrow> 0 | Some f \<Rightarrow> f 1))
      | None \<Rightarrow> max second (min maxDerived (case strat of None \<Rightarrow> 0 | Some f \<Rightarrow> f 1)))"
  by (auto simp: dependencyAwaitTimeout_def Let_def maxDerived_def second_def split: option.split)

section \<open>What the attempts see\<close>

text \<open>The result an attempt sees, in terms of the abstract map of results.\<close>

definition sees :: "('art, 'err) datura \<Rightarrow> 'v codec \<Rightarrow> string \<Rightarrow> 'v dep_obs \<Rightarrow> (string \<rightharpoonup> 'art) \<Rightarrow> 'art option" where
  "sees D J d ob m =
     (case fold (map_step D J) (before ob) m d of
        Some a \<Rightarrow> Some a
      | None \<Rightarrow> fst (fold (watch D J d) (during ob) (None, True)))"

definition map_after :: "('art, 'err) datura \<Rightarrow> 'v codec \<Rightarrow> 'v dep_obs \<Rightarrow> (string \<rightharpoonup> 'art) \<Rightarrow> (string \<rightharpoonup> 'art)" where
  "map_after D J ob m = fold (map_step D J) (during ob) (fold (map_step D J) (before ob) m)"

text \<open>Attempts that all time out, with the job's own context alive.\<close>

fun time_out :: "('art, 'err) datura \<Rightarrow> 'v codec \<Rightarrow> string \<Rightarrow> 'v dep_obs list \<Rightarrow> (string \<rightharpoonup> 'art) \<Rightarrow> bool" where
  "time_out D J d [] m \<longleftrightarrow> True"
| "time_out D J d (ob # obs) m \<longleftrightarrow>
     sees D J d ob m = None \<and> wait_err ob \<noteq> None \<and> dep_err ob = None \<and> time_out D J d obs (map_after D J ob m)"

definition dep_timeout :: "'v Job \<Rightarrow> int" where
  "dep_timeout job = dependencyAwaitTimeout (DependencyRetryPolicy job) (Some (dep_strategy job))"

text \<open>Awaits and delays of the attempts from \<open>a\<close> to \<open>b - 1\<close> that are not the last.\<close>

definition failed_events :: "'v Job \<Rightarrow> int \<Rightarrow> int \<Rightarrow> dep_event list" where
  "failed_events job a b = concat (map (\<lambda>i. [AwaitedWithin (dep_timeout job), Delayed (dep_strategy job (i + 1))]) [a..b - 1])"

lemma attempt_step:
  assumes "qs_inv qs"
  shows "\<exists>qs1 h qs2 qs3. space_run D J (before ob) qs = Some qs1 \<and> Await D J d qs1 = (h, qs2) \<and>
    space_run D J (during ob) qs2 = Some qs3 \<and> qs_inv qs3 \<and> space_view qs3 = map_after D J ob (space_view qs) \<and>
    (\<forall>c. Get c (Registry.slot_at (entries qs3)) (Some h) =
       (case sees D J d ob (space_view qs) of Some a \<Rightarrow> Some (Inr a) | None \<Rightarrow> map_option Inl c))"
proof -
  from space_run_inv [OF assms, of D J "before ob"] obtain qs1 where
    q1: "space_run D J (before ob) qs = Some qs1" "qs_inv qs1" "space_view qs1 = fold (map_step D J) (before ob) (space_view qs)" by blast
  obtain h qs2 where h: "Await D J d qs1 = (h, qs2)" by (cases "Await D J d qs1")
  from await_run [OF q1(2) h, of "during ob"] q1 h show ?thesis
    by (auto simp: sees_def map_after_def split: option.split)
qed

lemma wait_loop_timeouts:
  assumes "qs_inv qs" "time_out D J d fails (space_view qs)" "a + int (length fails) < n"
  shows "\<exists>err qs'. (fails = [] \<longrightarrow> err = le) \<and> (fails \<noteq> [] \<longrightarrow> err = wait_err (last fails)) \<and> qs_inv qs' \<and>
    space_view qs' = fold (map_after D J) fails (space_view qs) \<and>
    wait_loop D J job d n a le (fails @ others) qs =
      map_option (\<lambda>(r, ev, q). (r, failed_events job a (a + int (length fails)) @ ev, q))
        (wait_loop D J job d n (a + int (length fails)) err others qs')"
  using assms
proof (induction fails arbitrary: a le qs)
  case Nil
  then show ?case by (auto simp: failed_events_def option.map_ident case_prod_unfold intro!: exI [of _ qs])
next
  case (Cons ob fails)
  from attempt_step [OF Cons.prems(1), of D J ob d] obtain qs1 h qs2 qs3 where
    q: "space_run D J (before ob) qs = Some qs1" "Await D J d qs1 = (h, qs2)" "space_run D J (during ob) qs2 = Some qs3"
      "qs_inv qs3" "space_view qs3 = map_after D J ob (space_view qs)"
      "\<And>c. Get c (Registry.slot_at (entries qs3)) (Some h) =
        (case sees D J d ob (space_view qs) of Some a \<Rightarrow> Some (Inr a) | None \<Rightarrow> map_option Inl c)" by blast
  obtain e where e: "wait_err ob = Some e" "dep_err ob = None" "sees D J d ob (space_view qs) = None"
    using Cons.prems(2) by auto
  have t: "time_out D J d fails (space_view qs3)" using Cons.prems(2) q(5) by simp
  have b: "(a + 1) + int (length fails) < n" using Cons.prems(3) by simp
  from Cons.IH [OF q(4) t b, of "Some e"] obtain err qs' where
    r: "fails = [] \<longrightarrow> err = Some e" "fails \<noteq> [] \<longrightarrow> err = wait_err (last fails)" "qs_inv qs'"
      "space_view qs' = fold (map_after D J) fails (space_view qs3)"
      "wait_loop D J job d n (a + 1) (Some e) (fails @ others) qs3 =
        map_option (\<lambda>(r, ev, q). (r, failed_events job (a + 1) (a + 1 + int (length fails)) @ ev, q))
          (wait_loop D J job d n (a + 1 + int (length fails)) err others qs')" by blast
  have ev: "failed_events job a (a + int (length (ob # fails))) =
      [AwaitedWithin (dep_timeout job), Delayed (dep_strategy job (a + 1))] @ failed_events job (a + 1) (a + 1 + int (length fails))"
    using upto_rec1 [of a "a + int (length (ob # fails)) - 1"] by (simp add: failed_events_def algebra_simps)
  have "wait_loop D J job d n a le ((ob # fails) @ others) qs =
      map_option (\<lambda>(r, ev, q). (r, [AwaitedWithin (dep_timeout job), Delayed (dep_strategy job (a + 1))] @ ev, q))
        (wait_loop D J job d n (a + 1) (Some e) (fails @ others) qs3)"
    using Cons.prems(3) q e by (subst wait_loop.simps) (simp add: dep_timeout_def)
  then show ?case using r e q(5) ev
    by (intro exI [of _ err] exI [of _ qs']) (simp add: option.map_comp comp_def case_prod_unfold add.assoc)
qed

text \<open>C23: a dependency that arrives in time. If the attempts before the \<open>k\<close>-th time out, and during the \<open>k\<close>-th
  the result of the dependency is there or is stored, the wait returns then: without error when
  the result is one, with the dependency's error when the dependency failed. It has awaited once per
  attempt with the same timeout, slept the strategy's delay between attempts, and changed nothing
  in the space.\<close>

theorem dependency_met:
  assumes "space_run D J ops (NewQSpace uuid) = Some qs" "m = fold (map_step D J) ops Map.empty"
    "time_out D J d fails m" "int (length fails) < dep_attempts job"
    "sees D J d ob (fold (map_after D J) fails m) = Some a"
  shows "\<exists>qs'. waitOneDependency D J job d (fails @ ob # later) qs =
      Some (map_option (dep_error d) (ArtifactError D (Some a)),
            failed_events job 0 (int (length fails)) @ [AwaitedWithin (dep_timeout job)], qs') \<and>
    space_view qs' = fold (map_after D J) (fails @ [ob]) m"
proof -
  have qs: "qs_inv qs" "space_view qs = m"
    using space_run_inv [OF qs_inv_new(1), of D J ops uuid] assms(1,2) by (simp_all add: qs_inv_new(2))
  from wait_loop_timeouts [OF qs(1), of D J d fails 0 "dep_attempts job" None job "ob # later"] assms(3,4) qs(2)
  obtain err qs1 where q1: "qs_inv qs1" "space_view qs1 = fold (map_after D J) fails m"
    "wait_loop D J job d (dep_attempts job) 0 None (fails @ ob # later) qs =
      map_option (\<lambda>(r, ev, q). (r, failed_events job 0 (int (length fails)) @ ev, q))
        (wait_loop D J job d (dep_attempts job) (int (length fails)) err (ob # later) qs1)" by auto
  from attempt_step [OF q1(1), of D J ob d] obtain qa h qb qc where
    s: "space_run D J (before ob) qs1 = Some qa" "Await D J d qa = (h, qb)" "space_run D J (during ob) qb = Some qc"
      "space_view qc = map_after D J ob (space_view qs1)"
      "\<And>c. Get c (Registry.slot_at (entries qc)) (Some h) =
        (case sees D J d ob (space_view qs1) of Some a \<Rightarrow> Some (Inr a) | None \<Rightarrow> map_option Inl c)" by blast
  have "wait_loop D J job d (dep_attempts job) (int (length fails)) err (ob # later) qs1 =
      Some (map_option (dep_error d) (ArtifactError D (Some a)), [AwaitedWithin (dep_timeout job)], qc)"
    using assms(4,5) s q1(2) by (subst wait_loop.simps) (simp add: dep_timeout_def)
  then show ?thesis using q1(2,3) s(4) by (simp add: waitOneDependency_def)
qed

text \<open>A dependency that does not arrive. If all attempts time out the wait ends, after as many awaits as the policy allows and
  a delay between any two, with an error that names the number of attempts and wraps the last timeout, and the job
  is recorded as a dependent: exactly that edge is added to the graph.\<close>

theorem dependency_given_up:
  assumes "space_run D J ops (NewQSpace uuid) = Some qs" "m = fold (map_step D J) ops Map.empty"
    "time_out D J d (fails @ [ob]) m" "int (length (fails @ [ob])) = dep_attempts job"
  shows "\<exists>qs1 qs'. waitOneDependency D J job d (fails @ [ob]) qs =
      Some (Some (gave_up d (dep_attempts job) (wait_err ob)),
            failed_events job 0 (int (length fails)) @ [AwaitedWithin (dep_timeout job)], qs') \<and>
    qs' = RegisterDependent d (ID job) qs1 \<and> edges (entries qs') = insert (d, ID job) (edges (entries qs1)) \<and>
    space_view qs' = fold (map_after D J) (fails @ [ob]) m"
proof -
  have qs: "qs_inv qs" "space_view qs = m"
    using space_run_inv [OF qs_inv_new(1), of D J ops uuid] assms(1,2) by (simp_all add: qs_inv_new(2))
  have to: "time_out D J d fails m \<and> sees D J d ob (fold (map_after D J) fails m) = None \<and> wait_err ob \<noteq> None \<and> dep_err ob = None"
    using assms(3) by (induction fails arbitrary: m) auto
  have n: "dep_attempts job = int (length fails) + 1" using assms(4) by simp
  from wait_loop_timeouts [OF qs(1), of D J d fails 0 "dep_attempts job" None job "[ob]"] to n qs(2)
  obtain err qs1 where q1: "qs_inv qs1" "space_view qs1 = fold (map_after D J) fails m"
    "wait_loop D J job d (dep_attempts job) 0 None (fails @ [ob]) qs =
      map_option (\<lambda>(r, ev, q). (r, failed_events job 0 (int (length fails)) @ ev, q))
        (wait_loop D J job d (dep_attempts job) (int (length fails)) err [ob] qs1)" by auto
  from attempt_step [OF q1(1), of D J ob d] obtain qa h qb qc where
    s: "space_run D J (before ob) qs1 = Some qa" "Await D J d qa = (h, qb)" "space_run D J (during ob) qb = Some qc" "qs_inv qc"
      "space_view qc = map_after D J ob (space_view qs1)"
      "\<And>c. Get c (Registry.slot_at (entries qc)) (Some h) =
        (case sees D J d ob (space_view qs1) of Some a \<Rightarrow> Some (Inr a) | None \<Rightarrow> map_option Inl c)" by blast
  obtain e where e: "wait_err ob = Some e" using to by auto
  have "wait_loop D J job d (dep_attempts job) (int (length fails)) err [ob] qs1 =
      Some (Some (gave_up d (dep_attempts job) (Some e)), [AwaitedWithin (dep_timeout job)], RegisterDependent d (ID job) qc)"
    using to e s q1(2) n by (subst wait_loop.simps) (simp add: dep_timeout_def wait_loop.simps)
  moreover have "edges (entries (RegisterDependent d (ID job) qc)) = insert (d, ID job) (edges (entries qc))"
    using s(4) link_spec(2) [of "entries qc"] by (simp add: RegisterDependent_def registerDependent_def qs_inv_def)
  moreover have "space_view (RegisterDependent d (ID job) qc) = space_view qc"
    using space_step_inv [OF s(4), of D J "SRegister d (ID job)"] by simp
  ultimately show ?thesis using q1(2,3) s(5) e by (auto simp: waitOneDependency_def)
qed

text \<open>A dependency retry policy with no attempts fails at once. Unlike \<^verbatim>\<open>runJobWithRetries\<close>, which runs the job
  once when \<^verbatim>\<open>MaxAttempts\<close> is not positive, the dependency wait then does not look at the space at all: the job fails
  although the result of its dependency is stored.\<close>

theorem no_attempts_fail:
  assumes "DependencyRetryPolicy job = Some (fresh_policy n strat)" "n \<le> 0"
  shows "waitOneDependency D J job d obs qs =
    Some (Some (AppError (''dependency '' @ d @ '' failed after '' @ FormatInt n @ '' attempts'')), [], RegisterDependent d (ID job) qs)"
  using assms by (simp add: waitOneDependency_def wait_loop.simps dep_attempts_def fresh_policy_def gave_up_def)

section \<open>Waiting as a sequence of operations\<close>

lemma space_run_append: "space_run D J (xs @ ys) qs = Option.bind (space_run D J xs qs) (space_run D J ys)"
  by (induction xs arbitrary: qs) (auto split: option.split)

text \<open>Waiting for a dependency is a sequence of operations on the space.\<close>

definition obs_ops :: "'v dep_obs list \<Rightarrow> 'v space_op set" where
  "obs_ops obs = (\<Union>ob\<in>set obs. set (before ob) \<union> set (during ob))"

lemma wait_loop_run:
  assumes "wait_loop D J job d n a le obs qs = Some (r, ev, qs')"
  shows "\<exists>ops. space_run D J ops qs = Some qs' \<and> set ops \<subseteq> obs_ops obs \<union> {SAwait d, SRegister d (ID job)}"
  using assms
proof (induction obs arbitrary: a le qs ev)
  case Nil
  then show ?case by (auto simp: wait_loop.simps split: if_split_asm intro!: exI [of _ "[SRegister d (ID job)]"])
next
  case (Cons ob obs)
  show ?case
  proof (cases "a < n")
    case True
    then obtain q1 w q2 q3 where q: "space_run D J (before ob) qs = Some q1" "Await D J d q1 = (w, q2)" "space_run D J (during ob) q2 = Some q3"
      using Cons.prems by (subst (asm) wait_loop.simps) (auto simp: Let_def split: option.splits prod.splits)
    let ?ops = "before ob @ SAwait d # during ob"
    have r3: "space_run D J ?ops qs = Some q3" using q by (simp add: space_run_append)
    have sub: "set ?ops \<subseteq> obs_ops (ob # obs) \<union> {SAwait d, SRegister d (ID job)}" by (auto simp: obs_ops_def)
    have "qs' = q3 \<or> (\<exists>le' ev'. wait_loop D J job d n (a + 1) le' obs q3 = Some (r, ev', qs'))"
      using Cons.prems True q by (subst (asm) wait_loop.simps) (auto simp: Let_def split: option.splits sum.splits)
    then show ?thesis
    proof
      assume "qs' = q3"
      then show ?thesis using r3 sub by blast
    next
      assume "\<exists>le' ev'. wait_loop D J job d n (a + 1) le' obs q3 = Some (r, ev', qs')"
      then obtain ops where o: "space_run D J ops q3 = Some qs'" "set ops \<subseteq> obs_ops obs \<union> {SAwait d, SRegister d (ID job)}"
        using Cons.IH by blast
      have "space_run D J (?ops @ ops) qs = Some qs'" unfolding space_run_append [of D J ?ops ops] r3 using o(1) by simp
      moreover have "set (?ops @ ops) \<subseteq> obs_ops (ob # obs) \<union> {SAwait d, SRegister d (ID job)}" using o(2) by (auto simp: obs_ops_def)
      ultimately show ?thesis by blast
    qed
  next
    case False
    then show ?thesis using Cons.prems by (auto simp: wait_loop.simps intro!: exI [of _ "[SRegister d (ID job)]"])
  qed
qed

lemma wait_each_run:
  assumes "wait_each D J job order e0 qs = Some (r, qs')"
  shows "\<exists>ops. space_run D J ops qs = Some qs' \<and>
    set ops \<subseteq> (\<Union>(d, obs)\<in>set order. obs_ops obs \<union> {SAwait d, SRegister d (ID job)})"
  using assms
proof (induction order arbitrary: e0 qs)
  case (Cons w order)
  obtain d obs where w: "w = (d, obs)" by (cases w)
  obtain err ev q1 where q1: "waitOneDependency D J job d obs qs = Some (err, ev, q1)"
    "wait_each D J job order (case e0 of Some e \<Rightarrow> Some e | None \<Rightarrow> err) q1 = Some (r, qs')"
    using Cons.prems by (auto simp: w split: option.splits prod.splits)
  obtain ops1 where o1: "space_run D J ops1 qs = Some q1" "set ops1 \<subseteq> obs_ops obs \<union> {SAwait d, SRegister d (ID job)}"
    using wait_loop_run q1(1) unfolding waitOneDependency_def by blast
  obtain ops2 where "space_run D J ops2 q1 = Some qs'"
    "set ops2 \<subseteq> (\<Union>(d, obs)\<in>set order. obs_ops obs \<union> {SAwait d, SRegister d (ID job)})" using Cons.IH [OF q1(2)] by blast
  then show ?case using o1 w by (intro exI [of _ "ops1 @ ops2"]) (auto simp: space_run_append)
qed (auto intro: exI [of _ "[]"])

lemma watch_nothing:
  "(\<And>op a. op \<in> set ops \<Longrightarrow> put_by D J op \<noteq> Some (i, a)) \<Longrightarrow> fold (watch D J i) ops (None, True) = (None, True)"
proof (induction ops)
  case (Cons op ops)
  have "watch D J i op (None, True) = (None, True)" using Cons.prems [of op] by (auto simp: watch_def split: option.split)
  with Cons show ?case by simp
qed simp

section \<open>Sample runs\<close>

definition two_tries :: "nat Job" where
  "two_tries = zero_Job\<lparr>ID := ''j'', Dependencies := [''d''], DependencyRetryPolicy := Some (fresh_policy 2 (Some (\<lambda>_. 5)))\<rparr>"

definition timed_out :: "int dep_obs" where
  "timed_out = \<lparr>before = [], during = [], wait_err = Some DeadlineExceeded, dep_err = None\<rparr>"

definition arrives :: "int dep_obs" where
  "arrives = \<lparr>before = [], during = [SStore ''d'' (VString ''ok'') 0], wait_err = None, dep_err = None\<rparr>"

lemma sample_waits [simp]:
  "dep_attempts two_tries = 2" "dep_timeout two_tries = second" "ID two_tries = ''j''"
  "failed_events two_tries 0 1 = [AwaitedWithin second, Delayed 5]"
  "sees D J d timed_out m = m d" "map_after D J timed_out m = m" "wait_err timed_out = Some DeadlineExceeded" "dep_err timed_out = None"
  by (simp_all add: two_tries_def dep_attempts_def fresh_policy_def dep_timeout_def dependencyAwaitTimeout_def dep_strategy_def
      maxDerived_def second_def failed_events_def sees_def map_after_def timed_out_def split: option.split)

lemma sample_counts: "FormatInt 0 = ''0''" "FormatInt 2 = ''2''"
  by code_simp+

lemma arrives_seen:
  "\<exists>a. sees envelopes number_codec ''d'' arrives Map.empty = Some a \<and> ArtifactError envelopes (Some a) = None"
  by (simp add: sees_def arrives_def watch_def newResultArtifact_def encodePayload_def envelopes_def ArtifactError_def Let_def)

theorem dependency_met_witness:
  "\<exists>qs'. waitOneDependency envelopes number_codec two_tries ''d'' [timed_out, arrives] (NewQSpace []) =
     Some (None, [AwaitedWithin second, Delayed 5, AwaitedWithin second], qs')"
proof -
  obtain a where "sees envelopes number_codec ''d'' arrives Map.empty = Some a" "ArtifactError envelopes (Some a) = None"
    using arrives_seen by blast
  then show ?thesis
    using dependency_met [of envelopes number_codec "[]" "[]" "NewQSpace []" Map.empty "''d''" "[timed_out]" two_tries arrives a "[]"]
    by auto
qed

theorem dependency_given_up_witness:
  "\<exists>qs'. waitOneDependency envelopes number_codec two_tries ''d'' [timed_out, timed_out] (NewQSpace []) =
     Some (Some (Wrapped ''dependency d failed after 2 attempts'' DeadlineExceeded),
           [AwaitedWithin second, Delayed 5, AwaitedWithin second], qs') \<and> (''d'', ''j'') \<in> edges (entries qs')"
proof -
  have "gave_up ''d'' 2 (Some DeadlineExceeded) = Wrapped ''dependency d failed after 2 attempts'' DeadlineExceeded"
    by (simp add: gave_up_def sample_counts)
  with dependency_given_up [of envelopes number_codec "[]" "[]" "NewQSpace []" Map.empty "''d''" "[timed_out]" timed_out two_tries]
  show ?thesis by auto
qed

theorem no_attempts_fail_witness:
  "waitOneDependency envelopes number_codec (two_tries\<lparr>DependencyRetryPolicy := Some (fresh_policy 0 None)\<rparr>) ''d'' [] (NewQSpace []) =
     Some (Some (AppError ''dependency d failed after 0 attempts''), [], RegisterDependent ''d'' ''j'' (NewQSpace []))"
  using no_attempts_fail [of "two_tries\<lparr>DependencyRetryPolicy := Some (fresh_policy 0 None)\<rparr>" 0 None envelopes number_codec "''d''" "[]" "NewQSpace []"]
  by (simp add: sample_counts two_tries_def)

end
