(* ===== verification/Dependency_Wait.thy ===== *)
theory Dependency_Wait
  imports Dependency Wait_Group "HOL-Library.Multiset"
begin

text \<open>
  The goroutines of \<^verbatim>\<open>waitDependencies\<close>, one per dependency, step by step: each waits for its dependency and, if
  that fails, tries to be the first to swap its error into \<^verbatim>\<open>firstErr\<close>; its deferred \<^verbatim>\<open>Done\<close> and the
  \<^verbatim>\<open>Wait\<close> of the caller are the steps of \<open>Wait_Group\<close>. \<open>out i\<close> is what \<^verbatim>\<open>waitOneDependency\<close> returns for the dependency \<open>i\<close>. The theorem
  shows that every run ends with the return of the caller, however the goroutines are scheduled, and that the result is the one of the definition
  \<open>waitDependencies\<close> for some order of the goroutines.
\<close>

datatype dep_goroutine = DepWaiting | DepFailed go_error | DepSwapping go_error | DepEnded

record dep_wait =
  dep_group :: WaitGroup
  dep_phase :: "nat \<Rightarrow> dep_goroutine"
  firstErr :: "go_error option"

definition dep_begin :: "nat \<Rightarrow> dep_wait" where
  "dep_begin n = \<lparr>dep_group = wg_Add (int n) wg_init, dep_phase = (\<lambda>_. DepWaiting), firstErr = None\<rparr>"

definition dep_end :: "nat \<Rightarrow> dep_wait \<Rightarrow> dep_wait" where
  "dep_end i s = s\<lparr>dep_phase := (dep_phase s)(i := DepEnded), dep_group := wg_Done (dep_group s)\<rparr>"

definition dep_return :: "go_error option \<Rightarrow> nat \<Rightarrow> dep_wait \<Rightarrow> dep_wait" where
  "dep_return err i s =
     (case err of None \<Rightarrow> dep_end i s | Some e \<Rightarrow> s\<lparr>dep_phase := (dep_phase s)(i := DepFailed e)\<rparr>)"

definition dep_load :: "go_error \<Rightarrow> nat \<Rightarrow> dep_wait \<Rightarrow> dep_wait" where
  "dep_load e i s =
     (case firstErr s of None \<Rightarrow> s\<lparr>dep_phase := (dep_phase s)(i := DepSwapping e)\<rparr> | Some _ \<Rightarrow> dep_end i s)"

definition dep_swap :: "go_error \<Rightarrow> nat \<Rightarrow> dep_wait \<Rightarrow> dep_wait" where
  "dep_swap e i s =
     (case firstErr s of
        None \<Rightarrow> dep_end i (s\<lparr>firstErr := Some e\<rparr>)
      | Some _ \<Rightarrow> s\<lparr>dep_phase := (dep_phase s)(i := DepFailed e)\<rparr>)"

definition dep_result :: "go_error option \<Rightarrow> dep_wait \<Rightarrow> go_error option" where
  "dep_result ctx_err s = (case firstErr s of Some e \<Rightarrow> Some e | None \<Rightarrow> ctx_err)"

text \<open>The release of the semaphore follows the last \<^verbatim>\<open>Done\<close>; the caller waits as the waiter 0 of the group.\<close>

inductive dep_step :: "nat \<Rightarrow> (nat \<Rightarrow> go_error option) \<Rightarrow> dep_wait \<Rightarrow> dep_wait \<Rightarrow> bool" for n out where
  returns: "i < n \<Longrightarrow> dep_phase s i = DepWaiting \<Longrightarrow> dep_step n out s (dep_return (out i) i s)"
| load: "i < n \<Longrightarrow> dep_phase s i = DepFailed e \<Longrightarrow> dep_step n out s (dep_load e i s)"
| swap: "i < n \<Longrightarrow> dep_phase s i = DepSwapping e \<Longrightarrow> dep_step n out s (dep_swap e i s)"
| release: "0 < releasing (dep_group s) \<Longrightarrow>
    dep_step n out s (s\<lparr>dep_group := (dep_group s)\<lparr>releasing := releasing (dep_group s) - 1, sema := sema (dep_group s) + 1\<rparr>\<rparr>)"
| enter: "waiting (dep_group s) 0 = Outside \<Longrightarrow>
    dep_step n out s (s\<lparr>dep_group := (dep_group s)\<lparr>waiting := (waiting (dep_group s))(0 := Checking)\<rparr>\<rparr>)"
| check: "waiting (dep_group s) 0 = Checking \<Longrightarrow> dep_step n out s (s\<lparr>dep_group := wait_check 0 (dep_group s)\<rparr>)"
| wake: "waiting (dep_group s) 0 = Sleeping \<Longrightarrow> 0 < sema (dep_group s) \<Longrightarrow>
    dep_step n out s (s\<lparr>dep_group := wait_wake 0 (dep_group s)\<rparr>)"

definition open_deps :: "nat \<Rightarrow> dep_wait \<Rightarrow> nat set" where
  "open_deps n s = {i. i < n \<and> dep_phase s i \<noteq> DepEnded}"

text \<open>The group counts the goroutines that have not ended; an ended one with an error has left an error behind; and the error
  there is one of theirs.\<close>

definition dep_inv :: "nat \<Rightarrow> (nat \<Rightarrow> go_error option) \<Rightarrow> dep_wait \<Rightarrow> bool" where
  "dep_inv n out s \<longleftrightarrow>
     wg_reachable 1 (dep_group s) \<and> wg_count (dep_group s) = int (card (open_deps n s)) \<and>
     (waiting (dep_group s) 0 = Returned \<longrightarrow> open_deps n s = {}) \<and>
     (\<forall>i<n. \<forall>e. dep_phase s i = DepFailed e \<or> dep_phase s i = DepSwapping e \<longrightarrow> out i = Some e) \<and>
     (\<forall>i<n. dep_phase s i = DepEnded \<and> out i \<noteq> None \<longrightarrow> firstErr s \<noteq> None) \<and>
     (\<forall>e. firstErr s = Some e \<longrightarrow> (\<exists>i<n. out i = Some e))"

lemma open_deps_finite [simp]: "finite (open_deps n s)"
  by (simp add: open_deps_def)

lemma wg_others: "wg_reachable n wg \<Longrightarrow> n \<le> i \<Longrightarrow> waiting wg i = Outside"
  by (induction rule: wg_reachable.induct) (auto simp: wg_init_def)

lemma wg_reach_step:
  assumes "wg_reachable 1 wg" "wg_step wg wg'" "\<And>i. 1 \<le> i \<Longrightarrow> waiting wg' i = waiting wg i"
  shows "wg_reachable 1 wg'"
  using wg_next [OF assms(1,2)] wg_others [OF assms(1)] assms(3) by metis

lemma dep_inv_group:
  assumes "dep_inv n out s"
  shows "wg_reachable 1 (dep_group s)" "wg_count (dep_group s) = int (card (open_deps n s))" "wg_count (dep_group s) < 2 ^ 63"
    "waiting (dep_group s) 0 = Sleeping \<Longrightarrow> 0 < wg_count (dep_group s) \<or> 0 < sema (dep_group s) + releasing (dep_group s)"
proof -
  show r: "wg_reachable 1 (dep_group s)" and "wg_count (dep_group s) = int (card (open_deps n s))" using assms by (simp_all add: dep_inv_def)
  from r wg_invariant [of "dep_group s"] show "wg_count (dep_group s) < 2 ^ 63"
    "waiting (dep_group s) 0 = Sleeping \<Longrightarrow> 0 < wg_count (dep_group s) \<or> 0 < sema (dep_group s) + releasing (dep_group s)" by simp_all
qed

lemma dep_end_inv:
  assumes "dep_inv n out s" "i < n" "dep_phase s i \<noteq> DepEnded" "out i = None \<or> firstErr s \<noteq> None"
  shows "dep_inv n out (dep_end i s)"
proof -
  note g = dep_inv_group [OF assms(1)]
  have i: "i \<in> open_deps n s" using assms(2,3) by (simp add: open_deps_def)
  have o: "open_deps n (dep_end i s) = open_deps n s - {i}" by (auto simp: open_deps_def dep_end_def)
  have c: "1 \<le> card (open_deps n s)" using i by (auto simp: Suc_le_eq card_gt_0_iff)
  have w: "wg_count (wg_Done (dep_group s)) = wg_count (dep_group s) - 1" "waiting (wg_Done (dep_group s)) = waiting (dep_group s)"
    using c g(2,3) by (simp_all add: wg_Done_def wg_Add_def Let_def wrap64_id in64_def)
  have "wg_step (dep_group s) (wg_Done (dep_group s))" unfolding wg_Done_def using c g(2,3) by (intro wg_step.add) simp_all
  then have r: "wg_reachable 1 (wg_Done (dep_group s))" using g(1) w(2) by (metis wg_reach_step)
  have k: "int (card (open_deps n (dep_end i s))) = int (card (open_deps n s)) - 1" unfolding o using i c by (simp add: of_nat_diff)
  have f: "dep_group (dep_end i s) = wg_Done (dep_group s)" "firstErr (dep_end i s) = firstErr s"
    "dep_phase (dep_end i s) = (dep_phase s)(i := DepEnded)" by (simp_all add: dep_end_def)
  show ?thesis using assms r w k o g(2) unfolding dep_inv_def f by auto
qed

lemma dep_phase_inv:
  assumes "dep_inv n out s" "i < n" "dep_phase s i \<noteq> DepEnded" "ph = DepFailed e \<or> ph = DepSwapping e" "out i = Some e"
  shows "dep_inv n out (s\<lparr>dep_phase := (dep_phase s)(i := ph)\<rparr>)"
proof -
  have "open_deps n (s\<lparr>dep_phase := (dep_phase s)(i := ph)\<rparr>) = open_deps n s" using assms(2-4) by (auto simp: open_deps_def)
  then show ?thesis using assms by (auto simp: dep_inv_def)
qed

lemma dep_group_inv:
  assumes "dep_inv n out s" "wg_step (dep_group s) wg" "\<And>i. 1 \<le> i \<Longrightarrow> waiting wg i = waiting (dep_group s) i"
    "wg_count wg = wg_count (dep_group s)" "waiting wg 0 = Returned \<Longrightarrow> open_deps n s = {}"
  shows "dep_inv n out (s\<lparr>dep_group := wg\<rparr>)"
proof -
  have "wg_reachable 1 wg" by (rule wg_reach_step [OF dep_inv_group(1) [OF assms(1)] assms(2,3)])
  moreover have "open_deps n (s\<lparr>dep_group := wg\<rparr>) = open_deps n s" by (simp add: open_deps_def)
  ultimately show ?thesis using assms by (simp add: dep_inv_def)
qed

lemma dep_inv_step:
  assumes "dep_step n out s s'" "dep_inv n out s"
  shows "dep_inv n out s'"
  using assms(1)
proof cases
  case (returns i)
  then show ?thesis using dep_end_inv [OF assms(2)] dep_phase_inv [OF assms(2)] by (auto simp: dep_return_def split: option.split)
next
  case (load i e)
  have "out i = Some e" using load assms(2) by (simp add: dep_inv_def)
  then show ?thesis using load dep_end_inv [OF assms(2)] dep_phase_inv [OF assms(2)] by (auto simp: dep_load_def split: option.split)
next
  case (swap i e)
  have o: "out i = Some e" using swap assms(2) by (simp add: dep_inv_def)
  have "dep_inv n out (s\<lparr>firstErr := Some e\<rparr>)" using assms(2) swap(2) o by (auto simp: dep_inv_def open_deps_def)
  from dep_end_inv [OF this swap(2)] dep_phase_inv [OF assms(2) swap(2)] show ?thesis
    using swap o by (auto simp: dep_swap_def split: option.split)
next
  case release
  have "dep_inv n out (s\<lparr>dep_group := (dep_group s)\<lparr>releasing := releasing (dep_group s) - 1, sema := sema (dep_group s) + 1\<rparr>\<rparr>)"
    using wg_step.release [OF release(2)] assms(2) by (intro dep_group_inv [OF assms(2)]) (auto simp: dep_inv_def)
  then show ?thesis using release by simp
next
  case enter
  have "dep_inv n out (s\<lparr>dep_group := (dep_group s)\<lparr>waiting := (waiting (dep_group s))(0 := Checking)\<rparr>\<rparr>)"
    using enter wg_step.enter [of "dep_group s" 0] by (intro dep_group_inv [OF assms(2)]) auto
  then show ?thesis using enter by simp
next
  case check
  have "open_deps n s = {}" if "\<not> 0 < wg_count (dep_group s)" using that dep_inv_group(2) [OF assms(2)] by simp
  then have "dep_inv n out (s\<lparr>dep_group := wait_check 0 (dep_group s)\<rparr>)"
    using wg_step.check [OF check(2)] by (intro dep_group_inv [OF assms(2)]) (auto simp: wait_check_def split: if_split_asm)
  then show ?thesis using check by simp
next
  case wake
  have "dep_inv n out (s\<lparr>dep_group := wait_wake 0 (dep_group s)\<rparr>)"
    using wg_step.wake [OF wake(2,3)] by (intro dep_group_inv [OF assms(2)]) (auto simp: wait_wake_def)
  then show ?thesis using wake by simp
qed

lemma dep_begin_inv:
  assumes "0 < n" "int n < 2 ^ 63"
  shows "dep_inv n out (dep_begin n)"
proof -
  have "wg_step wg_init (wg_Add (int n) wg_init)" using assms by (intro wg_step.add) (simp_all add: wg_init_def)
  moreover have w: "waiting (wg_Add (int n) wg_init) = (\<lambda>_. Outside)" "wg_count (wg_Add (int n) wg_init) = int n"
    using assms by (simp_all add: wg_Add_def wg_init_def Let_def wrap64_id in64_def)
  ultimately have "wg_reachable 1 (wg_Add (int n) wg_init)" using wg_next [OF wg_start] by simp
  then show ?thesis using w by (simp add: dep_inv_def dep_begin_def open_deps_def)
qed

lemma dep_inv_run: "(dep_step n out)\<^sup>*\<^sup>* s s' \<Longrightarrow> dep_inv n out s \<Longrightarrow> dep_inv n out s'"
  by (induction rule: rtranclp_induct) (auto intro: dep_inv_step)

section \<open>The caller comes to its result\<close>

text \<open>The steps that are left: of each goroutine, of the one release of the semaphore, and of the caller.\<close>

fun steps_left :: "bool \<Rightarrow> dep_goroutine \<Rightarrow> nat" where
  "steps_left failed DepWaiting = 4"
| "steps_left failed (DepFailed e) = (if failed then 1 else 3)"
| "steps_left failed (DepSwapping e) = 2"
| "steps_left failed DepEnded = 0"

fun caller_left :: "wait_pc \<Rightarrow> nat" where
  "caller_left Outside = 2"
| "caller_left Checking = 1"
| "caller_left _ = 0"

definition dep_measure :: "nat \<Rightarrow> dep_wait \<Rightarrow> nat" where
  "dep_measure n s =
     (\<Sum>i<n. steps_left (firstErr s \<noteq> None) (dep_phase s i)) + 3 * ((if open_deps n s = {} then 0 else 1) + releasing (dep_group s)) +
     2 * sema (dep_group s) + caller_left (waiting (dep_group s) 0)"

lemma sum_fun_upd:
  fixes i n :: nat
  assumes "i < n"
  shows "(\<Sum>j<n. g ((f(i := x)) j)) + g (f i) = (\<Sum>j<n. g (f j)) + (g x :: nat)"
proof -
  have i: "i \<in> {..<n}" and fin: "finite {..<n}" using assms by simp_all
  have "(\<Sum>j\<in>{..<n} - {i}. g ((f(i := x)) j)) = (\<Sum>j\<in>{..<n} - {i}. g (f j))" by (rule sum.cong) simp_all
  then show ?thesis using sum.remove [OF fin i, of "\<lambda>j. g ((f(i := x)) j)"] sum.remove [OF fin i, of "\<lambda>j. g (f j)"] by simp
qed

lemma phase_measure:
  assumes "i < n" "ph \<noteq> DepEnded" "dep_phase s i \<noteq> DepEnded"
  shows "dep_measure n (s\<lparr>dep_phase := (dep_phase s)(i := ph)\<rparr>) + steps_left (firstErr s \<noteq> None) (dep_phase s i) =
    dep_measure n s + steps_left (firstErr s \<noteq> None) ph"
proof -
  have "open_deps n (s\<lparr>dep_phase := (dep_phase s)(i := ph)\<rparr>) = open_deps n s" using assms by (auto simp: open_deps_def)
  then show ?thesis using sum_fun_upd [OF assms(1), of "steps_left (firstErr s \<noteq> None)" "dep_phase s" ph] by (simp add: dep_measure_def)
qed

lemma end_measure:
  assumes "dep_inv n out s" "i < n" "dep_phase s i \<noteq> DepEnded"
  shows "dep_measure n (dep_end i s) + steps_left (firstErr s \<noteq> None) (dep_phase s i) = dep_measure n s"
proof -
  note g = dep_inv_group [OF assms(1)]
  let ?o = "open_deps n s"
  have i: "i \<in> ?o" "open_deps n (dep_end i s) = ?o - {i}" using assms(2,3) by (auto simp: open_deps_def dep_end_def)
  have c: "card ?o = Suc (card (?o - {i}))" by (rule card.remove [OF open_deps_finite i(1)])
  then have "wrap64 (wg_count (dep_group s) - 1) = int (card (?o - {i}))" using g(2,3) by (simp add: wrap64_id in64_def)
  then have d: "releasing (wg_Done (dep_group s)) = releasing (dep_group s) + (if ?o - {i} = {} then 1 else 0)"
    "sema (wg_Done (dep_group s)) = sema (dep_group s)" "waiting (wg_Done (dep_group s)) = waiting (dep_group s)"
    by (simp_all add: wg_Done_def wg_Add_def Let_def)
  have f: "dep_group (dep_end i s) = wg_Done (dep_group s)" "firstErr (dep_end i s) = firstErr s"
    "dep_phase (dep_end i s) = (dep_phase s)(i := DepEnded)" by (simp_all add: dep_end_def)
  have "?o \<noteq> {}" using i(1) by blast
  then show ?thesis
    using sum_fun_upd [OF assms(2), of "steps_left (firstErr s \<noteq> None)" "dep_phase s" DepEnded]
    unfolding dep_measure_def i(2) f d by (simp split: if_split)
qed

lemma first_error_measure: "dep_measure n (s\<lparr>firstErr := Some e\<rparr>) \<le> dep_measure n s"
proof -
  have "steps_left True ph \<le> steps_left b ph" for b ph by (cases ph) simp_all
  then show ?thesis by (auto simp: dep_measure_def open_deps_def intro!: sum_mono)
qed

lemma dep_step_measure:
  assumes "dep_inv n out s" "dep_step n out s s'"
  shows "dep_measure n s' < dep_measure n s"
  using assms(2)
proof cases
  case (returns i)
  show ?thesis
  proof (cases "out i")
    case None
    then show ?thesis using returns end_measure [OF assms(1), of i] by (simp add: dep_return_def)
  next
    case (Some e)
    then show ?thesis using returns phase_measure [of i n "DepFailed e" s] by (auto simp: dep_return_def split: if_split_asm)
  qed
next
  case (load i e)
  then show ?thesis using end_measure [OF assms(1), of i] phase_measure [of i n "DepSwapping e" s]
    by (auto simp: dep_load_def split: option.split)
next
  case (swap i e)
  have "out i = Some e" using swap(2,3) assms(1) by (simp add: dep_inv_def)
  then have "dep_inv n out (s\<lparr>firstErr := Some e\<rparr>)" using assms(1) swap(2) by (auto simp: dep_inv_def open_deps_def)
  from end_measure [OF this, of i] show ?thesis using swap phase_measure [of i n "DepFailed e" s] first_error_measure [of n e s]
    by (auto simp: dep_swap_def split: option.split)
qed (auto simp: dep_measure_def open_deps_def wait_check_def wait_wake_def)

text \<open>Before the caller has returned some goroutine, the release or the caller itself can go on.\<close>

lemma dep_progress:
  assumes "dep_inv n out s" "waiting (dep_group s) 0 \<noteq> Returned"
  shows "\<exists>s'. dep_step n out s s'"
proof (cases "open_deps n s = {}")
  case True
  have "wg_count (dep_group s) = 0" using dep_inv_group(2) [OF assms(1)] True by simp
  then have "0 < releasing (dep_group s) \<or> 0 < sema (dep_group s)" if "waiting (dep_group s) 0 = Sleeping"
    using dep_inv_group(4) [OF assms(1) that] by auto
  then show ?thesis using assms(2) dep_step.release dep_step.wake dep_step.enter dep_step.check
    by (cases "waiting (dep_group s) 0") blast+
next
  case False
  then obtain i where "i < n" "dep_phase s i \<noteq> DepEnded" by (auto simp: open_deps_def)
  then show ?thesis by (cases "dep_phase s i") (auto intro: dep_step.intros)
qed

lemma dep_inv_steps:
  assumes "dep_inv n out s" "(dep_step n out ^^ m) s s'"
  shows "dep_inv n out s' \<and> m + dep_measure n s' \<le> dep_measure n s"
  using assms(2)
proof (induction m arbitrary: s')
  case (Suc m)
  then obtain t where t: "(dep_step n out ^^ m) s t" "dep_step n out t s'" by auto
  then show ?case using Suc.IH [OF t(1)] dep_inv_step [OF t(2)] dep_step_measure [OF _ t(2)] by fastforce
qed (use assms(1) in simp)

lemma dep_run_ends: "dep_inv n out s \<Longrightarrow> \<exists>m s'. (dep_step n out ^^ m) s s' \<and> waiting (dep_group s') 0 = Returned"
proof (induction "dep_measure n s" arbitrary: s rule: less_induct)
  case less
  show ?case
  proof (cases "waiting (dep_group s) 0 = Returned")
    case True
    then show ?thesis by (intro exI [of _ 0] exI [of _ s]) simp
  next
    case False
    then obtain t where t: "dep_step n out s t" using dep_progress [OF less.prems] by blast
    from less.hyps [OF dep_step_measure [OF less.prems t] dep_inv_step [OF t less.prems]] obtain m s' where
      "(dep_step n out ^^ m) t s'" "waiting (dep_group s') 0 = Returned" by blast
    then show ?thesis using relpowp_Suc_I2 [of "dep_step n out", OF t] by blast
  qed
qed

text \<open>The error that \<open>wait_each\<close> keeps when the goroutines end in a given order.\<close>

fun first_failure :: "(nat \<Rightarrow> go_error option) \<Rightarrow> nat list \<Rightarrow> go_error option" where
  "first_failure out [] = None"
| "first_failure out (i # order) = (case out i of Some e \<Rightarrow> Some e | None \<Rightarrow> first_failure out order)"

lemma first_failure_None: "(\<forall>i\<in>set order. out i = None) \<Longrightarrow> first_failure out order = None"
  by (induction order) auto

text \<open>C13: Waiting for dependencies, in every interleaving of the goroutines and the caller. Whatever the scheduler does, the run ends, after at most
  four steps of each goroutine and five others, and it cannot stop before the caller has returned. When it has,
  every goroutine has ended, and the result is the one of looking at the goroutines one after the other in some
  order and keeping the first error: an error of one of the dependencies if there is one, and otherwise the error of the context.\<close>

theorem wait_dependencies_first_error:
  assumes "0 < n" "int n < 2 ^ 63" "(dep_step n out ^^ m) (dep_begin n) s"
  shows "m \<le> 4 * n + 5 \<and> (waiting (dep_group s) 0 \<noteq> Returned \<longrightarrow> (\<exists>s'. dep_step n out s s')) \<and>
    (waiting (dep_group s) 0 = Returned \<longrightarrow> (\<forall>i<n. dep_phase s i = DepEnded) \<and>
      (\<exists>order. mset order = mset [0..<n] \<and>
         dep_result ctx_err s = (case first_failure out order of Some e \<Rightarrow> Some e | None \<Rightarrow> ctx_err)))"
proof -
  have w: "wg_Add (int n) wg_init = wg_init\<lparr>wg_count := int n\<rparr>"
    using assms(1,2) by (simp add: wg_Add_def wg_init_def Let_def wrap64_id in64_def)
  have "dep_measure n (dep_begin n) \<le> 4 * n + 5" unfolding dep_measure_def dep_begin_def w by (simp add: wg_init_def)
  then have inv: "dep_inv n out s" and bound: "m \<le> 4 * n + 5" using dep_inv_steps [OF dep_begin_inv [OF assms(1,2)] assms(3)] by simp_all
  have "\<exists>order. mset order = mset [0..<n] \<and> firstErr s = first_failure out order"
    if ended: "\<forall>i<n. dep_phase s i = DepEnded"
  proof (cases "firstErr s")
    case None
    then have "\<forall>i\<in>set [0..<n]. out i = None" using inv ended by (auto simp: dep_inv_def)
    from first_failure_None [OF this] None show ?thesis by metis
  next
    case (Some e)
    then obtain i where i: "i < n" "out i = Some e" using inv by (auto simp: dep_inv_def)
    have "mset (i # remove1 i [0..<n]) = mset [0..<n]" using i(1) by simp
    moreover have "first_failure out (i # remove1 i [0..<n]) = Some e" using i(2) by simp
    ultimately show ?thesis using Some by metis
  qed
  moreover have "waiting (dep_group s) 0 = Returned \<longrightarrow> (\<forall>i<n. dep_phase s i = DepEnded)" using inv by (auto simp: dep_inv_def open_deps_def)
  ultimately show ?thesis using bound dep_progress [OF inv] unfolding dep_result_def by metis
qed

theorem wait_dependencies_first_error_witness:
  "\<exists>m s. (dep_step 2 (\<lambda>i. if i = 1 then Some (AppError ''late'') else None) ^^ m) (dep_begin 2) s \<and> m \<le> 13 \<and>
     waiting (dep_group s) 0 = Returned \<and> dep_result None s = Some (AppError ''late'')"
proof -
  let ?out = "\<lambda>i. if i = 1 then Some (AppError ''late'') else None"
  have two: "0 < (2 :: nat)" "int 2 < 2 ^ 63" by simp_all
  obtain m s where s: "(dep_step 2 ?out ^^ m) (dep_begin 2) s" "waiting (dep_group s) 0 = Returned"
    using dep_run_ends [OF dep_begin_inv [OF two]] by blast
  note w = wait_dependencies_first_error [OF two s(1), of None]
  obtain order where o: "mset order = mset [0..<2]" "dep_result None s = (case first_failure ?out order of Some e \<Rightarrow> Some e | None \<Rightarrow> None)"
    using w s(2) by blast
  have upt: "[0..<2] = [0, 1 :: nat]" by (simp add: numeral_2_eq_2)
  have l: "length order = 2" "set order = {0, 1}" using mset_eq_length [OF o(1)] mset_eq_setD [OF o(1)] unfolding upt by simp_all
  then obtain x y where "order = [x, y]" by (metis length_0_conv length_Suc_conv numeral_2_eq_2)
  then have "order = [0, 1] \<or> order = [1, 0]" using l(2) by (auto simp: doubleton_eq_iff)
  then have "first_failure ?out order = Some (AppError ''late'')" by auto
  then show ?thesis using s o(2) w by (intro exI [of _ m] exI [of _ s] conjI) simp_all
qed

end
