(* ===== verification/Pool.thy ===== *)
theory Pool
  imports Dependency Breaker_Cache Regulators
begin

text \<open>
  \<^verbatim>\<open>pool.go\<close>, the rest of \<^verbatim>\<open>dependency.go\<close> and \<^verbatim>\<open>processJob\<close> of \<^verbatim>\<open>worker.go\<close>: the pool that puts the
  components together. Its workers, counters, queue and telemetry are the record \<open>lifecycle\<close>; the
  result space, the scaler, the breaker cache and the configuration are fields beside it. Clock readings, the states of contexts, what the disruptor
  answers, and errors made by the libraries are observations, collected in a record per
  operation. The text of an error made with \<^verbatim>\<open>errnie\<close> is the argument \<open>E\<close>. A job's function returns a value
  of type \<^verbatim>\<open>any\<close>. \<open>None\<close>: the operation panics or has not returned. Encoding the telemetry payloads,
  maps from strings to strings and integers, cannot fail.
\<close>

record ('v, 'art) Q =
  core :: "'v any_value lifecycle"
  space :: "'art QSpace"
  scaler :: "Scaler option"
  breakers :: circuitBreakerCache
  config :: "Config option"
  deps :: int
  resolving :: "'v any_value Job list"
  q_err :: "go_error option"

definition queue_capacity :: "Config \<Rightarrow> int \<Rightarrow> int" where
  "queue_capacity conf mx =
     (if 0 < JobChannelCapacity conf then JobChannelCapacity conf else jobQueueCapacity (ScalerConfig_of conf) mx)"

definition given_config :: "Config option \<Rightarrow> Config" where
  "given_config cfg = (case cfg of None \<Rightarrow> NewConfig defaultCircuitBreakerLimit | Some c \<Rightarrow> c)"

definition NewQ :: "string \<Rightarrow> int \<Rightarrow> go_error option \<Rightarrow> int \<Rightarrow> int \<Rightarrow> Config option \<Rightarrow> ('v, 'art) Q option" where
  "NewQ uuid now queue_err minW maxW cfg =
     (let conf = given_config cfg; mx = max 1 maxW; mn = min (max 1 minW) mx
      in case newJobDisruptorQueue queue_err (queue_capacity conf mx) mx of
           None \<Rightarrow> None
         | Some built \<Rightarrow>
             (let (jq, err) = (case built of Inl e \<Rightarrow> (None, Some e) | Inr jq \<Rightarrow> (Some jq, None))
              in case new_lifecycle mn mx jq (TelemetryPublish conf) of
                   None \<Rightarrow> None
                 | Some lc \<Rightarrow>
                     (case start_loop (nat mn) (if err = None then lc else lc\<lparr>poolCancelled := True\<rparr>) of
                        None \<Rightarrow> None
                      | Some lc' \<Rightarrow>
                          Some \<lparr>core = lc', space = NewQSpace uuid,
                                scaler = map_option (NewScaler now mn mx) (ScalerConfig_of conf),
                                breakers = newCircuitBreakerCache (CircuitBreakerLimit conf), config = Some conf,
                                deps = 0, resolving = [], q_err = err\<rparr>)))"

definition pool_Close :: "bool \<Rightarrow> ('v, 'art) Q \<Rightarrow> ('v, 'art) Q option" where
  "pool_Close waits_end q =
     (case closePool waits_end (\<lambda>s. Option.bind s space_Close) (core q, Some (space q)) of
        Some (lc, Some s) \<Rightarrow> Some (q\<lparr>core := lc, space := s\<rparr>)
      | _ \<Rightarrow> None)"

section \<open>Reading the pool\<close>

text \<open>A nil pool is \<open>None\<close>.\<close>

definition zero_reading :: MetricReading where
  "zero_reading = \<lparr>WorkerCount = 0, BusyWorkers = 0, JobQueueSize = 0, AverageJobLatency = 0, P95JobLatency = 0, P99JobLatency = 0,
     JobSuccessRate = Fin 0, ResourceUtilization = Fin 0, TotalJobs = 0, FailedJobs = 0, SchedulingFailures = 0, RateLimitHits = 0,
     ThrottledJobs = 0\<rparr>"

definition MetricSnapshot :: "('v, 'art) Q option \<Rightarrow> MetricReading" where
  "MetricSnapshot q = (case q of None \<Rightarrow> zero_reading | Some p \<Rightarrow> CollectReading (lc_metrics (core p)))"

definition WorkerBounds :: "('v, 'art) Q option \<Rightarrow> int \<times> int" where
  "WorkerBounds q = (case q of None \<Rightarrow> (0, 0) | Some p \<Rightarrow> (minWorkers (core p), maxWorkers (core p)))"

definition PeriodicScalerConfigured :: "('v, 'art) Q option \<Rightarrow> bool" where
  "PeriodicScalerConfigured q =
     (case q of
        None \<Rightarrow> False
      | Some p \<Rightarrow> (case config p of None \<Rightarrow> False | Some c \<Rightarrow> ScalerConfig_of c \<noteq> None))"

definition pool_PeekResult :: "('art, 'err) datura \<Rightarrow> string \<Rightarrow> ('v, 'art) Q option \<Rightarrow> 'art option \<times> bool" where
  "pool_PeekResult D i q = (case q of None \<Rightarrow> (None, False) | Some p \<Rightarrow> space_PeekResult D i (space p))"

definition pool_CreateBroadcastGroup ::
  "('art BroadcastGroup \<Rightarrow> bool) \<Rightarrow> string \<Rightarrow> ('v, 'art) Q \<Rightarrow> 'art BroadcastGroup option \<times> ('v, 'art) Q" where
  "pool_CreateBroadcastGroup require_ok i q =
     (let (g, s) = CreateBroadcastGroup require_ok i (space q) in (g, q\<lparr>space := s\<rparr>))"

definition pool_Subscribe ::
  "('art BroadcastGroup \<Rightarrow> bool) \<Rightarrow> string \<Rightarrow> string \<Rightarrow> ('art \<Rightarrow> go_error option) option \<Rightarrow> ('v, 'art) Q \<Rightarrow>
   ('art BroadcastConsumer option \<times> ('v, 'art) Q) option" where
  "pool_Subscribe require_ok uuid groupID cb q =
     map_option (\<lambda>(c, s). (c, q\<lparr>space := s\<rparr>)) (Subscribe require_ok uuid groupID cb (space q))"

section \<open>Enqueueing\<close>

definition schedulingTimeout :: "Config option \<Rightarrow> int" where
  "schedulingTimeout conf =
     (let t = (case conf of None \<Rightarrow> 0 | Some c \<Rightarrow> SchedulingTimeout c) in if 0 < t then t else 5 * second)"

text \<open>The reads of the pool's and the caller's context: before publishing, after it failed, and once
  more in \<^verbatim>\<open>scheduleDoneError\<close>.\<close>

record enq_obs =
  pool_before :: "go_error option"
  rounds :: "pub_obs list"
  pool_after :: "go_error option"
  ctx_after :: "go_error option"
  pool_done :: "go_error option"

definition pool_closed :: go_error where
  "pool_closed = AppError ''qpool: pool closed''"

definition closed_by :: "go_error \<Rightarrow> go_error" where
  "closed_by e = Wrapped ''qpool: pool closed'' e"

definition scheduleDoneError :: "go_error option \<Rightarrow> go_error \<Rightarrow> go_error \<times> bool" where
  "scheduleDoneError pool_err ctx_err =
     (case pool_err of
        Some e \<Rightarrow> (closed_by e, False)
      | None \<Rightarrow> (Wrapped ''job scheduling timeout'' ctx_err, True))"

definition enqueueJob :: "enq_obs \<Rightarrow> 'v Job \<Rightarrow> 'v lifecycle \<Rightarrow> (go_error option \<times> 'v lifecycle) option" where
  "enqueueJob ob job pool =
     (if stopping pool then Some (Some pool_closed, pool)
      else case pool_before ob of
             Some e \<Rightarrow> Some (Some (closed_by e), pool)
           | None \<Rightarrow>
               (case publishJob job (rounds ob) (lc_metrics pool, jobQueue pool) of
                  None \<Rightarrow> None
                | Some (err, m, jq) \<Rightarrow>
                    (let p1 = pool\<lparr>lc_metrics := m, jobQueue := jq\<rparr>
                     in case err of
                          Some e \<Rightarrow>
                            (case pool_after ob of
                               Some pe \<Rightarrow> Some (Some (closed_by pe), p1)
                             | None \<Rightarrow>
                                 (case ctx_after ob of
                                    Some ce \<Rightarrow>
                                      (let (de, failure) = scheduleDoneError (pool_done ob) ce
                                       in Some (Some de, if failure then p1\<lparr>lc_metrics := incSchedulingFailure (lc_metrics p1)\<rparr> else p1))
                                  | None \<Rightarrow> Some (Some (Wrapped ''qpool: schedule job'' e), p1)))
                        | None \<Rightarrow> Some (None, publishTelemetry (JobScheduled (ID job)) p1))))"

section \<open>Jobs with dependencies\<close>

definition startDependencyWait :: "go_error option \<Rightarrow> 'v any_value Job \<Rightarrow> ('v, 'art) Q \<Rightarrow> go_error option \<times> ('v, 'art) Q" where
  "startDependencyWait ctx_err job q =
     (if stopping (core q) then (Some pool_closed, q)
      else case ctx_err of
             Some e \<Rightarrow> (Some (closed_by e), q)
           | None \<Rightarrow> (None, q\<lparr>deps := deps q + 1, resolving := resolving q @ [job]\<rparr>))"

definition on_breaker :: "(CircuitBreaker \<Rightarrow> CircuitBreaker) \<Rightarrow> nat \<Rightarrow> circuitBreakerCache \<Rightarrow> circuitBreakerCache" where
  "on_breaker f b c = c\<lparr>breaker_at := (breaker_at c)(b := f (breaker_at c b))\<rparr>"

text \<open>The report of an outcome to the breaker of a job, if it has a circuit.\<close>

definition record_breaker ::
  "(CircuitBreaker \<Rightarrow> CircuitBreaker) \<Rightarrow> 'v any_value Job \<Rightarrow> ('v, 'art) Q \<Rightarrow> ('v, 'art) Q option" where
  "record_breaker f job q =
     (if CircuitID job = [] then Some q
      else case breakerForJob job (Some (breakers q)) of
             Some (b, Some c) \<Rightarrow> Some (q\<lparr>breakers := (case b of None \<Rightarrow> c | Some x \<Rightarrow> on_breaker f x c)\<rparr>)
           | _ \<Rightarrow> None)"

definition record_outcome :: "int \<Rightarrow> bool \<Rightarrow> ('v, 'art) Q \<Rightarrow> ('v, 'art) Q" where
  "record_outcome latency success q = q\<lparr>core := (core q)\<lparr>lc_metrics := RecordJobOutcome latency success (lc_metrics (core q))\<rparr>\<rparr>"

definition publish_event :: "telemetry \<Rightarrow> ('v, 'art) Q \<Rightarrow> ('v, 'art) Q" where
  "publish_event ev q = q\<lparr>core := publishTelemetry ev (core q)\<rparr>"

definition recordDependencyFailure ::
  "('art, 'err) datura \<Rightarrow> 'v codec \<Rightarrow> int \<Rightarrow> int \<Rightarrow> 'v any_value Job \<Rightarrow> go_error \<Rightarrow> ('v, 'art) Q \<Rightarrow> ('v, 'art) Q option" where
  "recordDependencyFailure D J now failed_now job err q =
     (let latency = since now (StartTime job)
      in case record_breaker (RecordFailure failed_now) job (record_outcome latency False q) of
           None \<Rightarrow> None
         | Some q1 \<Rightarrow>
             (let q2 = publish_event (DependenciesUnmet (ID job) (quot64 latency millisecond)) q1
              in map_option (\<lambda>s. q2\<lparr>space := s\<rparr>) (StoreError D J (ID job) (Some err) (TTL job) (space q2))))"

record 'v dep_run =
  dep_order :: "(string \<times> 'v dep_obs list) list"
  dep_ctx :: "go_error option"
  dep_enq :: enq_obs
  dep_now :: int
  dep_failed_now :: int

text \<open>The goroutine after its wait: \<open>waited\<close> is what \<^verbatim>\<open>waitDependencies\<close> returned.\<close>

definition settleDependentJob ::
  "('art, 'err) datura \<Rightarrow> 'v codec \<Rightarrow> 'v dep_run \<Rightarrow> go_error option \<Rightarrow> 'v any_value Job \<Rightarrow> ('v, 'art) Q \<Rightarrow> ('v, 'art) Q option" where
  "settleDependentJob D J r waited job q =
     (let fin = map_option (\<lambda>q'. q'\<lparr>deps := deps q' - 1\<rparr>)
      in case waited of
           Some err \<Rightarrow> fin (recordDependencyFailure D J (dep_now r) (dep_failed_now r) job err q)
         | None \<Rightarrow>
             (case enqueueJob (dep_enq r) job (core q) of
                None \<Rightarrow> None
              | Some (None, lc) \<Rightarrow> fin (Some (q\<lparr>core := lc\<rparr>))
              | Some (Some err, lc) \<Rightarrow>
                  fin (map_option (\<lambda>s. q\<lparr>space := s, core := lc\<rparr>) (StoreError D J (ID job) (Some err) (TTL job) (space q)))))"

definition resolveDependentJob ::
  "('art, 'err) datura \<Rightarrow> 'v codec \<Rightarrow> 'v dep_run \<Rightarrow> 'v any_value Job \<Rightarrow> ('v, 'art) Q \<Rightarrow> ('v, 'art) Q option" where
  "resolveDependentJob D J r job q =
     (case waitDependencies D J job (dep_order r) (dep_ctx r) (space q) of
        None \<Rightarrow> None
      | Some (waited, s) \<Rightarrow> settleDependentJob D J r waited job (q\<lparr>space := s\<rparr>))"

section \<open>Scheduling\<close>

text \<open>The value that \<^verbatim>\<open>jobPool.New\<close> makes, at the time \<open>t\<close>. \<^verbatim>\<open>defer jobPool.Put(job)\<close> evaluates its
  argument at once, so what returns to the pool is this value, with the time of its creation.\<close>

definition pooled_job :: "int \<Rightarrow> 'v Job" where
  "pooled_job t = zero_Job\<lparr>StartTime := t, RetryPolicy_of := Some (fresh_policy 1 (Some default_backoff))\<rparr>"

record sched_obs =
  pooledStart :: int
  scale_clk :: clk
  reg_env :: env
  allow_now :: int
  start_ctx :: "go_error option"
  enq :: enq_obs

definition scheduled_job :: "sched_obs \<Rightarrow> string \<Rightarrow> (int \<Rightarrow> 'v fn_outcome) \<Rightarrow> 'v JobOption list \<Rightarrow> 'v Job" where
  "scheduled_job ob i fn opts = fold (\<lambda>opt j. opt j) opts ((pooled_job (pooledStart ob))\<lparr>ID := i, Fn := fn\<rparr>)"

definition observe_scaler :: "clk \<Rightarrow> MetricReading \<Rightarrow> ('v, 'art) Q \<Rightarrow> ('v, 'art) Q option" where
  "observe_scaler c reading q =
     (case scaler q of
        None \<Rightarrow> Some q
      | Some sc \<Rightarrow> map_option (\<lambda>(sc', lc). q\<lparr>scaler := Some sc', core := lc\<rparr>) (SC_Observe c reading (sc, core q)))"

definition ask_regulators :: "env \<Rightarrow> MetricReading \<Rightarrow> ('v, 'art) Q \<Rightarrow> bool \<times> ('v, 'art) Q" where
  "ask_regulators e reading q =
     (case config q of
        None \<Rightarrow> (False, q)
      | Some c \<Rightarrow> (let (limited, regs) = admit any_ops e reading (Regulators_of c)
                   in (limited, q\<lparr>config := Some (c\<lparr>Regulators_of := regs\<rparr>)\<rparr>)))"

text \<open>The breaker of the job's circuit: whether it lets the job pass, and the job with the breaker it will report to.\<close>

definition ask_breaker ::
  "int \<Rightarrow> 'v any_value Job \<Rightarrow> ('v, 'art) Q \<Rightarrow> (bool \<times> 'v any_value Job \<times> ('v, 'art) Q) option" where
  "ask_breaker now job q =
     (if CircuitID job = [] then Some (True, job, q)
      else case breakerFor job (Some (breakers q)) of
             Some (None, Some c) \<Rightarrow> Some (True, job, q\<lparr>breakers := c\<rparr>)
           | Some (Some b, Some c) \<Rightarrow>
               (let (allowed, cb) = Allow now (breaker_at c b)
                in Some (allowed, job\<lparr>circuitBreaker := Some b\<rparr>, q\<lparr>breakers := on_breaker (\<lambda>_. cb) b c\<rparr>))
           | _ \<Rightarrow> None)"

text \<open>\<^verbatim>\<open>Schedule\<close> up to the point where it takes the handle: the job was refused with an error handle, put into the
  queue, or given to a goroutine that waits for its dependencies.\<close>

datatype ('v, 'art) submission = Refused "'art ResultWait" | Queued "'v any_value Job" | Depending "'v any_value Job"

definition Schedule_submit ::
  "('art, 'err) datura \<Rightarrow> 'v codec \<Rightarrow> (string \<Rightarrow> go_error) \<Rightarrow> sched_obs \<Rightarrow> string \<Rightarrow> (int \<Rightarrow> 'v any_value fn_outcome) \<Rightarrow>
   'v any_value JobOption list \<Rightarrow> ('v, 'art) Q \<Rightarrow> (('v, 'art) submission \<times> ('v, 'art) Q) option" where
  "Schedule_submit D J E ob i fn opts q =
     (let job0 = scheduled_job ob i fn opts; reading = CollectReading (lc_metrics (core q));
          refuse = (\<lambda>e p. Some (Refused (errorResultWait D J (Some e)), p))
      in case observe_scaler (scale_clk ob) reading q of
           None \<Rightarrow> None
         | Some q1 \<Rightarrow>
             (let (limited, q2) = ask_regulators (reg_env ob) reading q1
              in if limited
                 then refuse (E ''qpool: regulator rejected schedule'')
                        (q2\<lparr>core := (core q2)\<lparr>lc_metrics := incThrottled (lc_metrics (core q2))\<rparr>\<rparr>)
                 else case ask_breaker (allow_now ob) job0 q2 of
                        None \<Rightarrow> None
                      | Some (allowed, job, q3) \<Rightarrow>
                          if \<not> allowed then refuse (E (''circuit breaker '' @ CircuitID job @ '' is open'')) q3
                          else if stopping (core q3) then refuse (E ''qpool: pool closed'') q3
                          else if 0 < length (Dependencies job)
                               then (case startDependencyWait (start_ctx ob) job q3 of
                                       (Some e, q4) \<Rightarrow> refuse e q4
                                     | (None, q4) \<Rightarrow> Some (Depending job, q4))
                               else case enqueueJob (enq ob) job (core q3) of
                                      None \<Rightarrow> None
                                    | Some (Some e, lc) \<Rightarrow> refuse e (q3\<lparr>core := lc\<rparr>)
                                    | Some (None, lc) \<Rightarrow> Some (Queued job, q3\<lparr>core := lc\<rparr>)))"

definition Schedule ::
  "('art, 'err) datura \<Rightarrow> 'v codec \<Rightarrow> (string \<Rightarrow> go_error) \<Rightarrow> sched_obs \<Rightarrow> string \<Rightarrow> (int \<Rightarrow> 'v any_value fn_outcome) \<Rightarrow>
   'v any_value JobOption list \<Rightarrow> ('v, 'art) Q \<Rightarrow> ('art ResultWait option \<times> ('v, 'art) Q) option" where
  "Schedule D J E ob i fn opts q =
     (case Schedule_submit D J E ob i fn opts q of
        None \<Rightarrow> None
      | Some (Refused h, p) \<Rightarrow> Some (Some h, p)
      | Some (_, p) \<Rightarrow> (let (w, s) = Await D J i (space p) in Some (typedResultWait (Some w), p\<lparr>space := s\<rparr>)))"

section \<open>Running a job\<close>

text \<open>\<open>exec_ctx\<close> is the context made for a deadline; \<open>shadow_err\<close> is the error of \<^verbatim>\<open>NewArtifact_Error\<close>, which
  hides the error of the job in the failure branch of \<^verbatim>\<open>processJob\<close>.\<close>

record job_obs =
  exec_ctx :: "int \<Rightarrow> run_ctx"
  startedAt :: int
  endedAt :: int
  execEndedAt :: int
  outcome_now :: int
  shadow_err :: "go_error option"

definition exec_deadline :: "('v, 'art) Q \<Rightarrow> 'v any_value Job \<Rightarrow> int" where
  "exec_deadline q job = (if 0 < ExecTimeout job then ExecTimeout job else schedulingTimeout (config q))"

definition result_value :: "'v any_value option \<Rightarrow> 'v any_value" where
  "result_value res = (case res of None \<Rightarrow> VNil | Some v \<Rightarrow> v)"

definition processJob ::
  "('art, 'err) datura \<Rightarrow> 'v codec \<Rightarrow> job_obs \<Rightarrow> 'v any_value Job \<Rightarrow> ('v, 'art) Q \<Rightarrow> ('v, 'art) Q option" where
  "processJob D J ob job q =
     (let q0 = publish_event (JobStarted (ID job)) q;
          ((res, err), _) = runJobWithRetries (exec_ctx ob (exec_deadline q job)) job;
          latency = since (endedAt ob) (StartTime job);
          execDur = since (execEndedAt ob) (startedAt ob)
      in case err of
           Some _ \<Rightarrow>
             (case record_breaker (RecordFailure (outcome_now ob)) job (record_outcome latency False q0) of
                None \<Rightarrow> None
              | Some q1 \<Rightarrow>
                  (let q2 = publish_event (JobErrored (ID job)) q1
                   in map_option (\<lambda>s. q2\<lparr>space := s\<rparr>) (StoreError D J (ID job) (shadow_err ob) (TTL job) (space q2))))
         | None \<Rightarrow>
             (case record_breaker RecordSuccess job (record_outcome latency True q0) of
                None \<Rightarrow> None
              | Some q1 \<Rightarrow>
                  (let q2 = publish_event (JobCompleted (ID job) (quot64 latency millisecond) (quot64 execDur millisecond)) q1
                   in map_option (\<lambda>s. q2\<lparr>space := s\<rparr>) (Store D J (ID job) (result_value res) (TTL job) (space q2)))))"

section \<open>What scheduling leaves alone\<close>

text \<open>The scaler only tells the queue how many workers there are.\<close>

definition queue_data :: "'v lifecycle \<Rightarrow> ('v jobDisruptorSlot RingBuffer \<times> int list) option" where
  "queue_data pool = map_option (\<lambda>jq. (ring jq, committed jq)) (jobQueue pool)"

text \<open>The queue's slots and flags and the counters of queued and running jobs.\<close>

definition duty ::
  "'v lifecycle \<Rightarrow> ('v jobDisruptorSlot RingBuffer \<times> int list \<times> bool \<times> int) option \<times> int \<times> int \<times> bool" where
  "duty pool =
     (map_option (\<lambda>jq. (ring jq, committed jq, queue_closed jq, handlerCount jq)) (jobQueue pool),
      jobQueueDepth (lc_metrics pool), busyWorkers (lc_metrics pool), stopping pool)"

lemma queue_data_metrics [simp]: "queue_data (pool\<lparr>lc_metrics := m\<rparr>) = queue_data pool"
  by (simp add: queue_data_def)

lemma duty_queue_data: "duty pool' = duty pool \<Longrightarrow> queue_data pool' = queue_data pool"
  by (cases "jobQueue pool"; cases "jobQueue pool'") (auto simp: duty_def queue_data_def)

lemma duty_simps [simp]:
  "duty (publishTelemetry ev pool) = duty pool"
  "duty (pool\<lparr>lc_registry := r\<rparr>) = duty pool" "duty (pool\<lparr>nextWorker := n\<rparr>) = duty pool"
  "jobQueueDepth m = jobQueueDepth (lc_metrics pool) \<Longrightarrow> busyWorkers m = busyWorkers (lc_metrics pool) \<Longrightarrow> duty (pool\<lparr>lc_metrics := m\<rparr>) = duty pool"
  "tell_active pool = Some pool' \<Longrightarrow> duty pool' = duty pool"
  by (auto simp: duty_def tell_active_def setActiveWorkers_def publishTelemetry_def split: option.splits)

lemma worker_count_duty [simp]:
  "jobQueueDepth (snd (tryIncWorkerIfBelow mx m)) = jobQueueDepth m" "busyWorkers (snd (tryIncWorkerIfBelow mx m)) = busyWorkers m"
  "jobQueueDepth (decWorkerCount m) = jobQueueDepth m" "busyWorkers (decWorkerCount m) = busyWorkers m"
  "jobQueueDepth (NoteLastScale t m) = jobQueueDepth m" "busyWorkers (NoteLastScale t m) = busyWorkers m"
  by (simp_all add: tryIncWorkerIfBelow_def decWorkerCount_def NoteLastScale_def split: sum.split)

lemma startWorker_duty: "startWorker pool = Some pool' \<Longrightarrow> duty pool' = duty pool"
  using worker_count_duty(1,2) [of "maxWorkers pool" "lc_metrics pool"]
  by (cases "tryIncWorkerIfBelow (maxWorkers pool) (lc_metrics pool)") (auto simp: startWorker_def Let_def split: if_split_asm option.splits)

lemma start_loop_duty: "start_loop n pool = Some pool' \<Longrightarrow> duty pool' = duty pool"
  by (induction n arbitrary: pool) (auto dest: startWorker_duty split: option.splits)

lemma scaleDown_loop_duty: "scaleDown_loop n pool = Some pool' \<Longrightarrow> duty pool' = duty pool"
proof (induction n arbitrary: pool)
  case (Suc n)
  then show ?case by (fastforce split: option.splits prod.splits)
qed simp

lemma scale_duty:
  "scaleUp n sc pool = Some pool' \<Longrightarrow> duty pool' = duty pool"
  "scaleDownWorkers n pool = Some pool' \<Longrightarrow> duty pool' = duty pool"
  "duty (noteScaleUp t n pool) = duty pool"
  by (auto simp: scaleUp_def scaleDownWorkers_def noteScaleUp_def Let_def dest: start_loop_duty scaleDown_loop_duty)

lemma evaluate_duty: "evaluate c (sc, pool) = Some (sc', pool') \<Longrightarrow> duty pool' = duty pool"
  by (auto simp: evaluate_def Let_def noteScaleDown_def scale_duty(3) split: option.splits if_split_asm dest!: scale_duty(1,2))

lemma SC_Observe_duty: "SC_Observe c r (sc, pool) = Some (sc', pool') \<Longrightarrow> duty pool' = duty pool"
  by (auto simp: SC_Observe_def dest: evaluate_duty)

lemma observe_scaler_duty: "observe_scaler c r q = Some q' \<Longrightarrow> duty (core q') = duty (core q)"
  by (auto simp: observe_scaler_def dest: SC_Observe_duty split: option.splits)

lemma observe_scaler_keeps:
  "observe_scaler c r q = Some q' \<Longrightarrow> space q' = space q \<and> queue_data (core q') = queue_data (core q) \<and>
   deps q' = deps q \<and> resolving q' = resolving q \<and> breakers q' = breakers q \<and> config q' = config q"
  using duty_queue_data [OF observe_scaler_duty, of c r q q'] by (auto simp: observe_scaler_def split: option.splits)

lemma ask_regulators_keeps: "ask_regulators e r q = (limited, q') \<Longrightarrow> space q' = space q \<and> core q' = core q \<and> deps q' = deps q \<and> resolving q' = resolving q"
  by (auto simp: ask_regulators_def split: option.splits prod.splits)

lemma ask_breaker_keeps:
  assumes "ask_breaker now job q = Some (allowed, job', q')"
  shows "space q' = space q \<and> core q' = core q \<and> deps q' = deps q \<and> resolving q' = resolving q \<and> (\<exists>b. job' = job\<lparr>circuitBreaker := b\<rparr>) \<and>
    (CircuitID job = [] \<or> circuitBreaker job' \<noteq> None \<or> CircuitConfig job = None)"
proof -
  have none: "CircuitConfig job = None \<or> CircuitID job = []" if "breakerFor job (Some c0) = Some (None, c)" for c0 c
    using that by (auto simp: breakerFor_def getOrCreate_def split: option.splits if_split_asm prod.splits)
  have same: "\<exists>b. j = j\<lparr>circuitBreaker := b\<rparr>" for j :: "'a any_value Job" by (rule exI [of _ "circuitBreaker j"]) simp
  show ?thesis using assms none
    by (auto simp: ask_breaker_def Let_def intro: same split: if_split_asm option.splits prod.splits)
qed

section \<open>From Schedule to the result\<close>

lemma Schedule_unfold:
  "Schedule D J E ob i fn opts q =
     (let job0 = scheduled_job ob i fn opts; reading = CollectReading (lc_metrics (core q));
          refuse = (\<lambda>e p. Some (Some (errorResultWait D J (Some e)), p));
          await = (\<lambda>p. let (w, s) = Await D J i (space p) in Some (typedResultWait (Some w), p\<lparr>space := s\<rparr>))
      in case observe_scaler (scale_clk ob) reading q of
           None \<Rightarrow> None
         | Some q1 \<Rightarrow>
             (let (limited, q2) = ask_regulators (reg_env ob) reading q1
              in if limited
                 then refuse (E ''qpool: regulator rejected schedule'')
                        (q2\<lparr>core := (core q2)\<lparr>lc_metrics := incThrottled (lc_metrics (core q2))\<rparr>\<rparr>)
                 else case ask_breaker (allow_now ob) job0 q2 of
                        None \<Rightarrow> None
                      | Some (allowed, job, q3) \<Rightarrow>
                          if \<not> allowed then refuse (E (''circuit breaker '' @ CircuitID job @ '' is open'')) q3
                          else if stopping (core q3) then refuse (E ''qpool: pool closed'') q3
                          else if 0 < length (Dependencies job)
                               then (case startDependencyWait (start_ctx ob) job q3 of
                                       (Some e, q4) \<Rightarrow> refuse e q4
                                     | (None, q4) \<Rightarrow> await q4)
                               else case enqueueJob (enq ob) job (core q3) of
                                      None \<Rightarrow> None
                                    | Some (Some e, lc) \<Rightarrow> refuse e (q3\<lparr>core := lc\<rparr>)
                                    | Some (None, lc) \<Rightarrow> await (q3\<lparr>core := lc\<rparr>)))"
  by (auto simp: Schedule_def Schedule_submit_def Let_def split: option.split prod.split)

lemma error_handle_ready: "wait_slot (errorResultWait D J e) = None"
  by (auto simp: errorResultWait_def readyResultWait_def split: sum.split)

text \<open>A caller that gets a handle on a slot has a job in the queue, or a goroutine that waits for its dependencies.\<close>

lemma Schedule_pending:
  assumes "Schedule D J E ob i fn opts q = Some (Some h, q1)" "wait_slot h \<noteq> None"
  shows "\<exists>job w s b. Await D J i (space q) = (w, s) \<and> typedResultWait (Some w) = Some h \<and> space q1 = s \<and>
    job = (scheduled_job ob i fn opts)\<lparr>circuitBreaker := b\<rparr> \<and>
    (CircuitID job = [] \<or> circuitBreaker job \<noteq> None \<or> CircuitConfig job = None) \<and>
    (Dependencies job = [] \<longrightarrow> (\<exists>lc. queue_data lc = queue_data (core q) \<and> enqueueJob (enq ob) job lc = Some (None, core q1)))"
proof -
  let ?j = "scheduled_job ob i fn opts" and ?r = "CollectReading (lc_metrics (core q))"
  obtain q1' where o: "observe_scaler (scale_clk ob) ?r q = Some q1'"
    using assms(1) by (auto simp: Schedule_unfold Let_def split: option.splits)
  obtain limited q2 where r: "ask_regulators (reg_env ob) ?r q1' = (limited, q2)" by (cases "ask_regulators (reg_env ob) ?r q1'")
  have nl: "\<not> limited" using assms o r by (auto simp: Schedule_unfold Let_def error_handle_ready)
  then obtain allowed job q3 where b: "ask_breaker (allow_now ob) ?j q2 = Some (allowed, job, q3)"
    using assms(1) o r by (auto simp: Schedule_unfold Let_def split: option.splits)
  have k: "space q3 = space q" "queue_data (core q3) = queue_data (core q)" "\<exists>b. job = ?j\<lparr>circuitBreaker := b\<rparr>"
    "CircuitID job = [] \<or> circuitBreaker job \<noteq> None \<or> CircuitConfig job = None"
    using observe_scaler_keeps [OF o] ask_regulators_keeps [OF r] ask_breaker_keeps [OF b] by auto
  have "\<exists>w s. Await D J i (space q) = (w, s) \<and> typedResultWait (Some w) = Some h \<and> space q1 = s \<and>
    (Dependencies job = [] \<longrightarrow> enqueueJob (enq ob) job (core q3) = Some (None, core q1))"
    using assms o r nl b k(1)
    by (auto simp: Schedule_unfold Let_def error_handle_ready startDependencyWait_def
        split: if_split_asm option.splits prod.splits)
  then show ?thesis using k(2-4) by blast
qed

lemma record_breaker_returns:
  assumes "CircuitID job = [] \<or> circuitBreaker job \<noteq> None \<or> CircuitConfig job = None"
  shows "\<exists>c. record_breaker f job q = Some (q\<lparr>breakers := c\<rparr>)"
  using assms
  by (auto simp: record_breaker_def breakerForJob_def breakerFor_def getOrCreate_def split: option.split intro: exI [of _ "breakers q"])

lemma event_fields [simp]:
  "space (publish_event ev q) = space q" "space (record_outcome l b q) = space q" "deps (publish_event ev q) = deps q" "deps (record_outcome l b q) = deps q"
  by (simp_all add: publish_event_def record_outcome_def)

text \<open>Running a job is one store into the space, of its result or of an error.\<close>

lemma processJob_store:
  assumes "qs_inv (space q)" "CircuitID job = [] \<or> circuitBreaker job \<noteq> None \<or> CircuitConfig job = None"
    "fst (runJobWithRetries (exec_ctx ob (exec_deadline q job)) job) = (res, err)"
    "op = (case err of None \<Rightarrow> SStore (ID job) (result_value res) (TTL job) | Some _ \<Rightarrow> SStoreError (ID job) (shadow_err ob) (TTL job))"
  shows "\<exists>q'. processJob D J ob job q = Some q' \<and> space_step D J op (space q) = Some (space q')"
proof -
  obtain tr where tr: "runJobWithRetries (exec_ctx ob (exec_deadline q job)) job = ((res, err), tr)"
    using assms(3) by (cases "runJobWithRetries (exec_ctx ob (exec_deadline q job)) job") auto
  obtain s where s: "space_step D J op (space q) = Some s" using space_step_inv [OF assms(1)] by blast
  define q0 where "q0 = record_outcome (since (endedAt ob) (StartTime job)) (err = None) (publish_event (JobStarted (ID job)) q)"
  define f where "f = (case err of None \<Rightarrow> RecordSuccess | Some _ \<Rightarrow> RecordFailure (outcome_now ob))"
  obtain c where "record_breaker f job q0 = Some (q0\<lparr>breakers := c\<rparr>)" using record_breaker_returns [OF assms(2)] by blast
  then show ?thesis
    using s assms(4) by (cases err) (auto simp: processJob_def tr Let_def f_def q0_def)
qed

lemma published_slot:
  assumes "queue_data lc = Some (ring jq, committed jq)" "queue_wf k jq" "enqueueJob eo job lc = Some (None, lc')"
  shows "\<exists>jq' seq. jobQueue lc' = Some jq' \<and> queue_wf k jq' \<and> committed jq' = committed jq @ [seq] \<and>
    (in64 seq \<longrightarrow> slot_kind (Job_Queue.slot_at k seq jq') = disruptorWorkJob \<and> slot_job (Job_Queue.slot_at k seq jq') = job)"
proof -
  obtain jq0 where j0: "jobQueue lc = Some jq0" "ring jq0 = ring jq" "committed jq0 = committed jq"
    using assms(1) by (auto simp: queue_data_def)
  have wf: "queue_wf k jq0" using assms(2) j0(2) by (simp add: queue_wf_def)
  obtain m jq' where p: "publishJob job (rounds eo) (lc_metrics lc, Some jq0) = Some (None, m, jq')" "jobQueue lc' = jq'"
    using assms(3) j0(1) by (auto simp: enqueueJob_def Let_def split: if_split_asm option.splits prod.splits)
  have "\<exists>ob\<in>set (rounds eo). \<not> waits ob"
  proof (rule ccontr)
    assume "\<not> ?thesis"
    then have "\<forall>ob\<in>set (rounds eo). waits ob" by blast
    from publish_loop_waits [OF this, of disruptorWorkJob job 0 "[]" "(lc_metrics lc, jq0)"] p(1)
    show False by (simp add: publishJob_def publish_def)
  qed
  then obtain busy ob later where r: "rounds eo = busy @ ob # later" "\<forall>ob\<in>set busy. waits ob" "\<not> waits ob"
    using split_list_first_prop [of "rounds eo" "\<lambda>ob. \<not> waits ob"] by auto
  from publishJob_spec [OF wf r(2,3), of job later "lc_metrics lc"] p j0 show ?thesis
    by (auto simp: r(1) split: option.splits)
qed

text \<open>A scheduled job delivers. When \<^verbatim>\<open>Schedule\<close> returns a handle that is not already settled, for a job without
  dependencies, the job stands in the queue: one more sequence number is committed, and its slot holds the
  job with the caller's function and options. When a worker runs that job and the function returns a value
  that can be encoded, \<^verbatim>\<open>processJob\<close> returns, the caller's handle yields the artifact of that value,
  and the artifact carries no error and the job's time to live.\<close>

theorem scheduled_job_delivers:
  assumes "qs_inv (space q)" "jobQueue (core q) = Some jq" "queue_wf k jq" "datura_laws D" "codec_laws J"
    "Schedule D J E ob i fn opts q = Some (Some h, q1)" "wait_slot h \<noteq> None"
    "ID (scheduled_job ob i fn opts) = i" "Dependencies (scheduled_job ob i fn opts) = []" "in64 (TTL (scheduled_job ob i fn opts))"
  shows "\<exists>job seq jq1. jobQueue (core q1) = Some jq1 \<and> committed jq1 = committed jq @ [seq] \<and>
    (in64 seq \<longrightarrow> slot_kind (Job_Queue.slot_at k seq jq1) = disruptorWorkJob \<and> slot_job (Job_Queue.slot_at k seq jq1) = job) \<and>
    (\<exists>b. job = (scheduled_job ob i fn opts)\<lparr>circuitBreaker := b\<rparr>) \<and>
    (\<forall>run res a. fst (runJobWithRetries (exec_ctx run (exec_deadline q1 job)) job) = (res, None) \<and>
         newResultArtifact D J i (result_value res) (TTL job) = Inr a \<longrightarrow>
       (\<exists>q2. processJob D J run job q1 = Some q2 \<and> Get c (Registry.slot_at (entries (space q2))) (Some h) = Some (Inr a) \<and>
          ArtifactError D (Some a) = None \<and> artifactTTL D (Some a) = TTL job))"
proof -
  from Schedule_pending [OF assms(6,7)] obtain job w s b lc where
    p: "Await D J i (space q) = (w, s)" "typedResultWait (Some w) = Some h" "space q1 = s"
      "job = (scheduled_job ob i fn opts)\<lparr>circuitBreaker := b\<rparr>"
      "CircuitID job = [] \<or> circuitBreaker job \<noteq> None \<or> CircuitConfig job = None"
      "queue_data lc = queue_data (core q)" "enqueueJob (enq ob) job lc = Some (None, core q1)"
    using assms(9) by fastforce
  have qd: "queue_data lc = Some (ring jq, committed jq)" using p(6) assms(2) by (simp add: queue_data_def)
  obtain jq1 seq where e: "jobQueue (core q1) = Some jq1" "committed jq1 = committed jq @ [seq]"
    "in64 seq \<longrightarrow> slot_kind (Job_Queue.slot_at k seq jq1) = disruptorWorkJob \<and> slot_job (Job_Queue.slot_at k seq jq1) = job"
    using published_slot [OF qd assms(3) p(7)] by blast
  have "space_view (space q) i = None"
    using Await_handle [OF assms(1) p(1)] p(2) assms(7)
    by (cases "space_view (space q) i") (auto simp: typedResultWait_def readyResultWait_def)
  then obtain x where h: "h = pendingResultWait (Some x)" "handle_ok s i x (None, True)"
    using Await_handle [OF assms(1) p(1)] p(2) by (auto simp: typedResultWait_def pendingResultWait_def)
  have inv: "qs_inv (space q1)" using h(2) p(3) by (simp add: handle_ok_def)
  have id: "ID job = i" "TTL job = TTL (scheduled_job ob i fn opts)" using p(4) assms(8) by simp_all
  have "\<exists>q2. processJob D J run job q1 = Some q2 \<and> Get c (Registry.slot_at (entries (space q2))) (Some h) = Some (Inr a) \<and>
          ArtifactError D (Some a) = None \<and> artifactTTL D (Some a) = TTL job"
    if r: "fst (runJobWithRetries (exec_ctx run (exec_deadline q1 job)) job) = (res, None)"
      and a: "newResultArtifact D J i (result_value res) (TTL job) = Inr a" for run res a
  proof -
    obtain q2 where q2: "processJob D J run job q1 = Some q2" "space_step D J (SStore i (result_value res) (TTL job)) (space q1) = Some (space q2)"
      using processJob_store [OF inv p(5) r refl, of D J] id(1) by auto
    have "handle_ok (space q2) i x (Some a, True)"
      using handle_step [OF h(2), of D J "SStore i (result_value res) (TTL job)" "space q2"] q2(2) p(3) a by (simp add: watch_def)
    then have "Get c (Registry.slot_at (entries (space q2))) (Some h) = Some (Inr a)" using Get_handle h(1) by fastforce
    moreover have "ArtifactError D (Some a) = None \<and> artifactTTL D (Some a) = TTL job"
      using result_artifact_reads [OF assms(4,5) a] assms(10) id(2) by simp
    ultimately show ?thesis using q2(1) by blast
  qed
  then show ?thesis using e p(4) by blast
qed

text \<open>A publish that fails leaves the queue alone.\<close>

lemma publish_loop_error:
  "publish_loop kind job spin obs (m, jq) = Some (Some e, m', jq') \<Longrightarrow> m' = m \<and> jq' = jq"
  by (induction obs arbitrary: spin) (auto split: if_split_asm option.splits reserve_result.splits)

lemma enqueueJob_error:
  assumes "enqueueJob ob job lc = Some (Some e, lc')"
  shows "jobQueue lc' = jobQueue lc"
proof -
  have "jq' = jq" if "publishJob job obs (m, jq) = Some (Some e', m', jq')" for obs m jq e' m' jq'
    using that publish_loop_error by (fastforce simp: publishJob_def publish_def split: option.splits)
  then show ?thesis using assms
    by (auto simp: enqueueJob_def Let_def scheduleDoneError_def split: if_split_asm option.splits prod.splits)
qed

text \<open>C27: a refused job leaves no trace. Let no result be stored under the identifier. When the handle that \<^verbatim>\<open>Schedule\<close> returns is settled at once, because a
  regulator or the breaker rejects the job, the pool is closing, or the queue does not take it,
  the handle is that of an error, and the queue, the result space and the dependency goroutines are as before.\<close>

theorem refused_job_leaves_nothing:
  assumes "qs_inv (space q)" "space_view (space q) i = None" "Schedule D J E ob i fn opts q = Some (w, q1)"
  shows "\<exists>h. w = Some h \<and> (wait_slot h \<noteq> None \<or>
    (\<exists>e. h = errorResultWait D J (Some e)) \<and> space q1 = space q \<and> queue_data (core q1) = queue_data (core q) \<and>
    deps q1 = deps q \<and> resolving q1 = resolving q)"
proof -
  let ?j = "scheduled_job ob i fn opts" and ?r = "CollectReading (lc_metrics (core q))"
  obtain q1' where o: "observe_scaler (scale_clk ob) ?r q = Some q1'"
    using assms(3) by (auto simp: Schedule_unfold Let_def split: option.splits)
  obtain limited q2 where r: "ask_regulators (reg_env ob) ?r q1' = (limited, q2)" by (cases "ask_regulators (reg_env ob) ?r q1'")
  have k2: "space q2 = space q" "queue_data (core q2) = queue_data (core q)" "deps q2 = deps q" "resolving q2 = resolving q"
    using observe_scaler_keeps [OF o] ask_regulators_keeps [OF r] by simp_all
  show ?thesis
  proof (cases limited)
    case True
    then show ?thesis using assms(3) o r k2 by (auto simp: Schedule_unfold Let_def)
  next
    case False
    then obtain allowed job q3 where b: "ask_breaker (allow_now ob) ?j q2 = Some (allowed, job, q3)"
      using assms(3) o r by (auto simp: Schedule_unfold Let_def split: option.splits)
    have k3: "space q3 = space q" "queue_data (core q3) = queue_data (core q)" "deps q3 = deps q" "resolving q3 = resolving q"
      using ask_breaker_keeps [OF b] k2 by simp_all
    obtain w' s where a: "Await D J i (space q) = (w', s)" by (cases "Await D J i (space q)")
    obtain x where x: "w' = pendingResultWait (Some x)" using Await_handle [OF assms(1) a] assms(2) by auto
    have "queue_data lc = queue_data (core q)" if "enqueueJob (enq ob) job (core q3) = Some (Some e, lc)" for e lc
      using enqueueJob_error [OF that] k3(2) by (simp add: queue_data_def)
    note qd = this
    have ty: "typedResultWait (Some w') = Some w'" "wait_slot w' \<noteq> None" by (simp_all add: x typedResultWait_def pendingResultWait_def)
    note step = assms(3) [unfolded Schedule_unfold Let_def o option.case r prod.case if_not_P [OF False] b]
    consider "\<not> allowed" | "allowed" "stopping (core q3)" | "allowed" "\<not> stopping (core q3)" "0 < length (Dependencies job)"
      | e lc where "allowed" "\<not> stopping (core q3)" "\<not> 0 < length (Dependencies job)" "enqueueJob (enq ob) job (core q3) = Some (e, lc)"
      using step by (cases "enqueueJob (enq ob) job (core q3)") (auto split: if_split_asm)
    then show ?thesis
    proof cases
      case 3
      then show ?thesis using step k3 a ty by (cases "start_ctx ob") (auto simp: startDependencyWait_def)
    next
      case 4
      then show ?thesis using step k3 a ty qd [of _ lc] by (cases e) auto
    qed (use step k3 in auto)
  qed
qed

section \<open>Failures\<close>

lemma resolveDependentJob_unfold:
  "resolveDependentJob D J r job q =
     (let fin = map_option (\<lambda>q'. q'\<lparr>deps := deps q' - 1\<rparr>)
      in case waitDependencies D J job (dep_order r) (dep_ctx r) (space q) of
           None \<Rightarrow> None
         | Some (Some err, s) \<Rightarrow>
             fin (recordDependencyFailure D J (dep_now r) (dep_failed_now r) job err (q\<lparr>space := s\<rparr>))
         | Some (None, s) \<Rightarrow>
             (case enqueueJob (dep_enq r) job (core q) of
                None \<Rightarrow> None
              | Some (None, lc) \<Rightarrow> fin (Some (q\<lparr>space := s, core := lc\<rparr>))
              | Some (Some err, lc) \<Rightarrow>
                  fin (map_option (\<lambda>s'. q\<lparr>space := s', core := lc\<rparr>) (StoreError D J (ID job) (Some err) (TTL job) s))))"
  by (auto simp: resolveDependentJob_def settleDependentJob_def Let_def split: option.split)

text \<open>A store under an identifier reaches the handle that was taken before it.\<close>

lemma store_settles:
  assumes "qs_inv qs" "Await D J i qs = (h, qs1)" "space_view qs i = None" "put_by D J op = Some (i, a)"
    "space_step D J op qs1 = Some qs2"
  shows "Get c (Registry.slot_at (entries qs2)) (Some h) = Some (Inr a)"
proof -
  obtain x where h: "h = pendingResultWait (Some x)" "handle_ok qs1 i x (None, True)"
    using Await_handle [OF assms(1,2)] assms(3) by auto
  have "handle_ok qs2 i x (Some a, True)" using handle_step [OF h(2) assms(5)] assms(4) by (simp add: watch_def)
  then show ?thesis using Get_handle h(1) by fastforce
qed

text \<open>The error of a failed job is lost. When the attempts of a job end with an error, whatever it is, and the
  artifact library reports no error of its own, the artifact the caller gets carries the generic text
  \<^verbatim>\<open>qpool: job failed\<close>: the name \<^verbatim>\<open>err\<close> passed to \<^verbatim>\<open>StoreError\<close> in \<^verbatim>\<open>processJob\<close> is the one declared for
  the result of \<^verbatim>\<open>NewArtifact_Error\<close>.\<close>

theorem failed_job_error_lost:
  assumes "datura_laws D" "qs_inv (space q)" "space_view (space q) (ID job) = None" "Await D J (ID job) (space q) = (h, s)"
    "CircuitID job = []" "fst (runJobWithRetries (exec_ctx run (exec_deadline (q\<lparr>space := s\<rparr>) job)) job) = (res, Some err)"
    "shadow_err run = None" "newErrorArtifact D J (ID job) None (TTL job) = Inr a" "in64 (TTL job)"
  shows "\<exists>q2. processJob D J run job (q\<lparr>space := s\<rparr>) = Some q2 \<and>
    Get c (Registry.slot_at (entries (space q2))) (Some h) = Some (Inr a) \<and> ArtifactError D (Some a) = Some (AppError ''qpool: job failed'')"
proof -
  have inv: "qs_inv s" using space_step_inv [OF assms(2), of D J "SAwait (ID job)"] assms(4) by simp
  let ?op = "SStoreError (ID job) None (TTL job)"
  obtain q2 where q2: "processJob D J run job (q\<lparr>space := s\<rparr>) = Some q2" "space_step D J ?op s = Some (space q2)"
    using processJob_store [of "q\<lparr>space := s\<rparr>" job run res "Some err" _ D J, OF _ _ assms(6) refl] inv assms(5,7) by auto
  have "Get c (Registry.slot_at (entries (space q2))) (Some h) = Some (Inr a)"
    by (rule store_settles [OF assms(2,4,3) _ q2(2)]) (simp add: assms(8))
  moreover have "ArtifactError D (Some a) = Some (AppError ''qpool: job failed'')"
    using error_artifact_reads [OF assms(1,8,9) refl, of J undefined KOther] by simp
  ultimately show ?thesis using q2(1) by blast
qed


section \<open>New pools\<close>

lemma new_queue_returns:
  assumes "- (2 ^ 61) \<le> cap" "cap \<le> 2 ^ 61" "mw \<le> 2 ^ 61"
  shows "\<exists>jq. newJobDisruptorQueue None cap mw = Some (Inr jq)"
proof -
  define c where "c = max 1 (wrap64 (cap + (if mw < 1 then 1 else mw)))"
  have "wrap64 (cap + (if mw < 1 then 1 else mw)) = cap + (if mw < 1 then 1 else mw)"
    using assms by (intro wrap64_id) (auto simp: in64_def)
  then have c: "1 \<le> c" "c \<le> 2 ^ 62" using assms by (auto simp: c_def)
  then have "sint (word_of_int c :: u64) = c" by (intro sint_word_of_int_in64) (auto simp: in64_def)
  then have "sint (if sint (word_of_int c :: u64) \<le> 1 then 1 else word_of_int c :: u64) \<le> 2 ^ 62" using c by auto
  from next_pow_least [OF this] obtain n where "next_pow (if sint (word_of_int c :: u64) \<le> 1 then 1 else word_of_int c) = Some (2 ^ n)"
    by blast
  then show ?thesis by (auto simp: newJobDisruptorQueue_def NewRingBuffer_def c_def Let_def)
qed

text \<open>What \<^verbatim>\<open>NewQ\<close> builds on a new queue.\<close>

lemma NewQ_parts:
  assumes "newJobDisruptorQueue None (queue_capacity (given_config cfg) (max 1 maxW)) (max 1 maxW) = Some (Inr (jq :: 'v any_value jobDisruptorQueue))" "maxW < 2 ^ 63"
  shows "\<exists>(q :: ('v, 'art) Q) ts. NewQ uuid now None minW maxW cfg = Some q \<and> space q = NewQSpace uuid \<and>
    scaler q = map_option (NewScaler now (min (max 1 minW) (max 1 maxW)) (max 1 maxW)) (ScalerConfig_of (given_config cfg)) \<and>
    breakers q = newCircuitBreakerCache (CircuitBreakerLimit (given_config cfg)) \<and> config q = Some (given_config cfg) \<and>
    deps q = 0 \<and> resolving q = [] \<and> lc_inv (core q) ts \<and> int (length ts) = min (max 1 minW) (max 1 maxW) \<and>
    maxWorkers (core q) = max 1 maxW \<and> minWorkers (core q) = min (max 1 minW) (max 1 maxW) \<and>
    told_active (core q) \<and> duty (core q) = (Some (ring jq, [], False, handlerCount jq), 0, 0, False)"
proof -
  define mx where "mx = max 1 maxW"
  define mn where "mn = min (max 1 minW) mx"
  have b: "1 \<le> mn" "mn \<le> mx" "mx < 2 ^ 63" using assms(2) by (auto simp: mx_def mn_def)
  obtain lc where lc: "new_lifecycle mn mx (Some jq) (TelemetryPublish (given_config cfg)) = Some lc" "lc_inv lc []"
    "maxWorkers lc = mx" "minWorkers lc = mn" using new_lifecycle_inv [of mx mn jq] b by fastforce
  obtain lc' ts where s: "start_loop (nat mn) lc = Some lc'" "lc_inv lc' ts" "int (length ts) = mn" "maxWorkers lc' = mx" "minWorkers lc' = mn" "told_active lc'"
    using start_loop_refines [OF lc(2), of "nat mn"] lc(3,4) b by auto
  have "committed jq = []" "queue_closed jq = False" using assms(1) by (auto simp: newJobDisruptorQueue_def Let_def split: option.splits)
  then have "duty lc = (Some (ring jq, [], False, handlerCount jq), 0, 0, False)"
    using lc(1) by (auto simp: new_lifecycle_def duty_def NewMetrics_def)
  then have "duty lc' = (Some (ring jq, [], False, handlerCount jq), 0, 0, False)" using start_loop_duty [OF s(1)] by simp
  moreover have "\<exists>q :: ('v, 'art) Q. NewQ uuid now None minW maxW cfg = Some q \<and> core q = lc' \<and> space q = NewQSpace uuid \<and>
    scaler q = map_option (NewScaler now mn mx) (ScalerConfig_of (given_config cfg)) \<and> deps q = 0 \<and> resolving q = [] \<and>
    breakers q = newCircuitBreakerCache (CircuitBreakerLimit (given_config cfg)) \<and> config q = Some (given_config cfg)"
    using assms(1) lc(1) s(1) by (simp add: NewQ_def Let_def mx_def mn_def)
  ultimately show ?thesis unfolding mx_def [symmetric] mn_def [symmetric] using s(2-6) by blast
qed

text \<open>A new pool. Whatever bounds are asked for, the pool starts with its minimum of workers, one token and one
  unit of the counter each, and the bounds it reports satisfy \<open>1 \<le> min \<le> max\<close>; its space is empty and its
  queue well formed.\<close>

theorem new_pool_workers:
  assumes "maxW \<le> 2 ^ 61" "- (2 ^ 61) \<le> queue_capacity (given_config cfg) (max 1 maxW)" "queue_capacity (given_config cfg) (max 1 maxW) \<le> 2 ^ 61"
  shows "\<exists>(q :: ('v, 'art) Q) ts k jq'. NewQ uuid now None minW maxW cfg = Some q \<and> lc_inv (core q) ts \<and>
    WorkerBounds (Some q) = (int (length ts), max 1 maxW) \<and> int (length ts) = min (max 1 minW) (max 1 maxW) \<and>
    1 \<le> length ts \<and> int (length ts) \<le> max 1 maxW \<and> workerCount (lc_metrics (core q)) = int (length ts) \<and>
    qs_inv (space q) \<and> space_view (space q) = Map.empty \<and> jobQueue (core q) = Some jq' \<and> queue_wf k jq' \<and> committed jq' = []"
proof -
  obtain jq :: "'v any_value jobDisruptorQueue" where q: "newJobDisruptorQueue None (queue_capacity (given_config cfg) (max 1 maxW)) (max 1 maxW) = Some (Inr jq)"
    using new_queue_returns [of "queue_capacity (given_config cfg) (max 1 maxW)" "max 1 maxW"] assms by auto
  obtain ts and q :: "('v, 'art) Q" where n: "NewQ uuid now None minW maxW cfg = Some q" "space q = NewQSpace uuid"
    "lc_inv (core q) ts" "int (length ts) = min (max 1 minW) (max 1 maxW)" "maxWorkers (core q) = max 1 maxW"
    "minWorkers (core q) = min (max 1 minW) (max 1 maxW)" "duty (core q) = (Some (ring jq, [], False, handlerCount jq), 0, 0, False)"
    using NewQ_parts [OF q, of uuid now minW] assms(1) by auto
  obtain k where k: "queue_wf k jq" using newJobDisruptorQueue_wf [OF q] by blast
  obtain jq' where j: "jobQueue (core q) = Some jq'" "queue_wf k jq'" "committed jq' = []" using n(7) k by (auto simp: duty_def queue_wf_def)
  have w: "workerCount (lc_metrics (core q)) = int (length ts)" "1 \<le> length ts" using n(3,4) by (auto simp: lc_inv_def)
  then show ?thesis using n j w qs_inv_new [of uuid]
    by (intro exI [of _ q] exI [of _ ts] exI [of _ k] exI [of _ jq']) (simp add: WorkerBounds_def)
qed

text \<open>When the disruptor cannot be built \<^verbatim>\<open>NewQ\<close> does not return a pool with its error field set, as the code intends: it goes on, and
  the first \<^verbatim>\<open>startWorker\<close> calls a method on the nil queue, for any bounds and any configuration.\<close>

theorem new_pool_queue_error_panics: "NewQ uuid now (Some e) minW maxW cfg = None"
proof -
  have "start_loop (nat (min (max 1 minW) (max 1 maxW))) lc = None"
    if "new_lifecycle mn (max 1 maxW) None tel = Some l" "lc = l\<lparr>poolCancelled := True\<rparr>" for mn tel and l lc :: "'a any_value lifecycle"
  proof -
    have n: "nat (min (max 1 minW) (max 1 maxW)) = Suc (nat (min (max 1 minW) (max 1 maxW) - 1))" by simp
    have j: "jobQueue lc = None" using that by (auto simp: new_lifecycle_def)
    have "tryIncWorkerIfBelow (maxWorkers lc) (lc_metrics lc) = (True, (lc_metrics lc)\<lparr>workerCount := 1\<rparr>)"
      using that by (auto simp: new_lifecycle_def tryIncWorkerIfBelow_def try_inc_body_def NewMetrics_def)
    then have "startWorker lc = None" using j
      by (auto simp: startWorker_def tell_active_def Let_def split: option.split)
    then show ?thesis unfolding n by simp
  qed
  then show ?thesis
    by (auto simp: NewQ_def newJobDisruptorQueue_def Let_def split: option.split)
qed

section \<open>A sample pool\<close>

definition sample_queue :: "int any_value jobDisruptorQueue" where
  "sample_queue = \<lparr>ring = \<lparr>rb_slots = [zero_slot, zero_slot], rb_mask = 1\<rparr>, queue_closed = False, activeWorkers = 1, handlerCount = 2, committed = []\<rparr>"

definition sample_pool :: "(int, envelope) Q" where
  "sample_pool =
     \<lparr>core = \<lparr>lc_metrics = NewMetrics, lc_registry = (\<lparr>head = None, callbacks = None\<rparr>, empty_worker_heap), nextWorker = 0, minWorkers = 1,
              maxWorkers = 2, jobQueue = Some sample_queue, telemetryOn = True, events = [], stopping = False, poolCancelled = False\<rparr>,
      space = NewQSpace [], scaler = None, breakers = newCircuitBreakerCache 0, config = None, deps = 0, resolving = [], q_err = None\<rparr>"

definition sample_sched :: sched_obs where
  "sample_sched =
     \<lparr>pooledStart = 3, scale_clk = still 0, reg_env = \<lparr>now_ns = 0, mem_Sys = 0, mem_Alloc = 0\<rparr>, allow_now = 0, start_ctx = None,
      enq = \<lparr>pool_before = None, rounds = [round (Reserved 5)], pool_after = None, ctx_after = None, pool_done = None\<rparr>\<rparr>"

definition sample_run :: job_obs where
  "sample_run = \<lparr>exec_ctx = (\<lambda>_. live_ctx), startedAt = 10, endedAt = 20, execEndedAt = 20, outcome_now = 20, shadow_err = None\<rparr>"

definition answer :: "int \<Rightarrow> int any_value fn_outcome" where
  "answer = (\<lambda>_. Returns (Some (VOther 42)) None)"

lemma sample_queue_wf: "queue_wf 1 sample_queue"
  by (simp add: queue_wf_def sample_queue_def mask_eq_exp_minus_1)

lemma sample_job:
  "ID (scheduled_job sample_sched i f []) = i" "Dependencies (scheduled_job sample_sched i f []) = []"
  "TTL (scheduled_job sample_sched i f []) = 0" "CircuitID (scheduled_job sample_sched i f []) = []"
  by (simp_all add: scheduled_job_def pooled_job_def zero_Job_def)

lemma sample_steps:
  "observe_scaler c r sample_pool = Some sample_pool" "ask_regulators e r sample_pool = (False, sample_pool)"
  "CircuitID job = [] \<Longrightarrow> ask_breaker now job sample_pool = Some (True, job, sample_pool)"
  "\<exists>lc. enqueueJob (enq sample_sched) job (core sample_pool) = Some (None, lc)"
  "stopping (core sample_pool) = False" "space sample_pool = NewQSpace []" "jobQueue (core sample_pool) = Some sample_queue"
  by (simp_all add: observe_scaler_def ask_regulators_def ask_breaker_def sample_pool_def enqueueJob_def publishJob_def publish_def
      sample_sched_def round_def Let_def)

lemma sample_schedule:
  "\<exists>h q1. Schedule envelopes number_codec AppError sample_sched ''j'' answer [] sample_pool = Some (Some h, q1) \<and> wait_slot h \<noteq> None"
proof -
  obtain w s where w: "Await envelopes number_codec ''j'' (NewQSpace []) = (w, s)" by (cases "Await envelopes number_codec ''j'' (NewQSpace [])")
  obtain x where "w = pendingResultWait (Some x)" using Await_handle [OF qs_inv_new(1) w] by (auto simp: qs_inv_new(2))
  moreover obtain lc where "enqueueJob (enq sample_sched) (scheduled_job sample_sched ''j'' answer []) (core sample_pool) = Some (None, lc)"
    using sample_steps(4) by blast
  ultimately show ?thesis
    by (simp add: Schedule_unfold Let_def sample_steps sample_job w typedResultWait_def pendingResultWait_def)
qed

theorem scheduled_job_delivers_witness:
  "\<exists>h q1 job q2 a. Schedule envelopes number_codec AppError sample_sched ''j'' answer [] sample_pool = Some (Some h, q1) \<and>
     processJob envelopes number_codec sample_run job q1 = Some q2 \<and>
     newResultArtifact envelopes number_codec ''j'' (VOther 42) 0 = Inr a \<and>
     Get None (Registry.slot_at (entries (space q2))) (Some h) = Some (Inr a)"
proof -
  obtain h q1 where s: "Schedule envelopes number_codec AppError sample_sched ''j'' answer [] sample_pool = Some (Some h, q1)" "wait_slot h \<noteq> None"
    using sample_schedule by blast
  have pool: "qs_inv (space sample_pool)" using qs_inv_new(1) by (simp add: sample_steps)
  have ttl: "in64 (TTL (scheduled_job sample_sched ''j'' answer []))" by (simp add: sample_job in64_def)
  note d = scheduled_job_delivers [OF pool sample_steps(7) sample_queue_wf envelopes_laws number_codec_laws s sample_job(1,2) ttl, of None]
  obtain job b where j: "job = (scheduled_job sample_sched ''j'' answer [])\<lparr>circuitBreaker := b\<rparr>" and
    all: "\<forall>run res a. fst (runJobWithRetries (exec_ctx run (exec_deadline q1 job)) job) = (res, None) \<and>
         newResultArtifact envelopes number_codec ''j'' (result_value res) (TTL job) = Inr a \<longrightarrow>
       (\<exists>q2. processJob envelopes number_codec run job q1 = Some q2 \<and> Get None (Registry.slot_at (entries (space q2))) (Some h) = Some (Inr a) \<and>
          ArtifactError envelopes (Some a) = None \<and> artifactTTL envelopes (Some a) = TTL job)"
    using d by (elim exE conjE) (rule that)
  have r: "fst (runJobWithRetries (exec_ctx sample_run (exec_deadline q1 job)) job) = (Some (VOther 42), None)"
    by (simp add: j runJobWithRetries_def retry_loop.simps max_attempts_def scheduled_job_def pooled_job_def fresh_policy_def sample_run_def
        live_ctx_def invokeFnOnce_def answer_def)
  obtain a where a: "newResultArtifact envelopes number_codec ''j'' (VOther 42) 0 = Inr a"
    by (simp add: newResultArtifact_def envelopes_def encodePayload_def number_codec_def in64_def Let_def)
  have "TTL job = 0" by (simp add: j sample_job)
  then obtain q2 where "processJob envelopes number_codec sample_run job q1 = Some q2"
    "Get None (Registry.slot_at (entries (space q2))) (Some h) = Some (Inr a)"
    using all [rule_format, of sample_run "Some (VOther 42)" a] r a by (auto simp: result_value_def)
  then show ?thesis using s(1) a by blast
qed

theorem new_pool_workers_witness:
  "\<exists>q :: (int, envelope) Q. NewQ [] 0 None 0 3 (Some ((NewConfig 7)\<lparr>JobChannelCapacity := 1\<rparr>)) = Some q \<and>
     WorkerBounds (Some q) = (1, 3) \<and> workerCount (lc_metrics (core q)) = 1"
  using new_pool_workers [of 3 "Some ((NewConfig 7)\<lparr>JobChannelCapacity := 1\<rparr>)" "[]" 0 0]
  by (auto simp: queue_capacity_def given_config_def)

theorem failed_job_error_lost_witness:
  "\<exists>h q1 q2 a. Await envelopes number_codec ''j'' (space sample_pool) = (h, space q1) \<and>
     processJob envelopes number_codec sample_run (scheduled_job sample_sched ''j'' (\<lambda>_. Returns None (Some (AppError ''disk full''))) []) q1 = Some q2 \<and>
     Get None (Registry.slot_at (entries (space q2))) (Some h) = Some (Inr a) \<and> ArtifactError envelopes (Some a) = Some (AppError ''qpool: job failed'')"
proof -
  let ?job = "scheduled_job sample_sched ''j'' (\<lambda>_. Returns None (Some (AppError ''disk full''))) [] :: int any_value Job"
  obtain h s where h: "Await envelopes number_codec ''j'' (space sample_pool) = (h, s)" by (cases "Await envelopes number_codec ''j'' (space sample_pool)")
  have h': "Await envelopes number_codec (ID ?job) (space sample_pool) = (h, s)" using h by (simp add: sample_job)
  have inv: "qs_inv (space sample_pool)" "space_view (space sample_pool) (ID ?job) = None" by (simp_all add: sample_steps qs_inv_new)
  have run: "fst (runJobWithRetries (exec_ctx sample_run (exec_deadline (sample_pool\<lparr>space := s\<rparr>) ?job)) ?job) = (None, Some (AppError ''disk full''))"
    by (simp add: runJobWithRetries_def retry_loop.simps max_attempts_def scheduled_job_def pooled_job_def fresh_policy_def sample_run_def
        live_ctx_def invokeFnOnce_def rejected_def)
  obtain a where a: "newErrorArtifact envelopes number_codec (ID ?job) None (TTL ?job) = Inr a"
    by (simp add: newErrorArtifact_def newResultArtifact_def envelopes_def encodePayload_def Let_def)
  have "shadow_err sample_run = None" "in64 (TTL ?job)" "CircuitID ?job = []" by (simp_all add: sample_run_def sample_job in64_def)
  from failed_job_error_lost [OF envelopes_laws inv h' this(3) run this(1) a this(2), of None]
  obtain q2 where "processJob envelopes number_codec sample_run ?job (sample_pool\<lparr>space := s\<rparr>) = Some q2"
    "Get None (Registry.slot_at (entries (space q2))) (Some h) = Some (Inr a)" "ArtifactError envelopes (Some a) = Some (AppError ''qpool: job failed'')" by blast
  then show ?thesis using h by (intro exI [of _ h] exI [of _ "sample_pool\<lparr>space := s\<rparr>"] exI [of _ q2] exI [of _ a]) simp
qed

definition impatient :: "int any_value Job" where
  "impatient = zero_Job\<lparr>ID := ''j'', Dependencies := [''d''], DependencyRetryPolicy := Some (fresh_policy 0 None)\<rparr>"

definition no_waits :: "int dep_run" where
  "no_waits = \<lparr>dep_order = [(''d'', [])], dep_ctx = None, dep_enq = enq sample_sched, dep_now = 9, dep_failed_now = 9\<rparr>"


theorem refused_job_leaves_nothing_witness:
  "\<exists>h q1. Schedule envelopes number_codec AppError sample_sched ''j'' answer [] (sample_pool\<lparr>core := (core sample_pool)\<lparr>stopping := True\<rparr>\<rparr>) =
     Some (Some h, q1) \<and> wait_slot h = None \<and> space q1 = NewQSpace []"
proof -
  let ?q = "sample_pool\<lparr>core := (core sample_pool)\<lparr>stopping := True\<rparr>\<rparr>"
  have st: "observe_scaler c r ?q = Some ?q" "ask_regulators e r ?q = (False, ?q)" "ask_breaker t (scheduled_job sample_sched ''j'' answer []) ?q =
      Some (True, scheduled_job sample_sched ''j'' answer [], ?q)" "space ?q = NewQSpace []" for c r e t
    by (simp_all add: observe_scaler_def ask_regulators_def ask_breaker_def sample_job) (simp_all add: sample_pool_def)
  obtain h q1 where s: "Schedule envelopes number_codec AppError sample_sched ''j'' answer [] ?q = Some (Some h, q1)" "wait_slot h = None"
    by (simp add: Schedule_unfold Let_def st error_handle_ready)
  have "qs_inv (space ?q)" "space_view (space ?q) ''j'' = None" by (simp_all add: st(4) qs_inv_new)
  from refused_job_leaves_nothing [OF this s(1)] s st(4) show ?thesis by auto
qed

end
