(* ===== verification/Pool_Run.thy ===== *)
theory Pool_Run
  imports Pool
begin

text \<open>
  The pool at work: callers, dependency goroutines, disruptor handlers, the scaler, the maintenance of the
  space and the beginning of \<^verbatim>\<open>Close\<close>, interleaved operation by operation. A handler's turn on a sequence number is
  two steps, around the run of the job, so that any number of jobs can be under way; \<^verbatim>\<open>Schedule\<close> is one step
  up to the point where it takes its handle, and the taking of the handle is a step of its own.

  The state is the pool together with what the disruptor keeps: how many sequence numbers it has handed out
  and how far each handler has come. Its documented behaviour is the predicate \<open>reserve_ok\<close>: \<^verbatim>\<open>TryReserve\<close> hands out
  the numbers one after the other and never one whose slot some handler of the group has still to
  pass, and a handler is called on the committed numbers in order. The fields \<open>job_of\<close>, \<open>owner\<close> and \<open>history\<close> only record:
  the job published under a number, the handler its slot was assigned to, and the operations on the space, with the number of
  the job that an operation is the outcome of.
\<close>

record ('v, 'art) pool_sys =
  sys_pool :: "('v, 'art) Q"
  published :: nat
  cursor :: "nat \<Rightarrow> nat"
  running :: "nat \<Rightarrow> 'v any_value Job option"
  job_of :: "nat \<Rightarrow> 'v any_value Job"
  owner :: "nat \<Rightarrow> int"
  history :: "(nat option \<times> 'v space_op) list"

definition new_sys :: "('v, 'art) Q \<Rightarrow> ('v, 'art) pool_sys" where
  "new_sys q = \<lparr>sys_pool = q, published = 0, cursor = (\<lambda>_. 0), running = (\<lambda>_. None), job_of = (\<lambda>_. zero_Job), owner = (\<lambda>_. - 1),
                history = []\<rparr>"

definition reserve_ok :: "nat \<Rightarrow> nat \<Rightarrow> ('v, 'art) pool_sys \<Rightarrow> enq_obs \<Rightarrow> bool" where
  "reserve_ok k n s eo \<longleftrightarrow>
     (\<forall>ob\<in>set (rounds eo). \<forall>u. obs_reserve ob = Reserved u \<longrightarrow>
        u = int (published s) \<and> (\<forall>i<n. published s < cursor s i + 2 ^ k) \<and> int (published s) + 1 < 2 ^ 63)"

definition enter :: "'v any_value Job \<Rightarrow> ('v, 'art) Q \<Rightarrow> ('v, 'art) pool_sys \<Rightarrow> ('v, 'art) pool_sys" where
  "enter job q s = s\<lparr>sys_pool := q, published := Suc (published s), job_of := (job_of s)(published s := job),
     owner := (owner s)(published s := - 1)\<rparr>"

text \<open>The scaler's goroutine, once per tick.\<close>

definition pool_tick :: "env \<Rightarrow> clk \<Rightarrow> ('v, 'art) Q \<Rightarrow> ('v, 'art) Q option" where
  "pool_tick e c q =
     (case scaler q of
        None \<Rightarrow> None
      | Some sc \<Rightarrow>
          (let regs = (case config q of None \<Rightarrow> [] | Some cf \<Rightarrow> Regulators_of cf)
           in map_option (\<lambda>(regs', sc', lc). q\<lparr>config := map_option (\<lambda>cf. cf\<lparr>Regulators_of := regs'\<rparr>) (config q), scaler := Some sc', core := lc\<rparr>)
                (scaler_tick e c (regs, sc, core q))))"

definition set_work :: "Metrics \<Rightarrow> 'v any_value jobDisruptorQueue \<Rightarrow> ('v, 'art) Q \<Rightarrow> ('v, 'art) Q" where
  "set_work m jq q = q\<lparr>core := (core q)\<lparr>lc_metrics := m, jobQueue := Some jq\<rparr>\<rparr>"

text \<open>The operation on the space with which \<^verbatim>\<open>processJob\<close> ends.\<close>

definition outcome_op :: "job_obs \<Rightarrow> ('v, 'art) Q \<Rightarrow> 'v any_value Job \<Rightarrow> 'v space_op" where
  "outcome_op run q job =
     (case fst (runJobWithRetries (exec_ctx run (exec_deadline q job)) job) of
        (res, None) \<Rightarrow> SStore (ID job) (result_value res) (TTL job)
      | (_, Some _) \<Rightarrow> SStoreError (ID job) (shadow_err run) (TTL job))"

inductive pool_step ::
  "('art, 'err) datura \<Rightarrow> 'v codec \<Rightarrow> (string \<Rightarrow> go_error) \<Rightarrow> nat \<Rightarrow> nat \<Rightarrow> ('v, 'art) pool_sys \<Rightarrow> ('v, 'art) pool_sys \<Rightarrow> bool"
  for D J E k n where
  submit_refused:
    "Schedule_submit D J E ob i fn opts (sys_pool s) = Some (Refused h, q) \<Longrightarrow> pool_step D J E k n s (s\<lparr>sys_pool := q\<rparr>)"
| submit_depending:
    "Schedule_submit D J E ob i fn opts (sys_pool s) = Some (Depending job, q) \<Longrightarrow> pool_step D J E k n s (s\<lparr>sys_pool := q\<rparr>)"
| submit_queued:
    "Schedule_submit D J E ob i fn opts (sys_pool s) = Some (Queued job, q) \<Longrightarrow> reserve_ok k n s (enq ob) \<Longrightarrow>
     pool_step D J E k n s (enter job q s)"
| space_call:
    "space_step D J op (space (sys_pool s)) = Some sp \<Longrightarrow>
     pool_step D J E k n s (s\<lparr>sys_pool := (sys_pool s)\<lparr>space := sp\<rparr>, history := history s @ [(None, op)]\<rparr>)"
| dependency_failed:
    "job \<in> set (resolving (sys_pool s)) \<Longrightarrow> settleDependentJob D J r (Some err) job (sys_pool s) = Some q \<Longrightarrow>
     pool_step D J E k n s (s\<lparr>sys_pool := q\<lparr>resolving := remove1 job (resolving q)\<rparr>,
       history := history s @ [(None, SStoreError (ID job) (Some err) (TTL job))]\<rparr>)"
| dependency_refused:
    "job \<in> set (resolving (sys_pool s)) \<Longrightarrow> enqueueJob (dep_enq r) job (core (sys_pool s)) = Some (Some err, lc) \<Longrightarrow>
     settleDependentJob D J r None job (sys_pool s) = Some q \<Longrightarrow>
     pool_step D J E k n s (s\<lparr>sys_pool := q\<lparr>resolving := remove1 job (resolving q)\<rparr>,
       history := history s @ [(None, SStoreError (ID job) (Some err) (TTL job))]\<rparr>)"
| dependency_queued:
    "job \<in> set (resolving (sys_pool s)) \<Longrightarrow> enqueueJob (dep_enq r) job (core (sys_pool s)) = Some (None, lc) \<Longrightarrow>
     settleDependentJob D J r None job (sys_pool s) = Some q \<Longrightarrow> reserve_ok k n s (dep_enq r) \<Longrightarrow>
     pool_step D J E k n s (enter job (q\<lparr>resolving := remove1 job (resolving q)\<rparr>) s)"
| claim:
    "i < n \<Longrightarrow> running s i = None \<Longrightarrow> cursor s i < published s \<Longrightarrow> jobQueue (core (sys_pool s)) = Some jq \<Longrightarrow>
     claim_seq (int i) (int (cursor s i)) (lc_metrics (core (sys_pool s)), jq) = (r, m, jq') \<Longrightarrow>
     pool_step D J E k n s (s\<lparr>sys_pool := set_work m jq' (sys_pool s), running := (running s)(i := r),
       cursor := (if r = None then (cursor s)(i := Suc (cursor s i)) else cursor s),
       owner := (owner s)(cursor s i := fst (assignedWorker (int (cursor s i)) jq))\<rparr>)"
| finish:
    "i < n \<Longrightarrow> running s i = Some job \<Longrightarrow> processJob D J run job (sys_pool s) = Some q \<Longrightarrow> jobQueue (core q) = Some jq \<Longrightarrow>
     release_seq (int (cursor s i)) (lc_metrics (core q), jq) = (m, jq') \<Longrightarrow>
     pool_step D J E k n s (s\<lparr>sys_pool := set_work m jq' q, running := (running s)(i := None),
       cursor := (cursor s)(i := Suc (cursor s i)),
       history := history s @ [(Some (cursor s i), outcome_op run (sys_pool s) job)]\<rparr>)"
| tick: "pool_tick e c (sys_pool s) = Some q \<Longrightarrow> pool_step D J E k n s (s\<lparr>sys_pool := q\<rparr>)"
| close: "pool_step D J E k n s (s\<lparr>sys_pool := (sys_pool s)\<lparr>core := begin_close (core (sys_pool s))\<rparr>\<rparr>)"

section \<open>What each operation changes\<close>

lemma publish_loop_queued:
  "publish_loop kind job spin obs (m, jq) = Some (None, m', jq') \<Longrightarrow>
   \<exists>ob\<in>set obs. \<exists>u. obs_reserve ob = Reserved u \<and> m' = (if kind = disruptorWorkJob then incJobQueued m else m) \<and>
     jq' = (update_slot u (\<lambda>s. \<lparr>slot_worker = unassignedDisruptorWorker, slot_kind = kind, slot_job = job\<rparr>) jq)\<lparr>committed := committed jq @ [u]\<rparr>"
  by (induction obs arbitrary: spin) (auto simp: Let_def split: if_split_asm option.splits reserve_result.splits)

definition put_slot :: "int \<Rightarrow> 'v Job \<Rightarrow> 'v jobDisruptorQueue \<Rightarrow> 'v jobDisruptorQueue" where
  "put_slot u job jq =
     (update_slot u (\<lambda>s. \<lparr>slot_worker = - 1, slot_kind = disruptorWorkJob, slot_job = job\<rparr>) jq)\<lparr>committed := committed jq @ [u]\<rparr>"

lemma enqueueJob_queued:
  assumes "enqueueJob eo job lc = Some (None, lc')" "jobQueue lc = Some jq"
  shows "\<exists>ob\<in>set (rounds eo). \<exists>u. obs_reserve ob = Reserved u \<and>
    lc' = publishTelemetry (JobScheduled (ID job)) (lc\<lparr>lc_metrics := incJobQueued (lc_metrics lc), jobQueue := Some (put_slot u job jq)\<rparr>)"
proof -
  obtain m jq' where p: "publish_loop disruptorWorkJob job 0 (rounds eo) (lc_metrics lc, jq) = Some (None, m, jq')"
    "lc' = publishTelemetry (JobScheduled (ID job)) (lc\<lparr>lc_metrics := m, jobQueue := Some jq'\<rparr>)"
    using assms by (auto simp: enqueueJob_def publishJob_def publish_def Let_def split: if_split_asm option.splits prod.splits)
  from publish_loop_queued [OF p(1)] p(2) show ?thesis by (auto simp: put_slot_def unassignedDisruptorWorker_def)
qed

lemma enqueueJob_refused:
  assumes "enqueueJob eo job lc = Some (Some e, lc')"
  shows "lc' = lc \<or> lc' = lc\<lparr>lc_metrics := incSchedulingFailure (lc_metrics lc)\<rparr>"
proof -
  have "m = lc_metrics lc \<and> jq' = jobQueue lc" if "publishJob job obs (lc_metrics lc, jobQueue lc) = Some (Some e', m, jq')" for obs e' m jq'
    using that publish_loop_error by (fastforce simp: publishJob_def publish_def split: option.splits)
  note same = this
  show ?thesis using assms(1)
    by (auto simp: enqueueJob_def Let_def scheduleDoneError_def split: if_split_asm option.splits prod.splits dest!: same)
qed

lemma outcome_counts [simp]:
  "jobQueueDepth (RecordJobOutcome l b m) = jobQueueDepth m" "busyWorkers (RecordJobOutcome l b m) = busyWorkers m"
  "workerCount (RecordJobOutcome l b m) = workerCount m"
  by (simp_all add: RecordJobOutcome_def Let_def split: sum.split)

text \<open>The pool around the work: everything but the telemetry, the clock of the last scaling and the counters of outcomes.\<close>

definition same_staff :: "'v lifecycle \<Rightarrow> 'v lifecycle \<Rightarrow> bool" where
  "same_staff lc lc' \<longleftrightarrow> lc_registry lc' = lc_registry lc \<and> workerCount (lc_metrics lc') = workerCount (lc_metrics lc) \<and>
     minWorkers lc' = minWorkers lc \<and> maxWorkers lc' = maxWorkers lc \<and>
     map_option activeWorkers (jobQueue lc') = map_option activeWorkers (jobQueue lc)"

lemma same_staff_inv: "same_staff lc lc' \<Longrightarrow> lc_inv lc' ts = lc_inv lc ts" "same_staff lc lc' \<Longrightarrow> told_active lc' = told_active lc"
  by (cases "jobQueue lc"; cases "jobQueue lc'"; auto simp: same_staff_def lc_inv_def told_active_def)+

lemma same_staff_trans: "same_staff a b \<Longrightarrow> same_staff b c \<Longrightarrow> same_staff a c"
  by (simp add: same_staff_def)

lemma cache_ok_on_breaker: "cache_ok c l \<Longrightarrow> cache_ok (on_breaker f b c) l"
proof -
  have "entry (on_breaker f b c) = entry c" "nodes (on_breaker f b c) = nodes c" by (simp_all add: fun_eq_iff entry_def on_breaker_def)
  then show "cache_ok c l \<Longrightarrow> cache_ok (on_breaker f b c) l" by (simp add: cache_ok_def cache_holds_def linked_def) (simp add: on_breaker_def)
qed

lemma record_breaker_keeps:
  assumes "record_breaker f job q = Some q'" "CircuitID job = [] \<or> circuitBreaker job \<noteq> None \<or> CircuitConfig job = None"
  shows "\<exists>c. q' = q\<lparr>breakers := c\<rparr> \<and> (\<forall>l. cache_ok (breakers q) l \<longrightarrow> cache_ok c l)"
  using assms
  by (auto simp: record_breaker_def breakerForJob_def breakerFor_def getOrCreate_def split: if_split_asm option.splits
      intro: exI [of _ "breakers q"] cache_ok_on_breaker)

lemma set_events_staff [simp]: "same_staff lc (publishTelemetry ev lc)" "same_staff lc lc"
  by (simp_all add: same_staff_def)

text \<open>Running a job changes, beside the space, only counters of outcomes, breakers and telemetry.\<close>

lemma processJob_keeps:
  assumes "processJob D J run job q = Some q'" "CircuitID job = [] \<or> circuitBreaker job \<noteq> None \<or> CircuitConfig job = None"
  shows "duty (core q') = duty (core q) \<and> same_staff (core q) (core q') \<and> jobQueue (core q') = jobQueue (core q) \<and> scaler q' = scaler q \<and> config q' = config q \<and>
    deps q' = deps q \<and> resolving q' = resolving q \<and> (\<forall>l. cache_ok (breakers q) l \<longrightarrow> cache_ok (breakers q') l)"
proof -
  define ok where "ok = (\<lambda>q' :: ('a, 'b) Q. duty (core q') = duty (core q) \<and> same_staff (core q) (core q') \<and> jobQueue (core q') = jobQueue (core q) \<and> scaler q' = scaler q \<and>
    config q' = config q \<and> deps q' = deps q \<and> resolving q' = resolving q \<and> (\<forall>l. cache_ok (breakers q) l \<longrightarrow> cache_ok (breakers q') l))"
  have e: "ok (publish_event ev p)" if "ok p" for ev p
    using that by (simp add: ok_def publish_event_def same_staff_def)
  have o: "ok (record_outcome l b p)" if "ok p" for l b p
    using that by (simp add: ok_def record_outcome_def same_staff_def)
  have r: "ok p'" if "ok p" "record_breaker f job p = Some p'" for f p p'
    using record_breaker_keeps [OF that(2) assms(2)] that(1) by (auto simp: ok_def)
  have "ok q" by (simp add: ok_def)
  obtain res err tr where tr: "runJobWithRetries (exec_ctx run (exec_deadline q job)) job = ((res, err), tr)"
    by (cases "runJobWithRetries (exec_ctx run (exec_deadline q job)) job") auto
  have sp: "ok (p\<lparr>space := s\<rparr>) = ok p" for p s by (simp add: ok_def)
  note chain = e [OF r [OF o [OF e [OF \<open>ok q\<close>]]]]
  have "ok q'" using assms(1)
    by (cases err) (auto simp: processJob_def tr Let_def sp split: option.splits dest: chain)
  then show ?thesis by (simp add: ok_def)
qed

section \<open>The staff of the pool\<close>

definition breaker_known :: "'v Job \<Rightarrow> bool" where
  "breaker_known job \<longleftrightarrow> CircuitID job = [] \<or> circuitBreaker job \<noteq> None \<or> CircuitConfig job = None"

text \<open>Workers within their bounds and known to the queue, a sound breaker cache, and one count in \<open>deps\<close> per waiting goroutine.\<close>

definition staff_ok :: "nat \<Rightarrow> ('v, 'art) Q \<Rightarrow> bool" where
  "staff_ok n q \<longleftrightarrow>
     (\<exists>ts. lc_inv (core q) ts \<and> minWorkers (core q) \<le> int (length ts)) \<and> told_active (core q) \<and>
     1 \<le> minWorkers (core q) \<and> maxWorkers (core q) = int n \<and>
     (\<forall>sc. scaler q = Some sc \<longrightarrow> sc_minWorkers sc = minWorkers (core q) \<and> sc_maxWorkers sc = maxWorkers (core q)) \<and>
     (\<exists>l. cache_ok (breakers q) l) \<and> deps q = int (length (resolving q)) \<and> (\<forall>job\<in>set (resolving q). breaker_known job)"

lemma staff_ok_core: "staff_ok n q \<Longrightarrow> same_staff (core q) lc \<Longrightarrow> staff_ok n (q\<lparr>core := lc\<rparr>)"
  using same_staff_inv [of "core q" lc] by (simp add: staff_ok_def) (simp add: same_staff_def)

lemma staff_ok_fields [simp]:
  "staff_ok n (q\<lparr>space := sp\<rparr>) = staff_ok n q" "staff_ok n (q\<lparr>config := cf\<rparr>) = staff_ok n q"
  by (simp_all add: staff_ok_def)

lemma staff_ok_bounds:
  assumes "staff_ok n q"
  shows "minWorkers (core q) \<le> workerCount (lc_metrics (core q))" "workerCount (lc_metrics (core q)) \<le> maxWorkers (core q)"
    "1 \<le> minWorkers (core q)" "maxWorkers (core q) = int n" "0 < n" "int n < 2 ^ 63"
  using assms by (auto simp: staff_ok_def lc_inv_def)

lemma staff_ok_active:
  assumes "staff_ok n q" "jobQueue (core q) = Some jq"
  shows "1 \<le> activeWorkers jq" "activeWorkers jq \<le> int n"
  using assms staff_ok_bounds [OF assms(1)] by (auto simp: staff_ok_def told_active_def)

lemma SC_Observe_staff:
  assumes "staff_ok n q" "scaler q = Some sc"
  shows "\<exists>sc' lc. SC_Observe c (CollectReading (lc_metrics (core q))) (sc, core q) = Some (sc', lc) \<and>
    staff_ok n (q\<lparr>scaler := Some sc', core := lc\<rparr>) \<and> duty lc = duty (core q)"
proof -
  obtain ts where ts: "lc_inv (core q) ts" "minWorkers (core q) \<le> int (length ts)" using assms(1) by (auto simp: staff_ok_def)
  let ?r = "CollectReading (lc_metrics (core q))"
  have "WorkerCount ?r = int (length ts)" using ts(1) by (simp add: CollectReading_def Let_def lc_inv_def)
  then obtain sc' lc ts' where e: "evaluate c (sc\<lparr>sc_reading := Some ?r\<rparr>, core q) = Some (sc', lc)" "lc_inv lc ts'"
    "sc_minWorkers sc \<le> int (length ts')" "maxWorkers lc = maxWorkers (core q)" "minWorkers lc = minWorkers (core q)"
    "told_active (core q) \<longrightarrow> told_active lc" "sc_minWorkers sc' = sc_minWorkers sc" "sc_maxWorkers sc' = sc_maxWorkers sc"
    using evaluate_refines [OF ts(1), of "sc\<lparr>sc_reading := Some ?r\<rparr>" ?r c] ts(2) assms by (auto simp: staff_ok_def)
  then show ?thesis using assms evaluate_duty [OF e(1)] by (auto simp: SC_Observe_def staff_ok_def)
qed

lemma observe_scaler_staff:
  assumes "staff_ok n q"
  shows "\<exists>q'. observe_scaler c (CollectReading (lc_metrics (core q))) q = Some q' \<and> staff_ok n q' \<and> duty (core q') = duty (core q) \<and>
    space q' = space q \<and> resolving q' = resolving q"
  using SC_Observe_staff [OF assms] assms by (fastforce simp: observe_scaler_def split: option.split)

lemma pool_tick_staff:
  assumes "staff_ok n q" "pool_tick e c q = Some q'"
  shows "staff_ok n q' \<and> duty (core q') = duty (core q) \<and> space q' = space q \<and> resolving q' = resolving q"
proof -
  obtain sc where sc: "scaler q = Some sc" using assms(2) by (auto simp: pool_tick_def split: option.splits)
  then obtain sc' lc where o: "SC_Observe c (CollectReading (lc_metrics (core q))) (sc, core q) = Some (sc', lc)"
    "staff_ok n (q\<lparr>scaler := Some sc', core := lc\<rparr>)" "duty lc = duty (core q)"
    using SC_Observe_staff [OF assms(1)] by blast
  then obtain cf where "q' = q\<lparr>config := cf, scaler := Some sc', core := lc\<rparr>"
    using assms(2) sc by (auto simp: pool_tick_def scaler_tick_def Let_def)
  then show ?thesis using o(2,3) by (simp add: staff_ok_def)
qed

lemma ask_breaker_staff:
  assumes "staff_ok n q"
  shows "\<exists>allowed b c. ask_breaker now job q = Some (allowed, job\<lparr>circuitBreaker := b\<rparr>, q\<lparr>breakers := c\<rparr>) \<and>
    staff_ok n (q\<lparr>breakers := c\<rparr>) \<and> breaker_known (job\<lparr>circuitBreaker := b\<rparr>)"
proof -
  obtain l where l: "cache_ok (breakers q) l" using assms by (auto simp: staff_ok_def)
  have set: "staff_ok n (q\<lparr>breakers := c\<rparr>)" if "cache_ok c l'" for c l' using assms that by (auto simp: staff_ok_def)
  consider "CircuitID job = []" | "CircuitID job \<noteq> []" "CircuitConfig job = None" | cfg where "CircuitID job \<noteq> []" "CircuitConfig job = Some cfg"
    by (cases "CircuitConfig job") auto
  then show ?thesis
  proof cases
    case 3
    obtain b c l' where g: "getOrCreate (CircuitID job) (Some cfg) (breakers q) = Some (Some b, c)" "cache_ok c l'"
      using getOrCreate_refines [OF l 3(1), of cfg] by blast
    obtain allowed cb where a: "Allow now (breaker_at c b) = (allowed, cb)" by force
    have "cache_ok (on_breaker (\<lambda>_. cb) b c) l'" using g(2) by (rule cache_ok_on_breaker)
    then show ?thesis using 3 g(1) a set
      by (intro exI [of _ allowed] exI [of _ "Some b"] exI [of _ "on_breaker (\<lambda>_. cb) b c"]) (auto simp: ask_breaker_def breakerFor_def breaker_known_def)
  qed (intro exI [of _ True] exI [of _ "circuitBreaker job"] exI [of _ "breakers q"];
      simp add: ask_breaker_def breakerFor_def getOrCreate_def breaker_known_def assms)+
qed

lemma inc_counts [simp]:
  "jobQueueDepth (incThrottled m) = jobQueueDepth m" "busyWorkers (incThrottled m) = busyWorkers m" "workerCount (incThrottled m) = workerCount m"
  "jobQueueDepth (incSchedulingFailure m) = jobQueueDepth m" "busyWorkers (incSchedulingFailure m) = busyWorkers m"
  "workerCount (incSchedulingFailure m) = workerCount m" "busyWorkers (incJobQueued m) = busyWorkers m" "workerCount (incJobQueued m) = workerCount m"
  by (simp_all add: incThrottled_def incSchedulingFailure_def incJobQueued_def)

lemma same_staff_metrics: "workerCount m = workerCount (lc_metrics lc) \<Longrightarrow> same_staff lc (lc\<lparr>lc_metrics := m\<rparr>)"
  by (simp add: same_staff_def)

lemma enqueueJob_refused_keeps: "enqueueJob eo job lc = Some (Some e, lc') \<Longrightarrow> same_staff lc lc' \<and> duty lc' = duty lc"
  using enqueueJob_refused [of eo job lc e lc'] by (auto simp: same_staff_metrics)

lemma ask_regulators_config: "\<exists>limited cf. ask_regulators e r q = (limited, q\<lparr>config := cf\<rparr>)"
proof (cases "config q")
  case None
  then show ?thesis by (intro exI [of _ False] exI [of _ None]) (cases q, simp add: ask_regulators_def)
next
  case (Some c)
  then show ?thesis by (cases "admit any_ops e r (Regulators_of c)") (auto simp: ask_regulators_def)
qed

text \<open>What \<^verbatim>\<open>Schedule\<close> does before it takes the handle, as one change of a pool whose workers the scaler may have changed.\<close>

lemma submit_outcome:
  assumes "staff_ok n q" "Schedule_submit D J E ob i fn opts q = Some (r, q')"
  shows "\<exists>p job b. staff_ok n p \<and> duty (core p) = duty (core q) \<and> space p = space q \<and> resolving p = resolving q \<and>
    job = (scheduled_job ob i fn opts)\<lparr>circuitBreaker := b\<rparr> \<and> breaker_known job \<and>
    (case r of
       Refused h \<Rightarrow> (\<exists>lc. q' = p\<lparr>core := lc\<rparr> \<and> same_staff (core p) lc \<and> duty lc = duty (core p))
     | Queued j \<Rightarrow> j = job \<and> (\<exists>lc. enqueueJob (enq ob) job (core p) = Some (None, lc) \<and> q' = p\<lparr>core := lc\<rparr>)
     | Depending j \<Rightarrow> j = job \<and> \<not> stopping (core p) \<and> q' = p\<lparr>deps := deps p + 1, resolving := resolving p @ [job]\<rparr>)"
proof -
  let ?j = "scheduled_job ob i fn opts" and ?r = "CollectReading (lc_metrics (core q))"
  obtain q1 where q1: "observe_scaler (scale_clk ob) ?r q = Some q1" "staff_ok n q1" "duty (core q1) = duty (core q)" "space q1 = space q"
    "resolving q1 = resolving q" using observe_scaler_staff [OF assms(1)] by blast
  obtain limited cf where q2: "ask_regulators (reg_env ob) ?r q1 = (limited, q1\<lparr>config := cf\<rparr>)"
    using ask_regulators_config by blast
  define q2 where "q2 = q1\<lparr>config := cf\<rparr>"
  have s2: "staff_ok n q2" using q1(2) by (simp add: q2_def)
  obtain allowed b c where q3: "ask_breaker (allow_now ob) ?j q2 = Some (allowed, ?j\<lparr>circuitBreaker := b\<rparr>, q2\<lparr>breakers := c\<rparr>)"
    "staff_ok n (q2\<lparr>breakers := c\<rparr>)" "breaker_known (?j\<lparr>circuitBreaker := b\<rparr>)" using ask_breaker_staff [OF s2] by blast
  define q3 where "q3 = q2\<lparr>breakers := c\<rparr>"
  have f: "duty (core q3) = duty (core q)" "space q3 = space q" "resolving q3 = resolving q" "core q3 = core q2" "staff_ok n q3"
    "duty (core q2) = duty (core q)" "space q2 = space q" "resolving q2 = resolving q"
    using q1 q3(2) by (simp_all add: q3_def q2_def)
  note run = assms(2) [unfolded Schedule_submit_def Let_def q1(1) option.case q2 [folded q2_def] prod.case]
  show ?thesis
  proof (cases limited)
    case True
    have "\<exists>lc. q2\<lparr>core := (core q2)\<lparr>lc_metrics := incThrottled (lc_metrics (core q2))\<rparr>\<rparr> = q2\<lparr>core := lc\<rparr> \<and> same_staff (core q2) lc \<and> duty lc = duty (core q2)"
      by (rule exI, rule conjI, rule refl) (simp add: same_staff_metrics)
    then show ?thesis using True run s2 f q3(3)
      by (intro exI [of _ q2] exI [of _ "?j\<lparr>circuitBreaker := b\<rparr>"] exI [of _ b]) auto
  next
    case False
    note run' = run [unfolded if_not_P [OF False] q3(1) [folded q3_def] option.case prod.case]
    have same: "\<exists>lc. q3 = q3\<lparr>core := lc\<rparr> \<and> same_staff (core q3) lc \<and> duty lc = duty (core q3)" by (rule exI [of _ "core q3"]) simp
    let ?job = "?j\<lparr>circuitBreaker := b\<rparr>"
    consider "\<not> allowed" | "allowed" "stopping (core q3)" | "allowed" "\<not> stopping (core q3)" "0 < length (Dependencies ?job)"
      | e lc where "allowed" "\<not> stopping (core q3)" "\<not> 0 < length (Dependencies ?job)" "enqueueJob (enq ob) ?job (core q3) = Some (e, lc)"
      using run' by (cases "enqueueJob (enq ob) ?job (core q3)") (auto split: if_split_asm)
    then have "case r of
       Refused h \<Rightarrow> (\<exists>lc. q' = q3\<lparr>core := lc\<rparr> \<and> same_staff (core q3) lc \<and> duty lc = duty (core q3))
     | Queued j \<Rightarrow> j = ?job \<and> (\<exists>lc. enqueueJob (enq ob) ?job (core q3) = Some (None, lc) \<and> q' = q3\<lparr>core := lc\<rparr>)
     | Depending j \<Rightarrow> j = ?job \<and> \<not> stopping (core q3) \<and> q' = q3\<lparr>deps := deps q3 + 1, resolving := resolving q3 @ [?job]\<rparr>"
    proof cases
      case 3
      then show ?thesis using run' same by (cases "start_ctx ob") (auto simp: startDependencyWait_def)
    next
      case 4
      show ?thesis
      proof (cases e)
        case None
        then show ?thesis using 4 run' by auto
      next
        case (Some a)
        then show ?thesis using 4 run' enqueueJob_refused_keeps [of "enq ob" ?job "core q3" a lc] by auto
      qed
    qed (use run' same in auto)
    then show ?thesis using f q3(3) by (intro exI [of _ q3] exI [of _ ?job] exI [of _ b]) simp
  qed
qed

lemma settle_failed:
  assumes "settleDependentJob D J r (Some err) job q = Some q'" "breaker_known job"
  shows "\<exists>lc s c. q' = q\<lparr>space := s, core := lc, breakers := c, deps := deps q - 1\<rparr> \<and> same_staff (core q) lc \<and> duty lc = duty (core q) \<and>
    (\<forall>l. cache_ok (breakers q) l \<longrightarrow> cache_ok c l) \<and> space_step D J (SStoreError (ID job) (Some err) (TTL job)) (space q) = Some s"
proof -
  let ?q0 = "record_outcome (since (dep_now r) (StartTime job)) False q"
  obtain q1 where q1: "record_breaker (RecordFailure (dep_failed_now r)) job ?q0 = Some q1"
    using assms(1) by (auto simp: settleDependentJob_def recordDependencyFailure_def Let_def split: option.splits)
  obtain c where c: "q1 = ?q0\<lparr>breakers := c\<rparr>" "\<forall>l. cache_ok (breakers q) l \<longrightarrow> cache_ok c l"
    using record_breaker_keeps [OF q1] assms(2) by (auto simp: breaker_known_def record_outcome_def)
  have sp: "space ?q0 = space q" by (simp add: record_outcome_def)
  obtain s where s: "StoreError D J (ID job) (Some err) (TTL job) (space q) = Some s"
    using assms(1) q1 c sp by (auto simp: settleDependentJob_def recordDependencyFailure_def Let_def publish_event_def split: option.splits)
  have core: "same_staff (core q) (core q')" "duty (core q') = duty (core q)" "q' = q\<lparr>space := s, core := core q', breakers := c, deps := deps q - 1\<rparr>"
    using assms(1) q1 c(1) sp s
    by (auto simp: settleDependentJob_def recordDependencyFailure_def Let_def publish_event_def record_outcome_def same_staff_def)
  show ?thesis
    by (rule exI [of _ "core q'"], rule exI [of _ s], rule exI [of _ c]) (use core c(2) s in simp)
qed

section \<open>The work in the pool\<close>

text \<open>A published job is done when the handler its slot was assigned to has passed its number. \<open>jobs_run\<close> lists the
  jobs whose outcome went to the space.\<close>

definition is_done :: "('v, 'art) pool_sys \<Rightarrow> nat \<Rightarrow> bool" where
  "is_done s x \<longleftrightarrow> owner s x \<noteq> - 1 \<and> x < cursor s (nat (owner s x))"

definition jobs_run :: "('v, 'art) pool_sys \<Rightarrow> nat list" where
  "jobs_run s = List.map_filter fst (history s)"

definition busy :: "nat \<Rightarrow> ('v, 'art) pool_sys \<Rightarrow> nat set" where
  "busy n s = {i. i < n \<and> running s i \<noteq> None}"

definition queued :: "nat \<Rightarrow> ('v, 'art) pool_sys \<Rightarrow> nat set" where
  "queued n s = {x. x < published s \<and> \<not> is_done s x \<and> x \<notin> cursor s ` busy n s}"

definition seqs_ok :: "nat \<Rightarrow> nat \<Rightarrow> ('v, 'art) pool_sys \<Rightarrow> bool" where
  "seqs_ok k n s \<longleftrightarrow> int (published s) < 2 ^ 63 \<and>
     (\<forall>i<n. cursor s i \<le> published s \<and> published s \<le> cursor s i + 2 ^ k) \<and>
     (\<forall>x<published s. owner s x = - 1 \<and> (\<forall>i<n. cursor s i \<le> x) \<or> 0 \<le> owner s x \<and> owner s x < int n) \<and>
     (\<forall>i<n. \<forall>job. running s i = Some job \<longrightarrow> cursor s i < published s \<and> owner s (cursor s i) = int i \<and> job = job_of s (cursor s i)) \<and>
     distinct (jobs_run s) \<and> (\<forall>x. x \<in> set (jobs_run s) \<longleftrightarrow> x < published s \<and> is_done s x)"

definition slots_ok :: "nat \<Rightarrow> ('v, 'art) pool_sys \<Rightarrow> 'v any_value jobDisruptorQueue \<Rightarrow> bool" where
  "slots_ok k s jq \<longleftrightarrow>
     (\<forall>x<published s. published s \<le> x + 2 ^ k \<longrightarrow>
        slot_worker (Job_Queue.slot_at k (int x) jq) = owner s x \<and>
        (\<not> is_done s x \<longrightarrow> slot_kind (Job_Queue.slot_at k (int x) jq) = disruptorWorkJob \<and> slot_job (Job_Queue.slot_at k (int x) jq) = job_of s x))"

definition queue_ok :: "nat \<Rightarrow> nat \<Rightarrow> ('v, 'art) pool_sys \<Rightarrow> 'v any_value jobDisruptorQueue \<Rightarrow> bool" where
  "queue_ok k n s jq \<longleftrightarrow> queue_wf k jq \<and> handlerCount jq = int n \<and> committed jq = map int [0..<published s] \<and> slots_ok k s jq"

definition counts_ok :: "nat \<Rightarrow> ('v, 'art) pool_sys \<Rightarrow> Metrics \<Rightarrow> bool" where
  "counts_ok n s m \<longleftrightarrow> busyWorkers m = int (card (busy n s)) \<and>
     jobQueueDepth m = int (published s) - int (length (jobs_run s)) - busyWorkers m"

definition outcomes_ok :: "('v, 'art) pool_sys \<Rightarrow> bool" where
  "outcomes_ok s \<longleftrightarrow> (\<forall>x op. (Some x, op) \<in> set (history s) \<longrightarrow> (\<exists>run q :: ('v, 'art) Q. op = outcome_op run q (job_of s x)))"

lemma slot_residues:
  assumes "x < N" "y < N" "N \<le> x + 2 ^ k" "N \<le> y + 2 ^ k" "int x mod 2 ^ k = int y mod 2 ^ k"
  shows "x = (y :: nat)"
proof -
  have "(2 ^ k :: int) dvd int x - int y" using assms(5) by (simp add: mod_eq_dvd_iff)
  moreover have "\<bar>int x - int y\<bar> < 2 ^ k"
  proof -
    have "x < y + 2 ^ k" "y < x + 2 ^ k" using assms(1-4) by linarith+
    then have "int x < int (y + 2 ^ k)" "int y < int (x + 2 ^ k)" by (simp_all only: of_nat_less_iff)
    then have "int x < int y + 2 ^ k" "int y < int x + 2 ^ k" by simp_all
    then show ?thesis by linarith
  qed
  ultimately show ?thesis using zdvd_not_zless [of "\<bar>int x - int y\<bar>" "2 ^ k"] by (cases "x = y") auto
qed

lemma work_in_window:
  assumes "seqs_ok k n s" "x < published s" "\<not> is_done s x" "0 < n"
  shows "published s \<le> x + 2 ^ k"
proof -
  consider "\<forall>i<n. cursor s i \<le> x" | "0 \<le> owner s x" "owner s x < int n"
    using assms(1,2) by (auto simp: seqs_ok_def)
  then obtain i where "i < n" "cursor s i \<le> x"
  proof cases
    case 1
    then show thesis using assms(4) that by blast
  next
    case 2
    then show thesis using assms(3) that [of "nat (owner s x)"] by (auto simp: is_done_def)
  qed
  then show ?thesis using assms(1) by (fastforce simp: seqs_ok_def)
qed

lemma ran_append [simp]: "List.map_filter fst (h @ [(None, op)]) = List.map_filter fst h" "List.map_filter fst (h @ [(Some x, op)]) = List.map_filter fst h @ [x]"
  by (simp_all add: map_filter_def)

lemma ran_bound: "seqs_ok k n s \<Longrightarrow> length (jobs_run s) \<le> published s"
proof -
  assume a: "seqs_ok k n s"
  then have "set (jobs_run s) \<subseteq> {..<published s}" by (auto simp: seqs_ok_def)
  from card_mono [OF _ this] show ?thesis using a by (simp add: seqs_ok_def distinct_card)
qed

lemma seqs_running:
  assumes "seqs_ok k n s" "i < n" "running s i = Some job"
  shows "cursor s i < published s" "owner s (cursor s i) = int i" "job = job_of s (cursor s i)"
  using assms(1) [unfolded seqs_ok_def, THEN conjunct2, THEN conjunct2, THEN conjunct2, THEN conjunct1] assms(2,3) by blast+

lemma seqs_owner:
  assumes "seqs_ok k n s" "x < published s"
  shows "owner s x = - 1 \<and> (\<forall>i<n. cursor s i \<le> x) \<or> 0 \<le> owner s x \<and> owner s x < int n"
  using assms(1) [unfolded seqs_ok_def, THEN conjunct2, THEN conjunct2, THEN conjunct1] assms(2) by blast

text \<open>The published jobs are those done, those running and those queued.\<close>

lemma work_counts:
  assumes "seqs_ok k n s"
  shows "published s = length (jobs_run s) + card (busy n s) + card (queued n s)"
proof -
  have run: "cursor s i < published s" "owner s (cursor s i) = int i" "\<not> is_done s (cursor s i)" if "i \<in> busy n s" for i
    using that seqs_running [OF assms] by (auto simp: busy_def is_done_def)
  have inj: "inj_on (cursor s) (busy n s)"
  proof (rule inj_onI)
    fix i j assume ij: "i \<in> busy n s" "j \<in> busy n s" "cursor s i = cursor s j"
    have "int i = int j" using run(2) [OF ij(1)] run(2) [OF ij(2)] ij(3) by metis
    then show "i = j" by simp
  qed
  have fin: "finite (busy n s)" by (simp add: busy_def)
  have fin_jobs: "set (jobs_run s) = {x. x < published s \<and> is_done s x}" "distinct (jobs_run s)" using assms by (auto simp: seqs_ok_def)
  have "{..<published s} = set (jobs_run s) \<union> cursor s ` busy n s \<union> queued n s"
    using run unfolding fin_jobs(1) queued_def by blast
  moreover have "set (jobs_run s) \<inter> cursor s ` busy n s = {}" "(set (jobs_run s) \<union> cursor s ` busy n s) \<inter> queued n s = {}"
    using run unfolding fin_jobs(1) queued_def by blast+
  moreover have "finite (queued n s)" by (simp add: queued_def)
  ultimately have "published s = card (set (jobs_run s)) + card (cursor s ` busy n s) + card (queued n s)"
    using fin by (metis List.finite_set card_Un_disjoint card_lessThan finite_UnI finite_imageI)
  then show ?thesis using fin_jobs(2) by (simp add: distinct_card card_image inj)
qed

lemma depth_queued: "seqs_ok k n s \<Longrightarrow> counts_ok n s m \<Longrightarrow> jobQueueDepth m = int (card (queued n s))"
  using work_counts [of k n s] by (simp add: counts_ok_def)

lemma history_ran: "(Some x, op) \<in> set (history s) \<Longrightarrow> x \<in> set (jobs_run s)"
  by (force simp: jobs_run_def map_filter_def)

definition work_ok :: "nat \<Rightarrow> nat \<Rightarrow> ('v, 'art) pool_sys \<Rightarrow> Metrics \<Rightarrow> 'v any_value jobDisruptorQueue \<Rightarrow> bool" where
  "work_ok k n s m jq \<longleftrightarrow> seqs_ok k n s \<and> queue_ok k n s jq \<and> counts_ok n s m \<and> outcomes_ok s"

lemma work_ok_cong:
  fixes s s' :: "('v, 'art) pool_sys"
  assumes "published s' = published s" "cursor s' = cursor s" "running s' = running s" "job_of s' = job_of s" "owner s' = owner s"
    "history s' = history s \<or> (\<exists>op. history s' = history s @ [(None, op)])" "ring jq' = ring jq" "committed jq' = committed jq"
    "handlerCount jq' = handlerCount jq" "jobQueueDepth m' = jobQueueDepth m" "busyWorkers m' = busyWorkers m" "work_ok k n s m jq"
  shows "work_ok k n s' m' jq'"
proof -
  have r: "jobs_run s' = jobs_run s" using assms(6) by (auto simp: jobs_run_def)
  have d: "is_done s' = is_done s" using assms(2,5) by (simp add: is_done_def fun_eq_iff)
  have b: "busy n s' = busy n s" using assms(3) by (simp add: busy_def)
  have "seqs_ok k n s'" using assms(12) unfolding work_ok_def seqs_ok_def r d assms(1-5) by blast
  moreover have "Job_Queue.slot_at k x jq' = Job_Queue.slot_at k x jq" for x using assms(7) by (simp add: slot_at_def)
  then have "queue_ok k n s' jq'"
    using assms(12) by (simp add: work_ok_def queue_ok_def slots_ok_def queue_wf_def d assms(1,2,4,5,7-9))
  moreover have "counts_ok n s' m'" using assms(12) by (simp add: work_ok_def counts_ok_def r b assms(1,10,11))
  moreover have "(Some x, op) \<in> set (history s') \<Longrightarrow> (Some x, op) \<in> set (history s)" for x op using assms(6) by auto
  then have "outcomes_ok s'" using assms(12) unfolding work_ok_def outcomes_ok_def assms(4) by blast
  ultimately show ?thesis by (simp add: work_ok_def)
qed

lemma enter_fields:
  "published (enter job q s) = Suc (published s)" "cursor (enter job q s) = cursor s" "running (enter job q s) = running s"
  "history (enter job q s) = history s" "job_of (enter job q s) = (job_of s)(published s := job)"
  "owner (enter job q s) = (owner s)(published s := - 1)" "jobs_run (enter job q s) = jobs_run s" "busy n (enter job q s) = busy n s"
  "is_done (enter job q s) x \<longleftrightarrow> x \<noteq> published s \<and> is_done s x"
  by (simp_all add: enter_def jobs_run_def busy_def is_done_def)

lemma enter_seqs:
  assumes "seqs_ok k n s" "\<forall>i<n. published s < cursor s i + 2 ^ k" "int (published s) + 1 < 2 ^ 63"
  shows "seqs_ok k n (enter job q s)"
proof -
  let ?N = "published s"
  have cur: "\<forall>i<n. cursor s i \<le> ?N" "\<forall>x. x \<in> set (jobs_run s) \<longleftrightarrow> x < ?N \<and> is_done s x" using assms(1) by (simp_all add: seqs_ok_def)
  show ?thesis unfolding seqs_ok_def enter_fields
  proof (intro conjI allI impI)
    show "int (Suc ?N) < 2 ^ 63" using assms(3) by simp
    show "cursor s i \<le> Suc ?N" "Suc ?N \<le> cursor s i + 2 ^ k" if "i < n" for i using cur(1) assms(2) that by (simp_all add: le_SucI Suc_leI)
    show "((owner s)(?N := - 1)) x = - 1 \<and> (\<forall>i<n. cursor s i \<le> x) \<or> 0 \<le> ((owner s)(?N := - 1)) x \<and> ((owner s)(?N := - 1)) x < int n"
      if "x < Suc ?N" for x
    proof (cases "x = ?N")
      case False
      then show ?thesis using seqs_owner [OF assms(1), of x] that by simp
    qed (simp add: cur(1))
    show "distinct (jobs_run s)" using assms(1) by (simp add: seqs_ok_def)
    show "x \<in> set (jobs_run s) \<longleftrightarrow> x < Suc ?N \<and> x \<noteq> ?N \<and> is_done s x" for x using cur(2) [rule_format, of x] by auto
  next
    fix i job' assume "i < n" "running s i = Some job'"
    from seqs_running [OF assms(1) this]
    show "cursor s i < Suc ?N" "((owner s)(?N := - 1)) (cursor s i) = int i" "job' = ((job_of s)(?N := job)) (cursor s i)" by simp_all
  qed
qed

lemma enter_queue:
  assumes "seqs_ok k n s" "queue_ok k n s jq"
  shows "queue_ok k n (enter job q s) (put_slot (int (published s)) job jq)"
proof -
  let ?N = "published s" and ?s = "enter job q s" and ?jq = "put_slot (int (published s)) job jq"
  have wf: "queue_wf k jq" "in64 (int ?N)" using assms by (simp_all add: queue_ok_def seqs_ok_def in64_def)
  have sl: "Job_Queue.slot_at k (int x) ?jq = (if int x mod 2 ^ k = int ?N mod 2 ^ k
      then \<lparr>slot_worker = - 1, slot_kind = disruptorWorkJob, slot_job = job\<rparr> else Job_Queue.slot_at k (int x) jq)" for x
    using slot_at_update [OF wf, of "int x"] by (simp add: put_slot_def slot_at_def)
  have "slots_ok k ?s ?jq" unfolding slots_ok_def enter_fields
  proof (intro allI impI)
    fix x assume x: "x < Suc ?N" "Suc ?N \<le> x + 2 ^ k"
    show "slot_worker (Job_Queue.slot_at k (int x) ?jq) = ((owner s)(?N := - 1)) x \<and>
      (\<not> (x \<noteq> ?N \<and> is_done s x) \<longrightarrow> slot_kind (Job_Queue.slot_at k (int x) ?jq) = disruptorWorkJob \<and>
         slot_job (Job_Queue.slot_at k (int x) ?jq) = ((job_of s)(?N := job)) x)"
    proof (cases "x = ?N")
      case False
      then have "int x mod 2 ^ k \<noteq> int ?N mod 2 ^ k" using slot_residues [of x "Suc ?N" ?N k] x by auto
      then show ?thesis using False x assms(2) by (simp add: sl queue_ok_def slots_ok_def)
    qed (simp add: sl)
  qed
  then show ?thesis using assms(2) update_slot_wf [OF wf(1)]
    by (simp add: queue_ok_def enter_fields put_slot_def queue_wf_def update_slot_def split: option.splits)
qed

lemma enter_ok:
  assumes "work_ok k n s m jq" "\<forall>i<n. published s < cursor s i + 2 ^ k" "int (published s) + 1 < 2 ^ 63"
  shows "work_ok k n (enter job q s) (incJobQueued m) (put_slot (int (published s)) job jq)"
proof -
  have old: "seqs_ok k n s" "queue_ok k n s jq" "counts_ok n s m" "outcomes_ok s" using assms(1) by (simp_all add: work_ok_def)
  have "wrap64 (jobQueueDepth m + 1) = jobQueueDepth m + 1"
    using depth_queued [OF old(1,3)] work_counts [OF old(1)] assms(3) by (simp add: in64_def)
  then have "counts_ok n (enter job q s) (incJobQueued m)" using old(3) by (simp add: counts_ok_def enter_fields incJobQueued_def)
  moreover have "x \<noteq> published s" if "(Some x, op) \<in> set (history s)" for x op
    using history_ran [OF that] old(1) by (simp add: seqs_ok_def)
  then have "outcomes_ok (enter job q s)" using old(4) unfolding outcomes_ok_def enter_fields by (metis fun_upd_other)
  ultimately show ?thesis using enter_seqs [OF old(1) assms(2,3)] enter_queue [OF old(1,2)] by (simp add: work_ok_def)
qed

lemma assigned_value:
  assumes "queue_wf k jq" "in64 (int x)" "1 \<le> activeWorkers jq"
    "w = (if slot_worker (Job_Queue.slot_at k (int x) jq) = - 1 then int x mod activeWorkers jq else slot_worker (Job_Queue.slot_at k (int x) jq))"
  shows "assignedWorker (int x) jq = (w, update_slot (int x) (\<lambda>sl. sl\<lparr>slot_worker := w\<rparr>) jq)"
proof -
  have "rem64 (int x) (max (activeWorkers jq) 1) = int x mod activeWorkers jq" using assms(2,3) by (simp add: rem64_nonneg max_def)
  then show ?thesis
    using assms by (auto simp: assignedWorker_def slot_of_wf assign_body_def unassignedDisruptorWorker_def Let_def)
qed

text \<open>The sequence bookkeeping when handler \<open>i\<close> has looked at the number its cursor stands on, which belongs to handler \<open>w\<close>.\<close>

definition looked :: "nat \<Rightarrow> int \<Rightarrow> ('v, 'art) Q \<Rightarrow> ('v, 'art) pool_sys \<Rightarrow> ('v, 'art) pool_sys" where
  "looked i w q s = s\<lparr>sys_pool := q, running := (running s)(i := if w = int i then Some (job_of s (cursor s i)) else None),
     cursor := (if w = int i then cursor s else (cursor s)(i := Suc (cursor s i))), owner := (owner s)(cursor s i := w)\<rparr>"

lemma looked_fields:
  "published (looked i w q s) = published s" "job_of (looked i w q s) = job_of s" "history (looked i w q s) = history s"
  "owner (looked i w q s) = (owner s)(cursor s i := w)" "jobs_run (looked i w q s) = jobs_run s"
  by (simp_all add: looked_def jobs_run_def)

lemma looked_done:
  assumes "seqs_ok k n s" "i < n" "cursor s i < published s" "0 \<le> w" "w < int n" "owner s (cursor s i) \<in> {- 1, w}" "x < published s"
  shows "is_done (looked i w q s) x \<longleftrightarrow> is_done s x"
proof (cases "x = cursor s i")
  case True
  have "\<forall>j<n. cursor s j \<le> x" if "owner s x = - 1" using seqs_owner [OF assms(1,7)] that by simp
  moreover have "nat w < n" using assms(4,5) by linarith
  ultimately have "owner s x = - 1 \<Longrightarrow> \<not> x < cursor s (nat w)" by (simp add: not_less)
  then show ?thesis using True assms(4,6) by (auto simp: is_done_def looked_def)
next
  case False
  then show ?thesis by (auto simp: is_done_def looked_def)
qed

lemma looked_seqs:
  assumes "seqs_ok k n s" "i < n" "running s i = None" "cursor s i < published s" "0 \<le> w" "w < int n" "owner s (cursor s i) \<in> {- 1, w}"
  shows "seqs_ok k n (looked i w q s)"
proof -
  note f = looked_fields [of i w q s]
  have d: "is_done (looked i w q s) x \<longleftrightarrow> is_done s x" if "x < published s" for x by (rule looked_done) (use assms that in auto)
  have cur: "cursor s j \<le> published s" "published s \<le> cursor s j + 2 ^ k" if "j < n" for j using assms(1) that by (simp_all add: seqs_ok_def)
  have old: "int (published s) < 2 ^ 63" "distinct (jobs_run s)" "\<And>x. x \<in> set (jobs_run s) \<longleftrightarrow> x < published s \<and> is_done s x" using assms(1) by (simp_all add: seqs_ok_def)
  show ?thesis unfolding seqs_ok_def f
  proof (intro conjI allI impI)
    show "int (published s) < 2 ^ 63" "distinct (jobs_run s)" using old by simp_all
    show "x \<in> set (jobs_run s) \<longleftrightarrow> x < published s \<and> is_done (looked i w q s) x" for x using old(3) [of x] d by blast
    show "cursor (looked i w q s) j \<le> published s" "published s \<le> cursor (looked i w q s) j + 2 ^ k" if "j < n" for j
      using cur [OF that] assms(4) by (auto simp: looked_def Suc_leI le_SucI)
    show "((owner s)(cursor s i := w)) x = - 1 \<and> (\<forall>j<n. cursor (looked i w q s) j \<le> x) \<or>
        0 \<le> ((owner s)(cursor s i := w)) x \<and> ((owner s)(cursor s i := w)) x < int n" if "x < published s" for x
    proof (cases "x = cursor s i")
      case False
      have "Suc (cursor s i) \<le> x" if "\<forall>j<n. cursor s j \<le> x" using that assms(2) False by (metis Suc_leI nat_less_le)
      then show ?thesis using seqs_owner [OF assms(1) that] False by (auto simp: looked_def)
    qed (use assms(5,6) in simp)
  next
    fix j job assume j: "j < n" "running (looked i w q s) j = Some job"
    show "cursor (looked i w q s) j < published s" "((owner s)(cursor s i := w)) (cursor (looked i w q s) j) = int j"
      "job = job_of s (cursor (looked i w q s) j)"
      using j seqs_running [OF assms(1) j(1)] seqs_running(2) [OF assms(1) j(1)] assms(4,7)
      by (cases "j = i"; auto simp: looked_def split: if_split_asm)+
  qed
qed

lemma busy_card: "card (busy n s) \<le> n" "finite (busy n s)"
proof -
  show "finite (busy n s)" by (simp add: busy_def)
  have "busy n s \<subseteq> {..<n}" by (auto simp: busy_def)
  from card_mono [OF _ this] show "card (busy n s) \<le> n" by simp
qed

lemma queue_ok_slot:
  assumes "work_ok k n s m jq" "i < n" "cursor s i < published s"
  shows "in64 (int (cursor s i))" "queue_wf k jq" "slot_worker (Job_Queue.slot_at k (int (cursor s i)) jq) = owner s (cursor s i)"
    "\<not> is_done s (cursor s i) \<Longrightarrow> slot_kind (Job_Queue.slot_at k (int (cursor s i)) jq) = disruptorWorkJob"
    "\<not> is_done s (cursor s i) \<Longrightarrow> slot_job (Job_Queue.slot_at k (int (cursor s i)) jq) = job_of s (cursor s i)"
proof -
  have "published s \<le> cursor s i + 2 ^ k" "int (published s) < 2 ^ 63" using assms(1,2) by (simp_all add: work_ok_def seqs_ok_def)
  then show "in64 (int (cursor s i))" "queue_wf k jq" "slot_worker (Job_Queue.slot_at k (int (cursor s i)) jq) = owner s (cursor s i)"
    "\<not> is_done s (cursor s i) \<Longrightarrow> slot_kind (Job_Queue.slot_at k (int (cursor s i)) jq) = disruptorWorkJob"
    "\<not> is_done s (cursor s i) \<Longrightarrow> slot_job (Job_Queue.slot_at k (int (cursor s i)) jq) = job_of s (cursor s i)"
    using assms by (auto simp: work_ok_def queue_ok_def slots_ok_def in64_def)
qed

text \<open>Changing the slot of a number in the window leaves the slots of the other numbers in the window alone.\<close>

lemma window_update:
  assumes "queue_wf k jq" "in64 (int x)" "x < N" "y < N" "N \<le> x + 2 ^ k" "N \<le> y + 2 ^ k"
  shows "Job_Queue.slot_at k (int y) (update_slot (int x) f jq) =
    (if y = x then f (Job_Queue.slot_at k (int x) jq) else Job_Queue.slot_at k (int y) jq)"
  using slot_at_update [OF assms(1,2), of "int y" f] slot_residues [OF assms(4,3,6,5)] by auto

lemma update_slot_fields [simp]:
  "handlerCount (update_slot u f jq) = handlerCount jq" "queue_closed (update_slot u f jq) = queue_closed jq"
  by (simp_all add: update_slot_def split: option.split)

lemma looked_queue:
  assumes "work_ok k n s m jq" "i < n" "running s i = None" "cursor s i < published s" "0 \<le> w" "w < int n" "owner s (cursor s i) \<in> {- 1, w}"
  shows "queue_ok k n (looked i w q s) (update_slot (int (cursor s i)) (\<lambda>sl. sl\<lparr>slot_worker := w\<rparr>) jq)"
proof -
  let ?x = "cursor s i"
  have old: "seqs_ok k n s" "queue_ok k n s jq" using assms(1) by (simp_all add: work_ok_def)
  define jq1 where "jq1 = update_slot (int ?x) (\<lambda>sl. sl\<lparr>slot_worker := w\<rparr>) jq"
  note sl = queue_ok_slot [OF assms(1,2,4)]
  have done': "is_done (looked i w q s) y \<longleftrightarrow> is_done s y" if "y < published s" for y by (rule looked_done) (use old(1) assms that in auto)
  have win: "published s \<le> ?x + 2 ^ k" using old(1) assms(2) by (simp add: seqs_ok_def)
  have "slots_ok k (looked i w q s) jq1" unfolding slots_ok_def looked_fields
  proof (intro allI impI)
    fix y assume y: "y < published s" "published s \<le> y + 2 ^ k"
    show "slot_worker (Job_Queue.slot_at k (int y) jq1) = ((owner s)(?x := w)) y \<and>
      (\<not> is_done (looked i w q s) y \<longrightarrow> slot_kind (Job_Queue.slot_at k (int y) jq1) = disruptorWorkJob \<and> slot_job (Job_Queue.slot_at k (int y) jq1) = job_of s y)"
      using old(2) y window_update [OF sl(2,1) assms(4) y(1) win y(2)] by (auto simp: jq1_def queue_ok_def slots_ok_def done')
  qed
  then show ?thesis using old(2) update_slot_wf by (auto simp: queue_ok_def looked_fields jq1_def)
qed

lemma claim_ok:
  assumes "work_ok k n s m jq" "i < n" "running s i = None" "cursor s i < published s" "1 \<le> activeWorkers jq" "activeWorkers jq \<le> int n"
    "int n < 2 ^ 63" "claim_seq (int i) (int (cursor s i)) (m, jq) = (r, m', jq')"
  shows "\<exists>w. fst (assignedWorker (int (cursor s i)) jq) = w \<and> r = (if w = int i then Some (job_of s (cursor s i)) else None) \<and>
    work_ok k n (looked i w q s) m' jq' \<and> activeWorkers jq' = activeWorkers jq \<and> workerCount m' = workerCount m"
proof -
  let ?x = "cursor s i"
  have old: "seqs_ok k n s" "queue_ok k n s jq" "counts_ok n s m" "outcomes_ok s" using assms(1) by (simp_all add: work_ok_def)
  note sl = queue_ok_slot [OF assms(1,2,4)]
  define w where "w = (if owner s ?x = - 1 then int ?x mod activeWorkers jq else owner s ?x)"
  define jq1 where "jq1 = update_slot (int ?x) (\<lambda>sl. sl\<lparr>slot_worker := w\<rparr>) jq"
  have aw: "assignedWorker (int ?x) jq = (w, jq1)" unfolding jq1_def by (rule assigned_value [OF sl(2,1) assms(5)]) (simp add: w_def sl(3))
  have "0 \<le> int ?x mod activeWorkers jq" "int ?x mod activeWorkers jq < activeWorkers jq" using assms(5) by simp_all
  then have "0 \<le> int ?x mod activeWorkers jq" "int ?x mod activeWorkers jq < int n" using assms(6) by linarith+
  then have w: "0 \<le> w" "w < int n" "owner s ?x \<in> {- 1, w}" using seqs_owner [OF old(1) assms(4)] by (auto simp: w_def)
  have seqs: "seqs_ok k n (looked i w q s)" by (rule looked_seqs) (use old(1) assms w in auto)
  have queue: "queue_ok k n (looked i w q s) jq1" unfolding jq1_def by (rule looked_queue) (use assms w in auto)
  have out: "outcomes_ok (looked i w q s)" using old(4) by (simp add: outcomes_ok_def looked_fields)
  have act: "activeWorkers jq1 = activeWorkers jq" by (simp add: jq1_def)
  show ?thesis
  proof (cases "w = int i")
    case False
    then have "r = None" "m' = m" "jq' = jq1" using assms(8) aw by (simp_all add: claim_seq_def)
    moreover have "busy n (looked i w q s) = busy n s" using False assms(3) by (auto simp: busy_def looked_def)
    then have "counts_ok n (looked i w q s) m" using old(3) by (simp add: counts_ok_def looked_fields)
    ultimately show ?thesis using aw False seqs queue out act by (auto simp: work_ok_def)
  next
    case True
    have nd: "\<not> is_done s ?x" using w(3) True by (auto simp: is_done_def)
    have "slot_of (int ?x) jq1 = Some ((Job_Queue.slot_at k (int ?x) jq)\<lparr>slot_worker := w\<rparr>)"
      using slot_of_wf [OF update_slot_wf [OF sl(2)] sl(1)] slot_at_update [OF sl(2,1), of "int ?x"] by (simp add: jq1_def)
    then have r: "r = Some (job_of s ?x)" "m' = incBusyWorker (decJobQueued m)" "jq' = jq1"
      using assms(8) aw True sl(4,5) [OF nd] by (simp_all add: claim_seq_def)
    have b: "busy n (looked i w q s) = insert i (busy n s)" "i \<notin> busy n s" using True assms(2,3) by (auto simp: busy_def looked_def)
    have "wrap64 (busyWorkers m + 1) = busyWorkers m + 1" "wrap64 (jobQueueDepth m - 1) = jobQueueDepth m - 1"
    proof -
      have "card (insert i (busy n s)) \<le> n" using busy_card(1) [of n "looked i w q s"] b(1) by simp
      then show "wrap64 (busyWorkers m + 1) = busyWorkers m + 1" using old(3) assms(7) b(2) busy_card(2) [of n s] by (simp add: counts_ok_def in64_def)
      show "wrap64 (jobQueueDepth m - 1) = jobQueueDepth m - 1"
        using depth_queued [OF old(1,3)] work_counts [OF old(1)] old(1) by (simp add: in64_def seqs_ok_def)
    qed
    then have "counts_ok n (looked i w q s) m'"
      using old(3) b busy_card(2) [of n s] by (simp add: counts_ok_def r(2) incBusyWorker_def decJobQueued_def looked_fields)
    moreover have "workerCount m' = workerCount m" by (simp add: r(2) incBusyWorker_def decJobQueued_def)
    ultimately show ?thesis using aw True r seqs queue out act by (auto simp: work_ok_def)
  qed
qed

text \<open>The bookkeeping when handler \<open>i\<close> has run its job.\<close>

definition finished :: "nat \<Rightarrow> 'v space_op \<Rightarrow> ('v, 'art) Q \<Rightarrow> ('v, 'art) pool_sys \<Rightarrow> ('v, 'art) pool_sys" where
  "finished i op q s = s\<lparr>sys_pool := q, running := (running s)(i := None), cursor := (cursor s)(i := Suc (cursor s i)),
     history := history s @ [(Some (cursor s i), op)]\<rparr>"

lemma finished_fields:
  "published (finished i op q s) = published s" "job_of (finished i op q s) = job_of s" "owner (finished i op q s) = owner s"
  "history (finished i op q s) = history s @ [(Some (cursor s i), op)]" "jobs_run (finished i op q s) = jobs_run s @ [cursor s i]"
  by (simp_all add: finished_def jobs_run_def)

lemma finished_done:
  assumes "seqs_ok k n s" "i < n" "running s i = Some job"
  shows "is_done (finished i op q s) x \<longleftrightarrow> is_done s x \<or> x = cursor s i" "\<not> is_done s (cursor s i)"
  using seqs_running(2) [OF assms] by (auto simp: is_done_def finished_def)

lemma finished_seqs:
  assumes "seqs_ok k n s" "i < n" "running s i = Some job"
  shows "seqs_ok k n (finished i op q s)"
proof -
  note f = finished_fields [of i op q s] and d = finished_done(1) [OF assms, where op = op and q = q] finished_done(2) [OF assms] and run = seqs_running [OF assms]
  have cur: "cursor s j \<le> published s" "published s \<le> cursor s j + 2 ^ k" if "j < n" for j using assms(1) that by (simp_all add: seqs_ok_def)
  have old: "int (published s) < 2 ^ 63" "distinct (jobs_run s)" "\<And>x. x \<in> set (jobs_run s) \<longleftrightarrow> x < published s \<and> is_done s x" using assms(1) by (simp_all add: seqs_ok_def)
  show ?thesis unfolding seqs_ok_def f
  proof (intro conjI allI impI)
    show "int (published s) < 2 ^ 63" using old(1) .
    show "distinct (jobs_run s @ [cursor s i])" using old(2,3) d(2) by simp
    show "x \<in> set (jobs_run s @ [cursor s i]) \<longleftrightarrow> x < published s \<and> is_done (finished i op q s) x" for x using old(3) [of x] d(1) [of x] run(1) by auto
    show "cursor (finished i op q s) j \<le> published s" "published s \<le> cursor (finished i op q s) j + 2 ^ k" if "j < n" for j
      using cur [OF that] run(1) by (auto simp: finished_def Suc_leI le_SucI)
    show "owner s x = - 1 \<and> (\<forall>j<n. cursor (finished i op q s) j \<le> x) \<or> 0 \<le> owner s x \<and> owner s x < int n" if "x < published s" for x
    proof (cases "x = cursor s i")
      case True
      then show ?thesis using run(2) assms(2) by simp
    next
      case False
      have "Suc (cursor s i) \<le> x" if "\<forall>j<n. cursor s j \<le> x" using that assms(2) False by (metis Suc_leI nat_less_le)
      then show ?thesis using seqs_owner [OF assms(1) that] by (auto simp: finished_def)
    qed
  next
    fix j job' assume j: "j < n" "running (finished i op q s) j = Some job'"
    then have "j \<noteq> i" "running s j = Some job'" by (auto simp: finished_def split: if_split_asm)
    with seqs_running [OF assms(1) j(1)] show "cursor (finished i op q s) j < published s" "owner s (cursor (finished i op q s) j) = int j"
      "job' = job_of s (cursor (finished i op q s) j)" by (simp_all add: finished_def)
  qed
qed

lemma finish_ok:
  fixes s :: "('v, 'art) pool_sys" and q0 :: "('v, 'art) Q"
  assumes "work_ok k n s m jq" "i < n" "running s i = Some job" "release_seq (int (cursor s i)) (m, jq) = (m', jq')" "int n < 2 ^ 63"
    "op = outcome_op run q0 job"
  shows "work_ok k n (finished i op q s) m' jq' \<and> activeWorkers jq' = activeWorkers jq \<and> workerCount m' = workerCount m"
proof -
  let ?x = "cursor s i" and ?s = "finished i op q s"
  have old: "seqs_ok k n s" "queue_ok k n s jq" "counts_ok n s m" "outcomes_ok s" using assms(1) by (simp_all add: work_ok_def)
  note run = seqs_running [OF old(1) assms(2,3)] and d = finished_done(1) [OF old(1) assms(2,3), where op = op and q = q] finished_done(2) [OF old(1) assms(2,3)]
  note sl = queue_ok_slot [OF assms(1,2) run(1)]
  have e: "m' = decBusyWorker m" "jq' = update_slot (int ?x) (\<lambda>s. s\<lparr>slot_kind := disruptorWorkNone, slot_job := zero_Job\<rparr>) jq"
    using assms(4) by (simp_all add: release_seq_def clear_slot_def)
  have win: "published s \<le> ?x + 2 ^ k" using old(1) assms(2) by (simp add: seqs_ok_def)
  have "slots_ok k ?s jq'" unfolding slots_ok_def finished_fields d(1)
  proof (intro allI impI)
    fix y assume y: "y < published s" "published s \<le> y + 2 ^ k"
    show "slot_worker (Job_Queue.slot_at k (int y) jq') = owner s y \<and>
      (\<not> (is_done s y \<or> y = ?x) \<longrightarrow> slot_kind (Job_Queue.slot_at k (int y) jq') = disruptorWorkJob \<and> slot_job (Job_Queue.slot_at k (int y) jq') = job_of s y)"
      using old(2) y window_update [OF sl(2,1) run(1) y(1) win y(2)] by (auto simp: e(2) queue_ok_def slots_ok_def)
  qed
  then have queue: "queue_ok k n ?s jq'" using old(2) update_slot_wf by (auto simp: queue_ok_def finished_fields e(2))
  have b: "busy n s = insert i (busy n ?s)" "i \<notin> busy n ?s" using assms(2,3) by (auto simp: busy_def finished_def)
  have c: "card (busy n s) = Suc (card (busy n ?s))" using b busy_card(2) [of n ?s] by simp
  have "card (busy n s) \<le> n" by (rule busy_card)
  then have "wrap64 (busyWorkers m - 1) = busyWorkers m - 1" using old(3) assms(5) by (simp add: counts_ok_def in64_def)
  then have counts: "counts_ok n ?s m'" using old(3) c by (simp add: counts_ok_def e(1) decBusyWorker_def finished_fields)
  have "outcomes_ok ?s" using old(4) assms(6) run(3) unfolding outcomes_ok_def finished_fields by auto
  then show ?thesis using queue counts finished_seqs [OF old(1) assms(2,3), of op q] by (simp add: work_ok_def e decBusyWorker_def)
qed

section \<open>Runs of the pool\<close>

definition sys_inv :: "('art, 'err) datura \<Rightarrow> 'v codec \<Rightarrow> string \<Rightarrow> nat \<Rightarrow> nat \<Rightarrow> ('v, 'art) pool_sys \<Rightarrow> bool" where
  "sys_inv D J uuid k n s \<longleftrightarrow> staff_ok n (sys_pool s) \<and>
     (\<exists>jq. jobQueue (core (sys_pool s)) = Some jq \<and> work_ok k n s (lc_metrics (core (sys_pool s))) jq) \<and>
     space_run D J (map snd (history s)) (NewQSpace uuid) = Some (space (sys_pool s)) \<and> (\<forall>x<published s. breaker_known (job_of s x))"

lemma space_run_snoc: "space_run D J (ops @ [op]) qs = Option.bind (space_run D J ops qs) (space_step D J op)"
  by (auto simp: space_run_append split: option.split bind_split)

lemma duty_queue:
  "duty lc' = duty lc \<Longrightarrow> jobQueue lc = Some jq \<Longrightarrow> \<exists>jq'. jobQueue lc' = Some jq' \<and> ring jq' = ring jq \<and> committed jq' = committed jq \<and>
     handlerCount jq' = handlerCount jq \<and> jobQueueDepth (lc_metrics lc') = jobQueueDepth (lc_metrics lc) \<and>
     busyWorkers (lc_metrics lc') = busyWorkers (lc_metrics lc)"
  by (auto simp: duty_def)

lemma duty_work:
  fixes s s' :: "('v, 'art) pool_sys"
  assumes "work_ok k n s (lc_metrics lc) jq" "jobQueue lc = Some jq" "duty lc' = duty lc"
    "published s' = published s" "cursor s' = cursor s" "running s' = running s" "job_of s' = job_of s" "owner s' = owner s"
    "history s' = history s \<or> (\<exists>op. history s' = history s @ [(None, op)])"
  shows "\<exists>jq'. jobQueue lc' = Some jq' \<and> work_ok k n s' (lc_metrics lc') jq'"
proof -
  obtain jq' where "jobQueue lc' = Some jq'" "ring jq' = ring jq" "committed jq' = committed jq" "handlerCount jq' = handlerCount jq"
    "jobQueueDepth (lc_metrics lc') = jobQueueDepth (lc_metrics lc)" "busyWorkers (lc_metrics lc') = busyWorkers (lc_metrics lc)"
    using duty_queue [OF assms(3,2)] by blast
  then show ?thesis using work_ok_cong [OF assms(4-9) _ _ _ _ _ assms(1)] by blast
qed

text \<open>Steps that leave the work alone.\<close>

lemma sys_inv_idle:
  assumes "sys_inv D J uuid k n s" "staff_ok n q" "duty (core q) = duty (core (sys_pool s))" "space q = space (sys_pool s)"
  shows "sys_inv D J uuid k n (s\<lparr>sys_pool := q\<rparr>)"
proof -
  obtain jq where "jobQueue (core (sys_pool s)) = Some jq" "work_ok k n s (lc_metrics (core (sys_pool s))) jq"
    using assms(1) by (auto simp: sys_inv_def)
  from duty_work [OF this(2,1) assms(3), of "s\<lparr>sys_pool := q\<rparr>"] assms show ?thesis by (auto simp: sys_inv_def)
qed

lemma sys_inv_space:
  assumes "sys_inv D J uuid k n s" "staff_ok n q" "duty (core q) = duty (core (sys_pool s))" "space_step D J op (space (sys_pool s)) = Some (space q)"
  shows "sys_inv D J uuid k n (s\<lparr>sys_pool := q, history := history s @ [(None, op)]\<rparr>)"
proof -
  obtain jq where "jobQueue (core (sys_pool s)) = Some jq" "work_ok k n s (lc_metrics (core (sys_pool s))) jq"
    using assms(1) by (auto simp: sys_inv_def)
  from duty_work [OF this(2,1) assms(3), of "s\<lparr>sys_pool := q, history := history s @ [(None, op)]\<rparr>"] assms
  show ?thesis by (auto simp: sys_inv_def space_run_snoc)
qed

lemma sys_inv_enter:
  assumes "sys_inv D J uuid k n s" "staff_ok n p" "duty (core p) = duty (core (sys_pool s))" "space p = space (sys_pool s)"
    "enqueueJob eo job (core p) = Some (None, lc)" "reserve_ok k n s eo" "breaker_known job"
  shows "sys_inv D J uuid k n (enter job (p\<lparr>core := lc\<rparr>) s)"
proof -
  obtain jq0 where "jobQueue (core (sys_pool s)) = Some jq0" "work_ok k n s (lc_metrics (core (sys_pool s))) jq0"
    using assms(1) by (auto simp: sys_inv_def)
  from duty_work [OF this(2,1) assms(3), of s] obtain jq where
    jq: "jobQueue (core p) = Some jq" "work_ok k n s (lc_metrics (core p)) jq" by auto
  obtain ob u where u: "ob \<in> set (rounds eo)" "obs_reserve ob = Reserved u"
    "lc = publishTelemetry (JobScheduled (ID job)) ((core p)\<lparr>lc_metrics := incJobQueued (lc_metrics (core p)), jobQueue := Some (put_slot u job jq)\<rparr>)"
    using enqueueJob_queued [OF assms(5) jq(1)] by blast
  then have r: "u = int (published s)" "\<forall>i<n. published s < cursor s i + 2 ^ k" "int (published s) + 1 < 2 ^ 63"
    using assms(6) unfolding reserve_ok_def by blast+
  have "work_ok k n (enter job (p\<lparr>core := lc\<rparr>) s) (lc_metrics lc) (put_slot u job jq)" "jobQueue lc = Some (put_slot u job jq)"
    using enter_ok [OF jq(2) r(2,3), of job "p\<lparr>core := lc\<rparr>"] u(3) r(1) by simp_all
  moreover have "same_staff (core p) lc" using jq(1) by (simp add: same_staff_def u(3) put_slot_def)
  then have "staff_ok n (p\<lparr>core := lc\<rparr>)" by (rule staff_ok_core [OF assms(2)])
  ultimately show ?thesis using assms(1,4,7) by (auto simp: sys_inv_def enter_def less_Suc_eq)
qed

lemma sys_inv_view:
  assumes "sys_inv D J uuid k n s"
  shows "qs_inv (space (sys_pool s))" "space_view (space (sys_pool s)) = fold (map_step D J) (map snd (history s)) Map.empty"
  using space_run_inv [OF qs_inv_new(1), of D J "map snd (history s)" uuid] assms by (auto simp: sys_inv_def qs_inv_new(2))

lemma staff_ok_leave:
  assumes "staff_ok n q" "job \<in> set (resolving q)"
  shows "staff_ok n (q\<lparr>deps := deps q - 1, resolving := remove1 job (resolving q)\<rparr>)" "breaker_known job"
proof -
  have "0 < length (resolving q)" using assms(2) by auto
  then show "staff_ok n (q\<lparr>deps := deps q - 1, resolving := remove1 job (resolving q)\<rparr>)"
    using assms set_remove1_subset [of job "resolving q"] by (auto simp: staff_ok_def length_remove1 of_nat_diff Suc_leI)
  show "breaker_known job" using assms by (simp add: staff_ok_def)
qed

lemma sys_inv_close:
  assumes "sys_inv D J uuid k n s"
  shows "sys_inv D J uuid k n (s\<lparr>sys_pool := (sys_pool s)\<lparr>core := begin_close (core (sys_pool s))\<rparr>\<rparr>)"
proof -
  let ?q = "sys_pool s"
  obtain jq where jq: "jobQueue (core ?q) = Some jq" "work_ok k n s (lc_metrics (core ?q)) jq" using assms by (auto simp: sys_inv_def)
  have c: "jobQueue (begin_close (core ?q)) = Some (jq\<lparr>queue_closed := True\<rparr>)" "lc_metrics (begin_close (core ?q)) = lc_metrics (core ?q)"
    using jq(1) by (simp_all add: begin_close_def queue_Close_def Let_def)
  have "same_staff (core ?q) (begin_close (core ?q))" using jq(1) by (simp add: same_staff_def begin_close_def queue_Close_def Let_def)
  then have "staff_ok n (?q\<lparr>core := begin_close (core ?q)\<rparr>)" using assms by (intro staff_ok_core) (auto simp: sys_inv_def)
  moreover have "work_ok k n (s\<lparr>sys_pool := ?q\<lparr>core := begin_close (core ?q)\<rparr>\<rparr>) (lc_metrics (core ?q)) (jq\<lparr>queue_closed := True\<rparr>)"
    by (rule work_ok_cong [OF _ _ _ _ _ _ _ _ _ _ _ jq(2)]) simp_all
  ultimately show ?thesis using assms c by (simp add: sys_inv_def)
qed

lemma sys_inv_claim:
  assumes "sys_inv D J uuid k n s" "i < n" "running s i = None" "cursor s i < published s" "jobQueue (core (sys_pool s)) = Some jq"
    "claim_seq (int i) (int (cursor s i)) (lc_metrics (core (sys_pool s)), jq) = (r, m, jq')"
  shows "sys_inv D J uuid k n (s\<lparr>sys_pool := set_work m jq' (sys_pool s), running := (running s)(i := r),
       cursor := (if r = None then (cursor s)(i := Suc (cursor s i)) else cursor s),
       owner := (owner s)(cursor s i := fst (assignedWorker (int (cursor s i)) jq))\<rparr>)"
proof -
  let ?q = "set_work m jq' (sys_pool s)"
  have w: "staff_ok n (sys_pool s)" "work_ok k n s (lc_metrics (core (sys_pool s))) jq" using assms(1,5) by (auto simp: sys_inv_def)
  note act = staff_ok_active [OF w(1) assms(5)] and n = staff_ok_bounds(6) [OF w(1)]
  obtain w' where c: "fst (assignedWorker (int (cursor s i)) jq) = w'" "r = (if w' = int i then Some (job_of s (cursor s i)) else None)"
    "work_ok k n (looked i w' ?q s) m jq'" "activeWorkers jq' = activeWorkers jq" "workerCount m = workerCount (lc_metrics (core (sys_pool s)))"
    using claim_ok [OF w(2) assms(2-4) act n assms(6), of ?q] by auto
  have eq: "s\<lparr>sys_pool := ?q, running := (running s)(i := r), cursor := (if r = None then (cursor s)(i := Suc (cursor s i)) else cursor s),
       owner := (owner s)(cursor s i := fst (assignedWorker (int (cursor s i)) jq))\<rparr> = looked i w' ?q s"
    by (simp add: looked_def c(1,2))
  have "same_staff (core (sys_pool s)) (core ?q)" using assms(5) c(4,5) by (simp add: same_staff_def set_work_def)
  then have "staff_ok n ?q" using staff_ok_core [OF w(1)] by (simp add: set_work_def)
  then show ?thesis unfolding eq using assms(1) c(3) by (simp add: sys_inv_def looked_fields) (simp add: looked_def set_work_def)
qed

lemma sys_inv_finish:
  assumes "sys_inv D J uuid k n s" "i < n" "running s i = Some job" "processJob D J run job (sys_pool s) = Some q" "jobQueue (core q) = Some jq"
    "release_seq (int (cursor s i)) (lc_metrics (core q), jq) = (m, jq')"
  shows "sys_inv D J uuid k n (finished i (outcome_op run (sys_pool s) job) (set_work m jq' q) s)"
proof -
  let ?op = "outcome_op run (sys_pool s) job" and ?q = "set_work m jq' q"
  obtain jq0 where w: "staff_ok n (sys_pool s)" "jobQueue (core (sys_pool s)) = Some jq0" "work_ok k n s (lc_metrics (core (sys_pool s))) jq0"
    using assms(1) by (auto simp: sys_inv_def)
  have "seqs_ok k n s" using w(3) by (simp add: work_ok_def)
  note run = seqs_running [OF this assms(2,3)]
  have kn: "breaker_known job" using assms(1) run(1,3) by (simp add: sys_inv_def)
  have keep: "duty (core q) = duty (core (sys_pool s))" "same_staff (core (sys_pool s)) (core q)" "scaler q = scaler (sys_pool s)"
    "deps q = deps (sys_pool s)" "resolving q = resolving (sys_pool s)" "\<forall>l. cache_ok (breakers (sys_pool s)) l \<longrightarrow> cache_ok (breakers q) l"
    using processJob_keeps [OF assms(4)] kn by (simp_all add: breaker_known_def)
  have work: "work_ok k n s (lc_metrics (core q)) jq" using duty_work [OF w(3,2) keep(1), of s] assms(5) by auto
  have f: "work_ok k n (finished i ?op ?q s) m jq'" "activeWorkers jq' = activeWorkers jq" "workerCount m = workerCount (lc_metrics (core q))"
    using finish_ok [OF work assms(2,3,6) staff_ok_bounds(6) [OF w(1)] refl, of run "sys_pool s" ?q] by simp_all
  have "same_staff (core q) (core ?q)" using assms(5) f(2,3) by (simp add: same_staff_def set_work_def)
  then have "same_staff (core (sys_pool s)) (core ?q)" by (rule same_staff_trans [OF keep(2)])
  then have "staff_ok n ((sys_pool s)\<lparr>core := core ?q\<rparr>)" by (rule staff_ok_core [OF w(1)])
  then have staff: "staff_ok n ?q" using keep(3-6) by (auto simp: staff_ok_def set_work_def)
  obtain res err where re: "fst (runJobWithRetries (exec_ctx run (exec_deadline (sys_pool s) job)) job) = (res, err)" by force
  have inv: "qs_inv (space (sys_pool s))" using sys_inv_view(1) [OF assms(1)] .
  have "?op = (case err of None \<Rightarrow> SStore (ID job) (result_value res) (TTL job) | Some _ \<Rightarrow> SStoreError (ID job) (shadow_err run) (TTL job))"
    by (simp add: outcome_op_def re split: option.split)
  from processJob_store [OF inv kn [unfolded breaker_known_def] re this, of D J] assms(4)
  have "space_step D J ?op (space (sys_pool s)) = Some (space q)" by auto
  then show ?thesis using assms(1) staff f(1)
    by (simp add: sys_inv_def finished_fields space_run_snoc) (simp add: finished_def set_work_def)
qed

lemma sys_inv_staff: "sys_inv D J uuid k n s \<Longrightarrow> staff_ok n (sys_pool s)"
  by (simp add: sys_inv_def)

lemma sys_inv_submit:
  assumes "sys_inv D J uuid k n s" "Schedule_submit D J E ob i fn opts (sys_pool s) = Some (r, q)"
  shows "case r of Queued job \<Rightarrow> reserve_ok k n s (enq ob) \<longrightarrow> sys_inv D J uuid k n (enter job q s) | _ \<Rightarrow> sys_inv D J uuid k n (s\<lparr>sys_pool := q\<rparr>)"
proof -
  from submit_outcome [OF sys_inv_staff [OF assms(1)] assms(2)] obtain p job where
    p: "staff_ok n p" "duty (core p) = duty (core (sys_pool s))" "space p = space (sys_pool s)" "breaker_known job" and
    r: "case r of
       Refused h \<Rightarrow> (\<exists>lc. q = p\<lparr>core := lc\<rparr> \<and> same_staff (core p) lc \<and> duty lc = duty (core p))
     | Queued j \<Rightarrow> j = job \<and> (\<exists>lc. enqueueJob (enq ob) job (core p) = Some (None, lc) \<and> q = p\<lparr>core := lc\<rparr>)
     | Depending j \<Rightarrow> j = job \<and> \<not> stopping (core p) \<and> q = p\<lparr>deps := deps p + 1, resolving := resolving p @ [job]\<rparr>" by blast
  show ?thesis
  proof (cases r)
    case (Refused h)
    then show ?thesis using r p sys_inv_idle [OF assms(1)] staff_ok_core [OF p(1)] by auto
  next
    case (Queued j)
    then show ?thesis using r sys_inv_enter [OF assms(1) p(1-3) _ _ p(4)] by auto
  next
    case (Depending j)
    then have q: "q = p\<lparr>deps := deps p + 1, resolving := resolving p @ [job]\<rparr>" using r by simp
    then have "staff_ok n q" using p(1,4) by (auto simp: staff_ok_def)
    then show ?thesis using Depending q p(2,3) sys_inv_idle [OF assms(1)] by simp
  qed
qed

lemma sys_inv_dependency_failed:
  assumes "sys_inv D J uuid k n s" "job \<in> set (resolving (sys_pool s))" "settleDependentJob D J r (Some err) job (sys_pool s) = Some q"
  shows "sys_inv D J uuid k n (s\<lparr>sys_pool := q\<lparr>resolving := remove1 job (resolving q)\<rparr>,
       history := history s @ [(None, SStoreError (ID job) (Some err) (TTL job))]\<rparr>)"
proof -
  note lv = staff_ok_leave [OF sys_inv_staff [OF assms(1)] assms(2)]
  from settle_failed [OF assms(3) lv(2)] obtain lc sp c where
    f: "q = (sys_pool s)\<lparr>space := sp, core := lc, breakers := c, deps := deps (sys_pool s) - 1\<rparr>" "same_staff (core (sys_pool s)) lc"
      "duty lc = duty (core (sys_pool s))" "\<forall>l. cache_ok (breakers (sys_pool s)) l \<longrightarrow> cache_ok c l"
      "space_step D J (SStoreError (ID job) (Some err) (TTL job)) (space (sys_pool s)) = Some sp" by blast
  have "staff_ok n ((sys_pool s)\<lparr>deps := deps (sys_pool s) - 1, resolving := remove1 job (resolving (sys_pool s))\<rparr>\<lparr>core := lc\<rparr>)"
    by (rule staff_ok_core [OF lv(1)]) (simp add: f(2))
  then have "staff_ok n (q\<lparr>resolving := remove1 job (resolving q)\<rparr>)" using f(4) by (auto simp: f(1) staff_ok_def)
  then show ?thesis using f by (intro sys_inv_space [OF assms(1)]) simp_all
qed

lemma sys_inv_dependency_ready:
  assumes "sys_inv D J uuid k n s" "job \<in> set (resolving (sys_pool s))" "settleDependentJob D J r None job (sys_pool s) = Some q"
    "enqueueJob (dep_enq r) job (core (sys_pool s)) = Some (e, lc)"
  shows "case e of
      Some err \<Rightarrow> sys_inv D J uuid k n (s\<lparr>sys_pool := q\<lparr>resolving := remove1 job (resolving q)\<rparr>,
        history := history s @ [(None, SStoreError (ID job) (Some err) (TTL job))]\<rparr>)
    | None \<Rightarrow> reserve_ok k n s (dep_enq r) \<longrightarrow> sys_inv D J uuid k n (enter job (q\<lparr>resolving := remove1 job (resolving q)\<rparr>) s)"
proof -
  note lv = staff_ok_leave [OF sys_inv_staff [OF assms(1)] assms(2)]
  let ?p = "(sys_pool s)\<lparr>deps := deps (sys_pool s) - 1, resolving := remove1 job (resolving (sys_pool s))\<rparr>"
  show ?thesis
  proof (cases e)
    case None
    then have "q\<lparr>resolving := remove1 job (resolving q)\<rparr> = ?p\<lparr>core := lc\<rparr>" using assms(3,4) by (auto simp: settleDependentJob_def Let_def)
    then show ?thesis using None assms(4) sys_inv_enter [OF assms(1) lv(1) _ _ _ _ lv(2)] by simp
  next
    case (Some err)
    then have keep: "same_staff (core (sys_pool s)) lc \<and> duty lc = duty (core (sys_pool s))" using enqueueJob_refused_keeps assms(4) by simp
    obtain sp where f: "q = (sys_pool s)\<lparr>space := sp, core := lc, deps := deps (sys_pool s) - 1\<rparr>"
      "StoreError D J (ID job) (Some err) (TTL job) (space (sys_pool s)) = Some sp"
      using assms(3,4) Some by (auto simp: settleDependentJob_def Let_def)
    have "staff_ok n (?p\<lparr>core := lc\<rparr>)" by (rule staff_ok_core [OF lv(1)]) (simp add: keep)
    then have "staff_ok n (q\<lparr>resolving := remove1 job (resolving q)\<rparr>)" by (simp add: f(1) staff_ok_def)
    then show ?thesis using Some f keep sys_inv_space [OF assms(1)] by simp
  qed
qed

lemma sys_inv_step:
  assumes "sys_inv D J uuid k n s" "pool_step D J E k n s s'"
  shows "sys_inv D J uuid k n s'"
  using assms(2)
proof cases
  case (space_call op sp)
  show ?thesis unfolding space_call(1) using assms(1) space_call(2) by (intro sys_inv_space) (auto simp: sys_inv_def)
next
  case (dependency_failed job r err q)
  show ?thesis unfolding dependency_failed(1) by (rule sys_inv_dependency_failed [OF assms(1) dependency_failed(2,3)])
next
  case (dependency_refused job r err lc q)
  show ?thesis unfolding dependency_refused(1) using sys_inv_dependency_ready [OF assms(1) dependency_refused(2,4,3)] by simp
next
  case (dependency_queued job r lc q)
  show ?thesis unfolding dependency_queued(1) using sys_inv_dependency_ready [OF assms(1) dependency_queued(2,4,3)] dependency_queued(5) by simp
next
  case (claim i jq r m jq')
  show ?thesis unfolding claim(1) by (rule sys_inv_claim [OF assms(1) claim(2-6)])
next
  case (finish i job run q jq m jq')
  show ?thesis unfolding finish(1) using sys_inv_finish [OF assms(1) finish(2-6)] by (simp add: finished_def)
next
  case (tick e c q)
  show ?thesis unfolding tick(1) using pool_tick_staff [OF sys_inv_staff [OF assms(1)] tick(2)] by (intro sys_inv_idle [OF assms(1)]) auto
next
  case close
  show ?thesis unfolding close by (rule sys_inv_close [OF assms(1)])
qed (use sys_inv_submit [OF assms(1)] in force)+

lemma new_sys_inv:
  fixes q :: "('v, 'art) Q"
  assumes "NewQ uuid now None minW maxW cfg = Some q" "maxW < 2 ^ 63" "CircuitBreakerLimit (given_config cfg) < 2 ^ 62"
    "jobQueue (core q) = Some jq" "queue_wf k jq" "n = nat (max 1 maxW)"
  shows "sys_inv D J uuid k n (new_sys q)"
proof -
  obtain jq0 :: "'v any_value jobDisruptorQueue" where
    q0: "newJobDisruptorQueue None (queue_capacity (given_config cfg) (max 1 maxW)) (max 1 maxW) = Some (Inr jq0)"
    using assms(1) by (fastforce simp: NewQ_def Let_def newJobDisruptorQueue_def split: option.splits sum.splits)
  obtain ts where q: "space q = NewQSpace uuid" "lc_inv (core q) ts" "int (length ts) = min (max 1 minW) (max 1 maxW)"
    "scaler q = map_option (NewScaler now (min (max 1 minW) (max 1 maxW)) (max 1 maxW)) (ScalerConfig_of (given_config cfg))"
    "breakers q = newCircuitBreakerCache (CircuitBreakerLimit (given_config cfg))" "deps q = 0" "resolving q = []"
    "maxWorkers (core q) = max 1 maxW" "minWorkers (core q) = min (max 1 minW) (max 1 maxW)" "told_active (core q)"
    "duty (core q) = (Some (ring jq0, [], False, handlerCount jq0), 0, 0, False)"
    using NewQ_parts [where 'art = 'art, OF q0 assms(2), of uuid now minW] assms(1) by auto
  have d: "ring jq = ring jq0" "committed jq = []" "handlerCount jq = int n" "jobQueueDepth (lc_metrics (core q)) = 0" "busyWorkers (lc_metrics (core q)) = 0"
    using q(11) assms(4,6) newJobDisruptorQueue_wf [OF q0] by (auto simp: duty_def)
  have "work_ok k n (new_sys q) (lc_metrics (core q)) jq"
    using assms(5) d by (simp add: work_ok_def seqs_ok_def queue_ok_def slots_ok_def counts_ok_def outcomes_ok_def new_sys_def jobs_run_def busy_def map_filter_def)
  moreover have "staff_ok n q"
  proof -
    have "\<exists>l. cache_ok (breakers q) l" using cache_ok_new [OF assms(3)] q(5) by auto
    moreover have "\<forall>sc. scaler q = Some sc \<longrightarrow> sc_minWorkers sc = minWorkers (core q) \<and> sc_maxWorkers sc = maxWorkers (core q)"
      by (auto simp: q(4,8,9) NewScaler_def)
    moreover have "1 \<le> minWorkers (core q)" "maxWorkers (core q) = int n" "minWorkers (core q) = int (length ts)"
      using q(3,8,9) assms(6) by linarith+
    ultimately show ?thesis unfolding staff_ok_def using q(2,6,7,10) by auto
  qed
  ultimately show ?thesis using assms(4) q(1) by (simp add: sys_inv_def) (simp add: new_sys_def)
qed

lemma sys_inv_run:
  assumes "(pool_step D J E k n)\<^sup>*\<^sup>* s s'" "sys_inv D J uuid k n s"
  shows "sys_inv D J uuid k n s'"
  using assms by (induction rule: rtranclp_induct) (auto intro: sys_inv_step)

text \<open>The record of a run only grows.\<close>

lemma step_grows:
  assumes "pool_step D J E k n s s'"
  shows "published s \<le> published s'" "\<forall>x<published s. job_of s' x = job_of s x" "\<exists>ops. history s' = history s @ ops"
  using assms by (cases; auto simp: enter_def)+

lemma run_grows:
  assumes "(pool_step D J E k n)\<^sup>*\<^sup>* s s'"
  shows "published s \<le> published s' \<and> (\<forall>x<published s. job_of s' x = job_of s x) \<and> (\<exists>ops. history s' = history s @ ops)"
  using assms
proof (induction rule: rtranclp_induct)
  case (step y z)
  then show ?case using step_grows [OF step.hyps(2)] by (metis (no_types, lifting) append.assoc le_trans less_le_trans)
qed simp

section \<open>The handlers get through\<close>

definition work_left :: "nat \<Rightarrow> ('v, 'art) pool_sys \<Rightarrow> nat" where
  "work_left n s = (\<Sum>i<n. 2 * (published s - cursor s i) - (if running s i = None then 0 else 1))"

lemma work_left_less:
  assumes "i < n" "\<And>j. j \<noteq> i \<Longrightarrow> cursor s' j = cursor s j \<and> running s' j = running s j" "published s' = published s"
    "2 * (published s - cursor s' i) - (if running s' i = None then 0 else 1) < 2 * (published s - cursor s i) - (if running s i = None then 0 else (1::nat))"
  shows "work_left n s' < work_left n s"
  unfolding work_left_def
proof (rule sum_strict_mono_ex1)
  show "\<forall>j\<in>{..<n}. 2 * (published s' - cursor s' j) - (if running s' j = None then 0 else 1) \<le> 2 * (published s - cursor s j) - (if running s j = None then 0 else 1)"
  proof
    fix j show "2 * (published s' - cursor s' j) - (if running s' j = None then 0 else 1) \<le> 2 * (published s - cursor s j) - (if running s j = None then 0 else 1)"
      using assms(2) [of j] assms(3,4) by (cases "j = i") auto
  qed
  show "\<exists>j\<in>{..<n}. 2 * (published s' - cursor s' j) - (if running s' j = None then 0 else 1) < 2 * (published s - cursor s j) - (if running s j = None then 0 else 1)"
    using assms(1,4) unfolding assms(3) by blast
qed simp

text \<open>A handler that is behind can always take a step, and what its job does decides only the operation it adds to the history.\<close>

lemma handler_progress:
  assumes "sys_inv D J uuid k n s" "i < n" "cursor s i < published s"
  shows "\<exists>s'. pool_step D J E k n s s' \<and> (cursor s' i \<noteq> cursor s i \<or> running s' i \<noteq> running s i) \<and> work_left n s' < work_left n s \<and>
    published s' = published s \<and> job_of s' = job_of s \<and> (\<forall>(y, op)\<in>set (history s') - set (history s). \<exists>x (q :: ('v, 'art) Q). y = Some x \<and> op = outcome_op (runs x) q (job_of (s :: ('v, 'art) pool_sys) x))"
proof -
  obtain jq where jq: "jobQueue (core (sys_pool s)) = Some jq" "work_ok k n s (lc_metrics (core (sys_pool s))) jq"
    using assms(1) by (auto simp: sys_inv_def)
  show ?thesis
  proof (cases "running s i")
    case None
    obtain r m jq' where c: "claim_seq (int i) (int (cursor s i)) (lc_metrics (core (sys_pool s)), jq) = (r, m, jq')"
      by (cases "claim_seq (int i) (int (cursor s i)) (lc_metrics (core (sys_pool s)), jq)")
    show ?thesis
      by (intro exI conjI, rule pool_step.claim [OF assms(2) None assms(3) jq(1) c], simp add: None, rule work_left_less [OF assms(2)]) (use None assms(3) in auto)
  next
    case (Some job)
    have seqs: "seqs_ok k n s" using jq(2) by (simp add: work_ok_def)
    note run = seqs_running [OF seqs assms(2) Some]
    have kn: "CircuitID job = [] \<or> circuitBreaker job \<noteq> None \<or> CircuitConfig job = None"
      using assms(1) run by (auto simp: sys_inv_def breaker_known_def)
    let ?run = "runs (cursor s i)"
    obtain res err where re: "fst (runJobWithRetries (exec_ctx ?run (exec_deadline (sys_pool s) job)) job) = (res, err)" by force
    from processJob_store [OF sys_inv_view(1) [OF assms(1)] kn re refl, of D J] obtain q where q: "processJob D J ?run job (sys_pool s) = Some q" by blast
    have jq': "jobQueue (core q) = Some jq" using processJob_keeps [OF q kn] jq(1) by simp
    obtain m jq1 where r: "release_seq (int (cursor s i)) (lc_metrics (core q), jq) = (m, jq1)" by force
    show ?thesis
      by (intro exI conjI, rule pool_step.finish [OF assms(2) Some q jq' r], simp, rule work_left_less [OF assms(2)]) (use Some assms(3) run(3) in auto)
  qed
qed

lemma handlers_drain:
  fixes s :: "('v, 'art) pool_sys"
  assumes "sys_inv D J uuid k n s"
  shows "\<exists>s'. (pool_step D J E k n)\<^sup>*\<^sup>* s s' \<and> published s' = published s \<and> job_of s' = job_of s \<and> (\<forall>i<n. cursor s' i = published s) \<and>
    (\<forall>(y, op)\<in>set (history s') - set (history s). \<exists>x (q :: ('v, 'art) Q). y = Some x \<and> op = outcome_op (runs x) q (job_of s x))"
  using assms
proof (induction "work_left n s" arbitrary: s rule: less_induct)
  case less
  show ?case
  proof (cases "\<exists>i<n. cursor s i < published s")
    case True
    then obtain s1 where s1: "pool_step D J E k n s s1" "work_left n s1 < work_left n s" "published s1 = published s" "job_of s1 = job_of s"
      "\<forall>(y, op)\<in>set (history s1) - set (history s). \<exists>x (q :: ('v, 'art) Q). y = Some x \<and> op = outcome_op (runs x) q (job_of s x)"
      using handler_progress [OF less.prems, of _ E runs] by blast
    from less.hyps [OF s1(2) sys_inv_step [OF less.prems s1(1)]] obtain s2 where
      s2: "(pool_step D J E k n)\<^sup>*\<^sup>* s1 s2" "published s2 = published s" "job_of s2 = job_of s" "\<forall>i<n. cursor s2 i = published s"
        "\<forall>(y, op)\<in>set (history s2) - set (history s1). \<exists>x (q :: ('v, 'art) Q). y = Some x \<and> op = outcome_op (runs x) q (job_of s x)"
      unfolding s1(3,4) by blast
    have "\<forall>(y, op)\<in>set (history s2) - set (history s). \<exists>x (q :: ('v, 'art) Q). y = Some x \<and> op = outcome_op (runs x) q (job_of s x)"
      using s1(5) s2(5) by blast
    then show ?thesis using s1(1) s2(1-4) by (meson converse_rtranclp_into_rtranclp)
  next
    case False
    have "cursor s i \<le> published s" if "i < n" for i using less.prems that by (auto simp: sys_inv_def work_ok_def seqs_ok_def)
    then have "\<forall>i<n. cursor s i = published s" using False by (meson le_neq_implies_less)
    then show ?thesis by (intro exI [of _ s]) simp
  qed
qed

lemma drained:
  assumes "seqs_ok k n s" "\<forall>i<n. cursor s i = published s" "0 < n"
  shows "mset (jobs_run s) = mset [0..<published s]" "busy n s = {}" "queued n s = {}"
proof -
  have d: "is_done s x" if "x < published s" for x
    using seqs_owner [OF assms(1) that] assms(2,3) that by (auto simp: is_done_def)
  show "busy n s = {}" using assms(2) seqs_running(1) [OF assms(1)] by (fastforce simp: busy_def)
  show "queued n s = {}" using d by (auto simp: queued_def)
  have "set (jobs_run s) = set [0..<published s]" "distinct (jobs_run s)" using assms(1) d by (auto simp: seqs_ok_def)
  then show "mset (jobs_run s) = mset [0..<published s]" by (metis distinct_upt set_eq_iff_mset_eq_distinct)
qed

end
