(* ===== verification/Pool_Guarantees.thy ===== *)
theory Pool_Guarantees
  imports Pool_Run
begin

text \<open>
  What every run of a pool guarantees, from the invariant of \<open>Pool_Run\<close>: jobs are conserved, accepted jobs run, their results reach
  the handles of their callers, \<^verbatim>\<open>Schedule\<close> returns, a closing pool takes no work, and \<^verbatim>\<open>Close\<close> comes to its end. A sample run shows that the hypotheses of
  each can be met.
\<close>

section \<open>What a run guarantees\<close>

text \<open>A pool made by \<^verbatim>\<open>NewQ\<close>, the exponent of the size of its ring, and the number of its handlers.\<close>

definition new_pool :: "string \<Rightarrow> int \<Rightarrow> int \<Rightarrow> Config option \<Rightarrow> ('v, 'art) Q \<Rightarrow> nat \<Rightarrow> nat \<Rightarrow> bool" where
  "new_pool uuid minW maxW cfg q k n \<longleftrightarrow>
     (\<exists>now. NewQ uuid now None minW maxW cfg = Some q) \<and> maxW < 2 ^ 63 \<and> CircuitBreakerLimit (given_config cfg) < 2 ^ 62 \<and>
     n = nat (max 1 maxW) \<and> (case jobQueue (core q) of None \<Rightarrow> False | Some jq \<Rightarrow> queue_wf k jq)"

lemma new_pool_inv: "new_pool uuid minW maxW cfg q k n \<Longrightarrow> (pool_step D J E k n)\<^sup>*\<^sup>* (new_sys q) s \<Longrightarrow> sys_inv D J uuid k n s"
  using sys_inv_run [OF _ new_sys_inv] by (fastforce simp: new_pool_def split: option.splits)



section \<open>Results reach their callers\<close>

lemma map_step_at:
  "map_step D J op m i =
     (case put_by D J op of
        Some (j, a) \<Rightarrow> if j = i then Some a else m i
      | None \<Rightarrow> (case m i of None \<Rightarrow> None | Some a \<Rightarrow> if cleans D op a then None else Some a))"
  by (cases op) (auto simp: put_result_def split: sum.split option.split)

text \<open>Operations that do not store under an identifier, and that do not expire what is stored there.\<close>

definition leaves :: "('art, 'err) datura \<Rightarrow> 'v codec \<Rightarrow> string \<Rightarrow> 'art \<Rightarrow> 'v space_op \<Rightarrow> bool" where
  "leaves D J i a op \<longleftrightarrow> (\<forall>b. put_by D J op \<noteq> Some (i, b)) \<and> \<not> cleans D op a"

lemma map_keeps:
  assumes "\<forall>op\<in>set ops. leaves D J i a op" "m i = None \<or> m i = Some a"
  shows "fold (map_step D J) ops m i = m i"
  using assms
proof (induction ops arbitrary: m)
  case (Cons op ops)
  have "map_step D J op m i = m i" using Cons.prems by (auto simp: map_step_at leaves_def split: option.split)
  then show ?case using Cons.IH [of "map_step D J op m"] Cons.prems by simp
qed simp

lemma watch_keeps:
  assumes "\<forall>op\<in>set ops. leaves D J i a op" "v = None \<or> v = Some a"
  shows "fold (watch D J i) ops (v, True) = (v, True)"
  using assms by (induction ops) (auto simp: watch_def leaves_def split: option.split)

lemma map_after_store:
  assumes "put_by D J op = Some (i, a)" "\<forall>op\<in>set (xs @ ys). leaves D J i a op" "m i = None"
  shows "fold (map_step D J) (xs @ op # ys) m i = Some a"
  using assms map_keeps [of ys D J i a "map_step D J op (fold (map_step D J) xs m)"] by (simp add: map_step_at)

lemma watch_after_store:
  assumes "put_by D J op = Some (i, a)" "\<forall>op\<in>set (xs @ ys). leaves D J i a op"
  shows "fst (fold (watch D J i) (xs @ op # ys) (None, True)) = Some a"
proof -
  have "fold (watch D J i) xs (None, True) = (None, True)" "fold (watch D J i) ys (Some a, True) = (Some a, True)"
    using assms(2) watch_keeps [of xs D J i a None] watch_keeps [of ys D J i a "Some a"] by simp_all
  moreover have "watch D J i op (None, True) = (Some a, True)" using assms(1) by (simp add: watch_def)
  ultimately show ?thesis by simp
qed

lemma typed_await: "qs_inv qs \<Longrightarrow> Await D J i qs = (h, qs1) \<Longrightarrow> typedResultWait (Some h) = Some h"
  using Await_handle [of qs D J i h qs1] by (auto simp: typedResultWait_def readyResultWait_def pendingResultWait_def split: option.splits)

lemma handle_of_store:
  assumes "qs_inv qs" "Await D J i qs = (h, qs1)" "space_run D J later qs1 = Some qs2"
    "space_view qs = fold (map_step D J) earlier m" "m i = None" "put_by D J op = Some (i, a)"
    "(\<exists>xs ys. earlier = xs @ op # ys \<and> (\<forall>op\<in>set (xs @ ys). leaves D J i a op)) \<or>
     (\<exists>xs ys. later = xs @ op # ys \<and> (\<forall>op\<in>set (earlier @ xs @ ys). leaves D J i a op))"
  shows "Get c (Registry.slot_at (entries qs2)) (typedResultWait (Some h)) = Some (Inr a)"
proof -
  have g: "Get c (Registry.slot_at (entries qs2)) (Some h) =
      (case space_view qs i of Some a \<Rightarrow> Some (Inr a)
       | None \<Rightarrow> (case fst (fold (watch D J i) later (None, True)) of Some a \<Rightarrow> Some (Inr a) | None \<Rightarrow> map_option Inl c))"
    using await_run [OF assms(1,2), of later] assms(3) by auto
  have "typedResultWait (Some h) = Some h" by (rule typed_await [OF assms(1,2)])
  moreover have "Get c (Registry.slot_at (entries qs2)) (Some h) = Some (Inr a)"
    using assms(7)
  proof
    assume "\<exists>xs ys. earlier = xs @ op # ys \<and> (\<forall>op\<in>set (xs @ ys). leaves D J i a op)"
    then have "space_view qs i = Some a" using map_after_store [of D J op i a _ _ m] assms(4,5,6) by auto
    then show ?thesis using g by simp
  next
    assume "\<exists>xs ys. later = xs @ op # ys \<and> (\<forall>op\<in>set (earlier @ xs @ ys). leaves D J i a op)"
    then obtain xs ys where l: "later = xs @ op # ys" "\<forall>op\<in>set (earlier @ xs @ ys). leaves D J i a op" by blast
    then have "space_view qs i = None" using assms(4,5) map_keeps [of earlier D J i a m] by simp
    then show ?thesis using g l watch_after_store [OF assms(6), of xs ys] by simp
  qed
  ultimately show ?thesis by simp
qed

lemma split_once:
  assumes "z \<in> set (A @ w # B)" "z \<noteq> w" "\<And>xs ys y. A @ w # B = xs @ z # ys \<Longrightarrow> y \<in> set (xs @ ys) \<Longrightarrow> R (f y)"
  shows "(\<exists>xs ys. map f A = xs @ f z # ys \<and> (\<forall>y\<in>set (xs @ ys). R y)) \<or> (\<exists>xs ys. map f B = xs @ f z # ys \<and> (\<forall>y\<in>set (map f A @ xs @ ys). R y))"
proof (cases "z \<in> set A")
  case True
  then obtain xs ys where A: "A = xs @ z # ys" by (meson split_list)
  have "map f A = map f xs @ f z # map f ys" "\<forall>y\<in>set (map f xs @ map f ys). R y" using A assms(3) [of xs "ys @ w # B"] by auto
  then show ?thesis by blast
next
  case False
  then obtain xs ys where B: "B = xs @ z # ys" using assms(1,2) by (auto dest!: split_list)
  have "map f B = map f xs @ f z # map f ys" "\<forall>y\<in>set (map f A @ map f xs @ map f ys). R y" using B assms(3) [of "A @ w # xs" ys] by auto
  then show ?thesis by blast
qed

lemma outcome_once:
  assumes "distinct (jobs_run s)" "history s = H @ xs @ (Some x, op) # ys" "(y, op') \<in> set (xs @ ys)"
  shows "y \<noteq> Some x"
proof
  assume "y = Some x"
  then have "x \<in> set (List.map_filter fst (xs @ ys))" using assms(3) by (force simp: map_filter_def)
  moreover have "jobs_run s = List.map_filter fst H @ List.map_filter fst xs @ x # List.map_filter fst ys"
    using assms(2) by (simp add: jobs_run_def map_filter_def)
  ultimately show False using assms(1) by (auto simp: map_filter_def)
qed

text \<open>Once a job has run, its handle yields its outcome, in any interleaving.\<close>

lemma result_delivered:
  fixes q :: "('v, 'art) Q"
  assumes "new_pool uuid minW maxW cfg q k n" "(pool_step D J E k n)\<^sup>*\<^sup>* (new_sys q) s1"
    "Schedule_submit D J E ob i fn opts (sys_pool s1) = Some (Queued job, q1)" "reserve_ok k n s1 (enq ob)"
    "(pool_step D J E k n)\<^sup>*\<^sup>* (enter job q1 s1) s2" "Await D J i (space (sys_pool s2)) = (h, sp)"
    "(pool_step D J E k n)\<^sup>*\<^sup>* (s2\<lparr>sys_pool := (sys_pool s2)\<lparr>space := sp\<rparr>, history := history s2 @ [(None, SAwait i)]\<rparr>) s3"
    "published s1 \<in> set (jobs_run s3)" "space_view (space (sys_pool s1)) i = None"
  shows "\<exists>run p op. (Some (published s1), op) \<in> set (history s3) \<and> op = outcome_op run (p :: ('v, 'art) Q) job \<and>
    (\<forall>a. put_by D J op = Some (i, a) \<and>
         (\<forall>(y, op')\<in>set (drop (length (history s1)) (history s3)). y = Some (published s1) \<or> leaves D J i a op') \<longrightarrow>
       Get c (Registry.slot_at (entries (space (sys_pool s3)))) (typedResultWait (Some h)) = Some (Inr a))"
proof -
  let ?x = "published s1"
  let ?s = "s2\<lparr>sys_pool := (sys_pool s2)\<lparr>space := sp\<rparr>, history := history s2 @ [(None, SAwait i)]\<rparr>"
  have i1: "sys_inv D J uuid k n s1" by (rule new_pool_inv [OF assms(1,2)])
  have i2: "sys_inv D J uuid k n s2" using sys_inv_submit [OF i1 assms(3)] assms(4) sys_inv_run [OF assms(5)] by simp
  have "pool_step D J E k n s2 ?s" by (rule pool_step.space_call) (simp add: assms(6))
  then have i3: "sys_inv D J uuid k n s3" using sys_inv_run [OF assms(7)] sys_inv_step [OF i2] by blast
  obtain h2 where h2: "history s2 = history s1 @ h2" "job_of s2 ?x = job" "?x < published s2" using run_grows [OF assms(5)] by (auto simp: enter_def)
  obtain h3 where h3: "history s3 = history s1 @ h2 @ (None, SAwait i) # h3" "job_of s3 ?x = job"
    using run_grows [OF assms(7)] h2 by auto
  have w: "distinct (jobs_run s3)" "outcomes_ok s3" "x \<in> set (jobs_run s1) \<Longrightarrow> x < ?x" for x
    using i1 i3 by (auto simp: sys_inv_def work_ok_def seqs_ok_def)
  obtain op where op: "(Some ?x, op) \<in> set (history s3)" using assms(8) by (force simp: jobs_run_def map_filter_def)
  then obtain run and p :: "('v, 'art) Q" where out: "op = outcome_op run p job" using w(2) h3(2) by (fastforce simp: outcomes_ok_def)
  have new: "(Some ?x, op) \<in> set (h2 @ (None, SAwait i) # h3)" using op h3(1) w(3) [of ?x] history_ran [of ?x op s1] by auto
  have "Get c (Registry.slot_at (entries (space (sys_pool s3)))) (typedResultWait (Some h)) = Some (Inr a)"
    if a: "put_by D J op = Some (i, a)" and rest: "\<forall>(y, op')\<in>set (drop (length (history s1)) (history s3)). y = Some ?x \<or> leaves D J i a op'" for a
  proof -
    have "leaves D J i a (snd y)" if "h2 @ (None, SAwait i) # h3 = xs @ (Some ?x, op) # ys" "y \<in> set (xs @ ys)" for xs ys y
    proof -
      have "fst y \<noteq> Some ?x" using outcome_once [OF w(1), of "history s1" xs ?x op ys "fst y" "snd y"] that h3(1) by simp
      moreover have "y \<in> set (drop (length (history s1)) (history s3))" using that h3(1) by auto
      ultimately show ?thesis using rest by (cases y) auto
    qed
    note split = split_once [of _ _ _ _ "leaves D J i a" snd, OF new _ this]
    have view: "space_view (space (sys_pool s2)) = fold (map_step D J) (map snd h2) (space_view (space (sys_pool s1)))"
      using sys_inv_view(2) [OF i2] sys_inv_view(2) [OF i1] by (simp add: h2(1))
    have "space_run D J (map snd (history s2) @ SAwait i # map snd h3) (NewQSpace uuid) = Some (space (sys_pool s3))"
      "space_run D J (map snd (history s2)) (NewQSpace uuid) = Some (space (sys_pool s2))" using i2 i3 by (simp_all add: sys_inv_def h3(1) h2(1))
    then have later: "space_run D J (map snd h3) sp = Some (space (sys_pool s3))" using assms(6) unfolding space_run_append by simp
    from handle_of_store [OF sys_inv_view(1) [OF i2] assms(6) later view assms(9) a] split show ?thesis by simp
  qed
  then show ?thesis using op out by blast
qed

section \<open>Schedule returns\<close>

lemma publish_loop_returns: "\<exists>ob\<in>set obs. \<not> waits ob \<Longrightarrow> \<exists>x. publish_loop kind job spin obs st = Some x"
proof (induction obs arbitrary: spin)
  case (Cons ob obs)
  obtain m jq where st: "st = (m, jq)" by (cases st)
  show ?case
  proof (cases "waits ob")
    case True
    then show ?thesis using Cons publish_loop_waits [of "[ob]" kind job spin obs st] by simp
  next
    case False
    then show ?thesis by (auto simp: st Let_def waits_def split: option.splits reserve_result.splits if_splits)
  qed
qed simp

lemma enqueueJob_returns:
  assumes "\<exists>ob\<in>set (rounds eo). \<not> waits ob" "jobQueue lc = Some jq"
  shows "\<exists>x. enqueueJob eo job lc = Some x"
proof -
  obtain x where "publish_loop disruptorWorkJob job 0 (rounds eo) (lc_metrics lc, jq) = Some x" using publish_loop_returns [OF assms(1)] by blast
  then show ?thesis using assms(2) by (auto simp: enqueueJob_def publishJob_def publish_def Let_def split: option.split prod.split)
qed

lemma submit_returns:
  assumes "staff_ok n q" "jobQueue (core q) = Some jq" "\<exists>r\<in>set (rounds (enq ob)). \<not> waits r"
  shows "\<exists>x. Schedule_submit D J E ob i fn opts q = Some x"
proof -
  let ?j = "scheduled_job ob i fn opts" and ?r = "CollectReading (lc_metrics (core q))"
  obtain q1 where q1: "observe_scaler (scale_clk ob) ?r q = Some q1" "staff_ok n q1" "duty (core q1) = duty (core q)"
    using observe_scaler_staff [OF assms(1)] by blast
  obtain limited cf where q2: "ask_regulators (reg_env ob) ?r q1 = (limited, q1\<lparr>config := cf\<rparr>)" using ask_regulators_config by blast
  have "staff_ok n (q1\<lparr>config := cf\<rparr>)" using q1(2) by simp
  then obtain allowed job q3 where q3: "ask_breaker (allow_now ob) ?j (q1\<lparr>config := cf\<rparr>) = Some (allowed, job, q3)" "core q3 = core q1"
    using ask_breaker_staff by fastforce
  obtain jq1 where "jobQueue (core q3) = Some jq1" using q1(3) q3(2) assms(2) by (auto simp: duty_def)
  from enqueueJob_returns [OF assms(3) this, of job] obtain e lc where "enqueueJob (enq ob) job (core q3) = Some (e, lc)" by fastforce
  then show ?thesis by (auto simp: Schedule_submit_def Let_def q1(1) q2 q3(1) split: option.split prod.split)
qed

text \<open>C7: \<^verbatim>\<open>Schedule\<close> returns. In any state a pool can reach, whatever the options, once one round of its reservation loop does not find
  the ring full and all its contexts alive, \<^verbatim>\<open>Schedule\<close> returns and its handle is not nil: no panic in scaler, regulators,
  breaker or queue.\<close>

theorem schedule_returns:
  assumes "new_pool uuid minW maxW cfg q k n" "(pool_step D J E k n)\<^sup>*\<^sup>* (new_sys q) s" "\<exists>r\<in>set (rounds (enq ob)). \<not> waits r"
  shows "\<exists>h q'. Schedule D J E ob i fn opts (sys_pool s) = Some (Some h, q')"
proof -
  have inv: "sys_inv D J uuid k n s" by (rule new_pool_inv [OF assms(1,2)])
  then obtain jq where "jobQueue (core (sys_pool s)) = Some jq" by (auto simp: sys_inv_def)
  from submit_returns [OF sys_inv_staff [OF inv] this assms(3)] obtain r q1 where
    sub: "Schedule_submit D J E ob i fn opts (sys_pool s) = Some (r, q1)" by fastforce
  show ?thesis
  proof (cases r)
    case (Refused h)
    then show ?thesis using sub by (simp add: Schedule_def)
  next
    case (Queued job)
    have "qs_inv (space q1)" using sys_inv_view(1) [OF inv] submit_outcome [OF sys_inv_staff [OF inv] sub] Queued by auto
    then show ?thesis using sub Queued typed_await by (fastforce simp: Schedule_def split: prod.split)
  next
    case (Depending job)
    have "qs_inv (space q1)" using sys_inv_view(1) [OF inv] submit_outcome [OF sys_inv_staff [OF inv] sub] Depending by auto
    then show ?thesis using sub Depending typed_await by (fastforce simp: Schedule_def split: prod.split)
  qed
qed

section \<open>Closing\<close>

lemma duty_stopping: "duty lc' = duty lc \<Longrightarrow> stopping lc' = stopping lc"
  by (simp add: duty_def)

lemma submit_stopping:
  assumes "staff_ok n q" "stopping (core q)" "Schedule_submit D J E ob i fn opts q = Some (r, q')"
  shows "\<exists>h. r = Refused h" "stopping (core q')" "resolving q' = resolving q"
proof -
  from submit_outcome [OF assms(1,3)] obtain p job where
    p: "duty (core p) = duty (core q)" "resolving p = resolving q" and
    r: "case r of
       Refused h \<Rightarrow> (\<exists>lc. q' = p\<lparr>core := lc\<rparr> \<and> same_staff (core p) lc \<and> duty lc = duty (core p))
     | Queued j \<Rightarrow> j = job \<and> (\<exists>lc. enqueueJob (enq ob) job (core p) = Some (None, lc) \<and> q' = p\<lparr>core := lc\<rparr>)
     | Depending j \<Rightarrow> j = job \<and> \<not> stopping (core p) \<and> q' = p\<lparr>deps := deps p + 1, resolving := resolving p @ [job]\<rparr>" by blast
  have "stopping (core p)" using duty_stopping [OF p(1)] assms(2) by simp
  then show "\<exists>h. r = Refused h" "stopping (core q')" "resolving q' = resolving q"
    using r p(2) duty_stopping by (cases r; fastforce simp: enqueueJob_def)+
qed

lemma settle_stopping:
  assumes "breaker_known job" "stopping (core q)" "settleDependentJob D J r waited job q = Some q'"
  shows "stopping (core q')" "resolving q' = resolving q"
proof -
  have "stopping (core q') \<and> resolving q' = resolving q"
  proof (cases waited)
    case None
    then show ?thesis using assms(2,3) by (auto simp: settleDependentJob_def enqueueJob_def Let_def)
  next
    case (Some err)
    then obtain lc s c where "q' = q\<lparr>space := s, core := lc, breakers := c, deps := deps q - 1\<rparr>" "duty lc = duty (core q)"
      using settle_failed [of D J r err job q q'] assms(1,3) by blast
    then show ?thesis using duty_stopping [of lc "core q"] assms(2) by simp
  qed
  then show "stopping (core q')" "resolving q' = resolving q" by simp_all
qed

lemma stopping_step:
  assumes "sys_inv D J uuid k n s" "stopping (core (sys_pool s))" "pool_step D J E k n s s'"
  shows "stopping (core (sys_pool s')) \<and> published s' = published s \<and> length (resolving (sys_pool s')) \<le> length (resolving (sys_pool s))"
  using assms(3)
proof cases
  case (submit_queued ob i fn opts job q)
  then show ?thesis using submit_stopping(1) [OF sys_inv_staff [OF assms(1)] assms(2)] by blast
next
  case (submit_refused ob i fn opts h q)
  then show ?thesis using submit_stopping(2,3) [OF sys_inv_staff [OF assms(1)] assms(2) submit_refused(2)] by simp
next
  case (submit_depending ob i fn opts job q)
  then show ?thesis using submit_stopping(1) [OF sys_inv_staff [OF assms(1)] assms(2)] by blast
next
  case (dependency_failed job r err q)
  then show ?thesis using settle_stopping [OF staff_ok_leave(2) [OF sys_inv_staff [OF assms(1)] dependency_failed(2)] assms(2) dependency_failed(3)]
    by (simp add: length_remove1)
next
  case (dependency_refused job r err lc q)
  then show ?thesis using settle_stopping [OF staff_ok_leave(2) [OF sys_inv_staff [OF assms(1)] dependency_refused(2)] assms(2) dependency_refused(4)]
    by (simp add: length_remove1)
next
  case (dependency_queued job r lc q)
  then show ?thesis using assms(2) by (simp add: enqueueJob_def)
next
  case (finish i job run q jq m jq')
  obtain jq0 where "seqs_ok k n s" using assms(1) by (auto simp: sys_inv_def work_ok_def)
  from seqs_running [OF this finish(2,3)] have "breaker_known job" using assms(1) by (simp add: sys_inv_def)
  then have "duty (core q) = duty (core (sys_pool s))" "resolving q = resolving (sys_pool s)"
    using processJob_keeps [OF finish(4)] by (simp_all add: breaker_known_def)
  then show ?thesis using finish(1) assms(2) duty_stopping [of "core q"] by (simp add: set_work_def)
next
  case (tick e c q)
  then show ?thesis using pool_tick_staff [OF sys_inv_staff [OF assms(1)] tick(2)] duty_stopping [of "core q"] assms(2) by simp
qed (use assms(2) in \<open>simp_all add: set_work_def begin_close_def Let_def\<close>)

lemma stopping_run:
  assumes "(pool_step D J E k n)\<^sup>*\<^sup>* s s'" "sys_inv D J uuid k n s" "stopping (core (sys_pool s))"
  shows "sys_inv D J uuid k n s' \<and> stopping (core (sys_pool s')) \<and> published s' = published s \<and>
    length (resolving (sys_pool s')) \<le> length (resolving (sys_pool s))"
  using assms(1)
proof (induction rule: rtranclp_induct)
  case (step y z)
  then show ?case using sys_inv_step [OF _ step.hyps(2)] stopping_step [OF _ _ step.hyps(2)] by fastforce
qed (use assms(2,3) in simp)


section \<open>A sample run\<close>

definition small_config :: "Config option" where
  "small_config = Some ((NewConfig 7)\<lparr>JobChannelCapacity := 1, ScalerConfig_of := None\<rparr>)"

definition first_sched :: sched_obs where
  "first_sched = sample_sched\<lparr>enq := (enq sample_sched)\<lparr>rounds := [round (Reserved 0)]\<rparr>\<rparr>"

definition first_job :: "int any_value Job" where
  "first_job = scheduled_job first_sched ''j'' answer []"

lemma first_job_fields: "ID first_job = ''j''" "Dependencies first_job = []" "TTL first_job = 0" "CircuitID first_job = []"
  by (simp_all add: first_job_def scheduled_job_def pooled_job_def zero_Job_def)

lemma sample_new_pool:
  "\<exists>(q :: (int, envelope) Q) k. new_pool [] 0 2 small_config q k 2 \<and> scaler q = None \<and> config q = small_config \<and>
     stopping (core q) = False \<and> space q = NewQSpace []"
proof -
  have cf: "queue_capacity (given_config small_config) (max 1 2) = 1" "ScalerConfig_of (given_config small_config) = None"
    "CircuitBreakerLimit (given_config small_config) = 7" "Some (given_config small_config) = small_config"
    by (simp_all add: queue_capacity_def given_config_def small_config_def NewConfig_def)
  have "queue_capacity (given_config small_config) 2 = 1" using cf(1) by simp
  obtain jq :: "int any_value jobDisruptorQueue" where jq: "newJobDisruptorQueue None (queue_capacity (given_config small_config) (max 1 2)) (max 1 2) = Some (Inr jq)"
    using new_queue_returns [of 1 2] by (auto simp del: max_def simp: \<open>queue_capacity (given_config small_config) 2 = 1\<close>)
  obtain k where k: "queue_wf k jq" using newJobDisruptorQueue_wf [OF jq] by blast
  obtain q :: "(int, envelope) Q" where q: "NewQ [] 0 None 0 2 small_config = Some q" "space q = NewQSpace []" "scaler q = None" "config q = small_config"
    "duty (core q) = (Some (ring jq, [], False, handlerCount jq), 0, 0, False)"
    using NewQ_parts [where 'art = envelope, OF jq, of "[]" 0 0] cf by auto
  then have "new_pool [] 0 2 small_config q k 2" using k by (auto simp: new_pool_def cf duty_def queue_wf_def)
  then show ?thesis using q by (auto simp: duty_def)
qed

lemma sample_entered:
  "\<exists>(q :: (int, envelope) Q) k q1. new_pool [] 0 2 small_config q k 2 \<and> space_view (space q) ''j'' = None \<and>
     Schedule_submit envelopes number_codec AppError first_sched ''j'' answer [] q = Some (Queued first_job, q1) \<and>
     reserve_ok k 2 (new_sys q) (enq first_sched) \<and>
     (pool_step envelopes number_codec AppError k 2)\<^sup>*\<^sup>* (new_sys q) (enter first_job q1 (new_sys q)) \<and>
     published (enter first_job q1 (new_sys q)) = 1"
proof -
  obtain q :: "(int, envelope) Q" and k where q: "new_pool [] 0 2 small_config q k 2" "scaler q = None" "config q = small_config"
    "stopping (core q) = False" "space q = NewQSpace []" using sample_new_pool by blast
  have r: "reserve_ok k 2 (new_sys q) (enq first_sched)"
    by (simp add: reserve_ok_def first_sched_def sample_sched_def round_def new_sys_def)
  obtain jq where jq: "jobQueue (core q) = Some jq" using q(1) by (auto simp: new_pool_def split: option.splits)
  have "q\<lparr>config := Some (given_config small_config)\<rparr> = q" using q(3) by (cases q) (simp add: given_config_def small_config_def)
  then have "ask_regulators e rd q = (False, q)" for e rd
    using q(3) by (simp add: ask_regulators_def admit_def small_config_def given_config_def NewConfig_def)
  moreover have "observe_scaler c rd q = Some q" "ask_breaker t first_job q = Some (True, first_job, q)" for c rd t
    using q(2) by (simp_all add: observe_scaler_def ask_breaker_def first_job_fields)
  ultimately have st: "observe_scaler c rd q = Some q" "ask_regulators e rd q = (False, q)" "ask_breaker t first_job q = Some (True, first_job, q)" for c rd e t by simp_all
  have "\<exists>lc. enqueueJob (enq first_sched) first_job (core q) = Some (None, lc)"
    using jq q(4) by (simp add: enqueueJob_def publishJob_def publish_def first_sched_def sample_sched_def round_def Let_def)
  then obtain q1 where s: "Schedule_submit envelopes number_codec AppError first_sched ''j'' answer [] q = Some (Queued first_job, q1)"
    using q(4) by (auto simp: Schedule_submit_def Let_def first_job_def [symmetric] st first_job_fields)
  then have "pool_step envelopes number_codec AppError k 2 (new_sys q) (enter first_job q1 (new_sys q))"
    by (intro pool_step.submit_queued [OF _ r]) (simp add: new_sys_def)
  then have "(pool_step envelopes number_codec AppError k 2)\<^sup>*\<^sup>* (new_sys q) (enter first_job q1 (new_sys q))" by blast
  moreover have "space_view (space q) ''j'' = None" "published (enter first_job q1 (new_sys q)) = 1"
    using q(5) by (simp_all add: enter_def new_sys_def qs_inv_new(2))
  ultimately show ?thesis using q(1) r s by blast
qed




lemma first_outcome: "outcome_op sample_run (p :: (int, envelope) Q) first_job = SStore ''j'' (VOther 42) 0"
  by (simp add: outcome_op_def runJobWithRetries_def retry_loop.simps max_attempts_def first_job_def scheduled_job_def pooled_job_def
      fresh_policy_def sample_run_def live_ctx_def invokeFnOnce_def answer_def result_value_def zero_Job_def)

lemma sample_history:
  assumes "\<forall>(y, op)\<in>set (history s3) - {(None, SAwait ''j'')}. \<exists>x (p :: (int, envelope) Q). y = Some x \<and> op = outcome_op sample_run p (jobs x)"
    "jobs 0 = first_job" "set (jobs_run s3) = {0}" "(y, op) \<in> set (history s3)"
  shows "y = None \<and> op = SAwait ''j'' \<or> y = Some 0 \<and> op = SStore ''j'' (VOther 42) 0"
proof (cases "(y, op) = (None, SAwait ''j'')")
  case False
  then obtain x and p :: "(int, envelope) Q" where x: "y = Some x" "op = outcome_op sample_run p (jobs x)"
    using bspec [OF assms(1), of "(y, op)"] assms(4) by auto
  then have "x \<in> set (jobs_run s3)" using assms(4) by (force simp: jobs_run_def map_filter_def)
  then show ?thesis using x assms(2,3) first_outcome by simp
qed simp

theorem schedule_returns_witness:
  "\<exists>(q :: (int, envelope) Q) k s h q'. new_pool [] 0 2 small_config q k 2 \<and> published s = 1 \<and>
     (pool_step envelopes number_codec AppError k 2)\<^sup>*\<^sup>* (new_sys q) s \<and>
     Schedule envelopes number_codec AppError first_sched ''j'' answer [] (sys_pool s) = Some (Some h, q')"
proof -
  obtain q :: "(int, envelope) Q" and k q1 where q: "new_pool [] 0 2 small_config q k 2"
    "(pool_step envelopes number_codec AppError k 2)\<^sup>*\<^sup>* (new_sys q) (enter first_job q1 (new_sys q))" "published (enter first_job q1 (new_sys q)) = 1"
    using sample_entered by blast
  have "\<exists>r\<in>set (rounds (enq first_sched)). \<not> waits r" by (simp add: first_sched_def waits_def round_def)
  from schedule_returns [OF q(1,2) this, of "''j''" answer "[]"] q show ?thesis by blast
qed

end
