(* ===== verification/Fair_Run.thy ===== *)
theory Fair_Run
  imports Main
begin

text \<open>
  Infinite runs of a step relation, weak fairness and the rule for progress that the concurrent models of the
  pool share. A run is a function from time to states in which every change is a step: at any time the system may also be idle. An
  action is taken fairly when it is not, from some time on, always possible and never taken. The locale states once
  that a fair action that lowers a measure, which nothing else raises, leads to its goal.
\<close>

definition is_run :: "('s \<Rightarrow> 's \<Rightarrow> bool) \<Rightarrow> (nat \<Rightarrow> 's) \<Rightarrow> bool" where
  "is_run step \<sigma> \<longleftrightarrow> (\<forall>t. \<sigma> (Suc t) = \<sigma> t \<or> step (\<sigma> t) (\<sigma> (Suc t)))"

definition weakly_fair :: "('s \<Rightarrow> 's \<Rightarrow> bool) \<Rightarrow> (nat \<Rightarrow> 's) \<Rightarrow> bool" where
  "weakly_fair act \<sigma> \<longleftrightarrow> (\<forall>t. \<exists>u\<ge>t. (\<nexists>s'. act (\<sigma> u) s') \<or> act (\<sigma> u) (\<sigma> (Suc u)))"

lemma run_reaches:
  assumes "is_run step \<sigma>" "t \<le> u"
  shows "step\<^sup>*\<^sup>* (\<sigma> t) (\<sigma> u)"
  using assms(2)
proof (induction rule: dec_induct)
  case (step v)
  then show ?case using assms(1) unfolding is_run_def by (metis rtranclp.rtrancl_into_rtrancl)
qed simp

text \<open>A finite run that is idle from its end on is a run, and it is fair to every action that is not possible there.\<close>

definition idle_after :: "'s list \<Rightarrow> nat \<Rightarrow> 's" where
  "idle_after xs t = xs ! min t (length xs - 1)"

lemma idle_after_Cons: "xs \<noteq> [] \<Longrightarrow> idle_after (x # xs) (Suc t) = idle_after xs t" "idle_after (x # xs) 0 = x"
  by (cases xs; simp add: idle_after_def)+

lemma run_Cons:
  assumes "step x (hd xs)" "xs \<noteq> []" "is_run step (idle_after xs)"
  shows "is_run step (idle_after (x # xs))"
  unfolding is_run_def
proof
  fix t show "idle_after (x # xs) (Suc t) = idle_after (x # xs) t \<or> step (idle_after (x # xs) t) (idle_after (x # xs) (Suc t))"
    using assms by (cases t) (auto simp: idle_after_Cons is_run_def, auto simp: idle_after_def hd_conv_nth)
qed

lemma finite_run:
  assumes "step\<^sup>*\<^sup>* s s'"
  shows "\<exists>xs. xs \<noteq> [] \<and> hd xs = s \<and> last xs = s' \<and> is_run step (idle_after xs)"
  using assms
proof (induction rule: converse_rtranclp_induct)
  case base
  then show ?case by (intro exI [of _ "[s']"]) (simp add: is_run_def idle_after_def)
next
  case (step y z)
  then obtain xs where "xs \<noteq> []" "hd xs = z" "last xs = s'" "is_run step (idle_after xs)" by blast
  then show ?case using run_Cons [of step y xs] step.hyps(1) by (intro exI [of _ "y # xs"]) simp
qed

lemma idle_after_ends:
  assumes "xs \<noteq> []"
  shows "idle_after xs 0 = hd xs" "length xs \<le> Suc t \<Longrightarrow> idle_after xs t = last xs"
  using assms by (simp_all add: idle_after_def hd_conv_nth last_conv_nth min_absorb2)

lemma idle_after_fair:
  assumes "xs \<noteq> []" "\<nexists>s'. act (last xs) s'"
  shows "weakly_fair act (idle_after xs)"
proof -
  have "idle_after xs (max t (length xs)) = last xs" for t using idle_after_ends(2) [OF assms(1)] by simp
  then show ?thesis unfolding weakly_fair_def using assms(2) by (metis max.cobounded1)
qed

text \<open>Progress by a fair action.\<close>

locale fair_progress =
  fixes step act :: "'s \<Rightarrow> 's \<Rightarrow> bool" and inv goal :: "'s \<Rightarrow> bool" and m :: "'s \<Rightarrow> nat"
  assumes inv_step: "inv s \<Longrightarrow> \<not> goal s \<Longrightarrow> step s s' \<Longrightarrow> inv s'"
    and enabled: "inv s \<Longrightarrow> \<not> goal s \<Longrightarrow> \<exists>s'. act s s'"
    and keeps: "inv s \<Longrightarrow> \<not> goal s \<Longrightarrow> step s s' \<Longrightarrow> goal s' \<or> m s' \<le> m s"
    and progress: "inv s \<Longrightarrow> \<not> goal s \<Longrightarrow> act s s' \<Longrightarrow> goal s' \<or> m s' < m s"
begin

lemma until_goal:
  assumes "is_run step \<sigma>" "inv (\<sigma> t)" "\<forall>v. t \<le> v \<and> v \<le> u \<longrightarrow> \<not> goal (\<sigma> v)" "t \<le> u"
  shows "inv (\<sigma> u) \<and> m (\<sigma> u) \<le> m (\<sigma> t)"
  using assms(4,3)
proof (induction rule: dec_induct)
  case (step v)
  then have v: "inv (\<sigma> v)" "m (\<sigma> v) \<le> m (\<sigma> t)" "\<not> goal (\<sigma> v)" "\<not> goal (\<sigma> (Suc v))" by simp_all
  show ?case
  proof (cases "\<sigma> (Suc v) = \<sigma> v")
    case False
    then have "step (\<sigma> v) (\<sigma> (Suc v))" using assms(1) by (auto simp: is_run_def)
    then show ?thesis using inv_step [OF v(1,3)] keeps [OF v(1,3)] v(2,4) by fastforce
  qed (use v in simp)
qed (use assms(2) in simp)

lemma reaches:
  assumes "is_run step \<sigma>" "weakly_fair act \<sigma>" "inv (\<sigma> t)"
  shows "\<exists>u\<ge>t. goal (\<sigma> u)"
  using assms(3)
proof (induction "m (\<sigma> t)" arbitrary: t rule: less_induct)
  case less
  show ?case
  proof (rule ccontr)
    assume "\<not> (\<exists>u\<ge>t. goal (\<sigma> u))"
    then have n: "\<not> goal (\<sigma> v)" if "t \<le> v" for v using that by blast
    have i: "inv (\<sigma> v)" "m (\<sigma> v) \<le> m (\<sigma> t)" if "t \<le> v" for v using until_goal [OF assms(1) less.prems _ that] n by simp_all
    obtain u where u: "t \<le> u" "(\<nexists>s'. act (\<sigma> u) s') \<or> act (\<sigma> u) (\<sigma> (Suc u))" using assms(2) by (auto simp: weakly_fair_def)
    then have "act (\<sigma> u) (\<sigma> (Suc u))" using enabled [OF i(1) n] by blast
    then have "m (\<sigma> (Suc u)) < m (\<sigma> t)" using progress [OF i(1) n] i(2) n [of "Suc u"] u(1) by (meson le_SucI le_less_trans less_le_trans)
    from less.hyps [OF this i(1)] obtain v where "v \<ge> Suc u" "goal (\<sigma> v)" using u(1) by auto
    then show False using n u(1) by simp
  qed
qed

end

end
