(* ===== verification/Pool_Fair.thy ===== *)
theory Pool_Fair
  imports Pool_Guarantees Fair_Run
begin

text \<open>
  What happens in the end. The runs here are infinite interleavings of the steps of \<open>Pool_Run\<close>, and the only thing asked of the
  scheduler is weak fairness: a handler that can take a turn for ever takes one, and so do the goroutines that wait
  for dependencies. For a handler that runs a job this includes that the job returns. Under it every accepted job runs and
  its result reaches the caller's handle, and a \<^verbatim>\<open>Close\<close> that has begun comes to its end.
\<close>

section \<open>The turns of a handler\<close>

definition handler_turn ::
  "('art, 'err) datura \<Rightarrow> 'v codec \<Rightarrow> (string \<Rightarrow> go_error) \<Rightarrow> nat \<Rightarrow> nat \<Rightarrow> nat \<Rightarrow> ('v, 'art) pool_sys \<Rightarrow> ('v, 'art) pool_sys \<Rightarrow> bool" where
  "handler_turn D J E k n i s s' \<longleftrightarrow> pool_step D J E k n s s' \<and> (cursor s' i \<noteq> cursor s i \<or> running s' i \<noteq> running s i)"

text \<open>How far a handler is: two units for every number it has passed, and one more while it runs a job.\<close>

definition turns :: "nat \<Rightarrow> ('v, 'art) pool_sys \<Rightarrow> nat" where
  "turns i s = 2 * cursor s i + (if running s i = None then 0 else 1)"

lemma handler_moves:
  assumes "pool_step D J E k n s s'"
  shows "cursor s' i = cursor s i \<and> (running s' i = running s i \<or> running s i = None) \<or> cursor s' i = Suc (cursor s i) \<and> running s' i = None"
  using assms by cases (simp_all add: enter_def)

lemma turns_step:
  assumes "pool_step D J E k n s s'"
  shows "turns i s \<le> turns i s'" "cursor s i \<le> cursor s' i" "handler_turn D J E k n i s s' \<Longrightarrow> turns i s < turns i s'"
  using handler_moves [OF assms, of i] by (auto simp: turns_def handler_turn_def)

lemma cursor_run:
  assumes "is_run (pool_step D J E k n) \<sigma>" "t \<le> u"
  shows "cursor (\<sigma> t) i \<le> cursor (\<sigma> u) i"
  using run_reaches [OF assms] by (induction rule: rtranclp_induct) (auto dest: turns_step(2) [where i = i] intro: order_trans)

interpretation handler: fair_progress "pool_step D J E k n" "handler_turn D J E k n i"
  "\<lambda>s. sys_inv D J uuid k n s \<and> i < n \<and> x < published s" "\<lambda>s. x < cursor s i" "\<lambda>s. 2 * Suc x - turns i s"
  for D :: "('art, 'err) datura" and J :: "'v codec" and E k n i uuid x
proof unfold_locales
  fix s s' :: "('v, 'art) pool_sys"
  assume inv: "sys_inv D J uuid k n s \<and> i < n \<and> x < published s" and g: "\<not> x < cursor s i"
  show "\<exists>s'. handler_turn D J E k n i s s'"
    using handler_progress [of D J uuid k n s i E "\<lambda>_. undefined"] inv g by (auto simp: handler_turn_def)
  show "sys_inv D J uuid k n s' \<and> i < n \<and> x < published s'" if "pool_step D J E k n s s'"
    using sys_inv_step [OF _ that] step_grows(1) [OF that] inv by auto
  show "x < cursor s' i \<or> 2 * Suc x - turns i s' \<le> 2 * Suc x - turns i s" if "pool_step D J E k n s s'"
    using turns_step(1) [OF that, of i] by linarith
  show "x < cursor s' i \<or> 2 * Suc x - turns i s' < 2 * Suc x - turns i s" if t: "handler_turn D J E k n i s s'"
  proof -
    have "turns i s < turns i s'" using turns_step(3) [OF _ t] t by (simp add: handler_turn_def)
    moreover have "turns i s < 2 * Suc x" using g by (simp add: turns_def)
    ultimately show ?thesis by linarith
  qed
qed

text \<open>In a fair run every handler passes every published number, and so every published job is done for good.\<close>

lemma all_pass:
  fixes \<sigma> :: "nat \<Rightarrow> ('v, 'art) pool_sys"
  assumes "is_run (pool_step D J E k n) \<sigma>" "\<forall>i<n. weakly_fair (handler_turn D J E k n i) \<sigma>" "sys_inv D J uuid k n (\<sigma> t)" "x < published (\<sigma> t)"
  shows "\<exists>u\<ge>t. \<forall>v\<ge>u. \<forall>i<n. x < cursor (\<sigma> v) i"
proof -
  have "\<exists>u\<ge>t. \<forall>v\<ge>u. \<forall>i<j. x < cursor (\<sigma> v) i" if "j \<le> n" for j
    using that
  proof (induction j)
    case (Suc j)
    then obtain u where u: "t \<le> u" "\<forall>v\<ge>u. \<forall>i<j. x < cursor (\<sigma> v) i" by auto
    obtain w where w: "t \<le> w" "x < cursor (\<sigma> w) j"
      using handler.reaches [OF assms(1), of j uuid t x] assms(2-4) Suc.prems by auto
    have "\<forall>v\<ge>max u w. \<forall>i<Suc j. x < cursor (\<sigma> v) i"
      using u(2) w(2) cursor_run [OF assms(1), of w _ j] by (fastforce simp: less_Suc_eq)
    then show ?case using u(1) by (intro exI [of _ "max u w"]) auto
  qed auto
  then show ?thesis by blast
qed

lemma fair_runs_finish:
  fixes \<sigma> :: "nat \<Rightarrow> ('v, 'art) pool_sys"
  assumes "is_run (pool_step D J E k n) \<sigma>" "\<forall>i<n. weakly_fair (handler_turn D J E k n i) \<sigma>" "sys_inv D J uuid k n (\<sigma> t)" "x < published (\<sigma> t)"
  shows "\<exists>u\<ge>t. \<forall>v\<ge>u. x \<in> set (jobs_run (\<sigma> v))"
proof -
  obtain u where u: "t \<le> u" "\<forall>v\<ge>u. \<forall>i<n. x < cursor (\<sigma> v) i" using all_pass [OF assms] by blast
  have "x \<in> set (jobs_run (\<sigma> v))" if "u \<le> v" for v
  proof -
    have r: "(pool_step D J E k n)\<^sup>*\<^sup>* (\<sigma> t) (\<sigma> v)" by (rule run_reaches [OF assms(1)]) (use u(1) that in simp)
    have inv: "sys_inv D J uuid k n (\<sigma> v)" by (rule sys_inv_run [OF r assms(3)])
    then have seqs: "seqs_ok k n (\<sigma> v)" by (auto simp: sys_inv_def work_ok_def)
    have x: "x < published (\<sigma> v)" using run_grows [OF r] assms(4) by simp
    have "x < cursor (\<sigma> v) i" if "i < n" for i using u(2) \<open>u \<le> v\<close> that by blast
    then have "is_done (\<sigma> v) x"
      using seqs_owner [OF seqs x] staff_ok_bounds(5) [OF sys_inv_staff [OF inv]] by (force simp: is_done_def)
    then show ?thesis using seqs x by (simp add: seqs_ok_def)
  qed
  then show ?thesis using u(1) by blast
qed


section \<open>Close comes to its end\<close>

lemma settle_returns:
  assumes "breaker_known job" "qs_inv (space q)"
  shows "\<exists>q'. settleDependentJob D J r (Some err) job q = Some q'"
proof -
  obtain c where c: "record_breaker (RecordFailure (dep_failed_now r)) job (record_outcome (since (dep_now r) (StartTime job)) False q) =
      Some ((record_outcome (since (dep_now r) (StartTime job)) False q)\<lparr>breakers := c\<rparr>)"
    using record_breaker_returns assms(1) unfolding breaker_known_def by blast
  obtain s where "StoreError D J (ID job) (Some err) (TTL job) (space q) = Some s"
    using space_step_inv [OF assms(2), of D J "SStoreError (ID job) (Some err) (TTL job)"] by auto
  then show ?thesis using c by (simp add: settleDependentJob_def recordDependencyFailure_def Let_def publish_event_def record_outcome_def)
qed

text \<open>A goroutine that waits for dependencies can end with the error of the cancelled context.\<close>

definition cancelled_run :: "'v dep_run" where
  "cancelled_run = \<lparr>dep_order = [], dep_ctx = None,
     dep_enq = \<lparr>pool_before = None, rounds = [], pool_after = None, ctx_after = None, pool_done = None\<rparr>, dep_now = 0, dep_failed_now = 0\<rparr>"

definition dependency_turn ::
  "('art, 'err) datura \<Rightarrow> 'v codec \<Rightarrow> (string \<Rightarrow> go_error) \<Rightarrow> nat \<Rightarrow> nat \<Rightarrow> ('v, 'art) pool_sys \<Rightarrow> ('v, 'art) pool_sys \<Rightarrow> bool" where
  "dependency_turn D J E k n s s' \<longleftrightarrow>
     pool_step D J E k n s s' \<and> length (resolving (sys_pool s')) < length (resolving (sys_pool s))"

lemma dependency_enabled:
  assumes "sys_inv D J uuid k n s" "stopping (core (sys_pool s))" "resolving (sys_pool s) \<noteq> []"
  shows "\<exists>s'. dependency_turn D J E k n s s'"
proof -
  obtain job js where Cons: "resolving (sys_pool s) = job # js" using assms(3) by (cases "resolving (sys_pool s)") auto
  have job: "job \<in> set (resolving (sys_pool s))" "breaker_known job"
    using Cons staff_ok_leave(2) [OF sys_inv_staff [OF assms(1)], of job] by simp_all
  obtain q where q: "settleDependentJob D J cancelled_run (Some pool_closed) job (sys_pool s) = Some q"
    using settle_returns [OF job(2) sys_inv_view(1) [OF assms(1)]] by blast
  show ?thesis unfolding dependency_turn_def
    by (intro exI conjI, rule pool_step.dependency_failed [OF job(1) q]) (use settle_stopping(2) [OF job(2) assms(2) q] Cons in simp)
qed

interpretation closing: fair_progress "pool_step D J E k n" "dependency_turn D J E k n"
  "\<lambda>s. sys_inv D J uuid k n s \<and> stopping (core (sys_pool s))" "\<lambda>s. resolving (sys_pool s) = []" "\<lambda>s. length (resolving (sys_pool s))"
  for D :: "('art, 'err) datura" and J :: "'v codec" and E k n uuid
proof unfold_locales
  fix s s' :: "('v, 'art) pool_sys"
  assume inv: "sys_inv D J uuid k n s \<and> stopping (core (sys_pool s))" and g: "resolving (sys_pool s) \<noteq> []"
  show "\<exists>s'. dependency_turn D J E k n s s'" using dependency_enabled inv g by blast
qed (auto simp: dependency_turn_def dest: stopping_step sys_inv_step)

lemma dependencies_end:
  assumes "sys_inv D J uuid k n s" "stopping (core (sys_pool s))"
  shows "\<exists>s'. (pool_step D J E k n)\<^sup>*\<^sup>* s s' \<and> resolving (sys_pool s') = []"
  using assms
proof (induction "length (resolving (sys_pool s))" arbitrary: s rule: less_induct)
  case less
  show ?case
  proof (cases "resolving (sys_pool s) = []")
    case False
    then obtain s1 where s1: "pool_step D J E k n s s1" "length (resolving (sys_pool s1)) < length (resolving (sys_pool s))"
      using dependency_enabled [OF less.prems, of E] by (auto simp: dependency_turn_def)
    from less.hyps [OF s1(2)] show ?thesis
      using sys_inv_step [OF less.prems(1) s1(1)] stopping_step [OF less.prems s1(1)] s1(1) by (meson converse_rtranclp_into_rtranclp)
  qed blast
qed

text \<open>The rest of \<^verbatim>\<open>Close\<close>, after the dependency goroutines have ended.\<close>

lemma end_close_returns:
  assumes "sys_inv D J uuid k n s" "stopping (core (sys_pool s))"
  shows "\<exists>lc sp. end_close True (\<lambda>x. Option.bind x space_Close) (core (sys_pool s), Some (space (sys_pool s))) = Some (lc, Some sp) \<and>
    stopping lc \<and> workerCount (lc_metrics lc) = 0 \<and>
    (\<forall>x i. owns (entries (space (sys_pool s))) x i \<longrightarrow> state (Registry.slot_at (entries sp) x) = slotClosed) \<and>
    (\<forall>i. space_PeekResult D i sp = (None, False))"
proof -
  obtain ts where "lc_inv (core (sys_pool s)) ts" using sys_inv_staff [OF assms(1)] by (auto simp: staff_ok_def)
  note ends = end_close_refines [OF this, of "\<lambda>x. Option.bind x space_Close" "Some (space (sys_pool s))"]
  have "space_run D J (map snd (history s)) (NewQSpace uuid) = Some (space (sys_pool s))" using assms(1) by (simp add: sys_inv_def)
  from space_run_groups [OF this] have "groups (space (sys_pool s)) = []" by (simp add: NewQSpace_def)
  from space_Close_spec [OF sys_inv_view(1) [OF assms(1)] this] obtain sp where
    sp: "space_Close (space (sys_pool s)) = Some sp" "stopped sp"
      "\<forall>x i. owns (entries (space (sys_pool s))) x i \<longrightarrow> state (Registry.slot_at (entries sp) x) = slotClosed" by fastforce
  then obtain lc where "end_close True (\<lambda>x. Option.bind x space_Close) (core (sys_pool s), Some (space (sys_pool s))) = Some (lc, Some sp)"
    "lc_inv lc []" "stopping lc" using ends assms(2) by auto
  moreover have "\<forall>i. space_PeekResult D i sp = (None, False)" using sp(2) by (simp add: space_PeekResult_def)
  ultimately show ?thesis using sp(3) by (intro exI [of _ lc] exI [of _ sp]) (simp add: lc_inv_def)
qed


section \<open>Fair runs of the sample pool\<close>

text \<open>A handler that has passed all published numbers has no turn.\<close>

lemma no_turn:
  assumes "sys_inv D J uuid k n s" "i < n" "cursor s i = published s"
  shows "\<nexists>s'. handler_turn D J E k n i s s'"
proof
  assume "\<exists>s'. handler_turn D J E k n i s s'"
  then obtain s' where s': "pool_step D J E k n s s'" "cursor s' i \<noteq> cursor s i \<or> running s' i \<noteq> running s i" by (auto simp: handler_turn_def)
  have "seqs_ok k n s" using assms(1) by (auto simp: sys_inv_def work_ok_def)
  then have "running s i = None" using seqs_running(1) [of k n s i] assms(2,3) by (cases "running s i") auto
  with s' assms(3) show False by cases (auto simp: enter_def split: if_splits)
qed

text \<open>A sample job is scheduled, its caller takes the handle, and the handlers drain the queue; then the pool is idle.\<close>

lemma sample_fair_run:
  "\<exists>(q :: (int, envelope) Q) k q1 h sp \<sigma> w. new_pool [] 0 2 small_config q k 2 \<and> space_view (space q) ''j'' = None \<and>
     Schedule_submit envelopes number_codec AppError first_sched ''j'' answer [] q = Some (Queued first_job, q1) \<and>
     reserve_ok k 2 (new_sys q) (enq first_sched) \<and>
     Await envelopes number_codec ''j'' (space q1) = (h, sp) \<and> is_run (pool_step envelopes number_codec AppError k 2) \<sigma> \<and> \<sigma> 0 = new_sys q \<and>
     \<sigma> 1 = enter first_job q1 (new_sys q) \<and> \<sigma> 2 = (\<sigma> 1)\<lparr>sys_pool := q1\<lparr>space := sp\<rparr>, history := [(None, SAwait ''j'')]\<rparr> \<and>
     (\<forall>j<2. weakly_fair (handler_turn envelopes number_codec AppError k 2 j) \<sigma>) \<and>
     (\<forall>v\<ge>w. \<forall>(y, op)\<in>set (history (\<sigma> v)). y = None \<and> op = SAwait ''j'' \<or> y = Some 0 \<and> op = SStore ''j'' (VOther 42) 0)"
proof -
  obtain q :: "(int, envelope) Q" and k q1 where q: "new_pool [] 0 2 small_config q k 2" "space_view (space q) ''j'' = None"
    "Schedule_submit envelopes number_codec AppError first_sched ''j'' answer [] q = Some (Queued first_job, q1)"
    "reserve_ok k 2 (new_sys q) (enq first_sched)"
    using sample_entered by blast
  let ?S = "pool_step envelopes number_codec AppError k 2"
  let ?s1 = "new_sys q" and ?s2 = "enter first_job q1 (new_sys q)"
  obtain h sp where h: "Await envelopes number_codec ''j'' (space q1) = (h, sp)" by fastforce
  let ?s = "?s2\<lparr>sys_pool := q1\<lparr>space := sp\<rparr>, history := [(None, SAwait ''j'')]\<rparr>"
  have st: "?S ?s1 ?s2" using q(3) by (intro pool_step.submit_queued [OF _ q(4)]) (simp add: new_sys_def)
  have st2: "?S ?s2 ?s"
    using pool_step.space_call [of envelopes number_codec "SAwait ''j''" ?s2 sp AppError k 2] by (simp add: h enter_def new_sys_def)
  have run: "?S\<^sup>*\<^sup>* ?s1 ?s" by (rule rtranclp_trans [OF r_into_rtranclp r_into_rtranclp]) (rule st, rule st2)
  obtain s3 where s3: "?S\<^sup>*\<^sup>* ?s s3" "published s3 = 1" "\<forall>i<2. cursor s3 i = published s3"
    "\<forall>(y, op)\<in>set (history s3) - {(None, SAwait ''j'')}. \<exists>x (p :: (int, envelope) Q). y = Some x \<and> op = outcome_op sample_run p (job_of ?s x)"
    using handlers_drain [OF new_pool_inv [OF q(1) run], of AppError "\<lambda>_. sample_run"] by (auto simp: enter_def new_sys_def)
  have inv: "sys_inv envelopes number_codec [] k 2 s3" by (rule new_pool_inv [OF q(1) rtranclp_trans [OF run s3(1)]])
  then have "mset (jobs_run s3) = mset [0..<1]" using drained(1) [of k 2 s3] s3(2,3) by (auto simp: sys_inv_def work_ok_def)
  then have ran: "set (jobs_run s3) = {0}" by (auto dest: mset_eq_setD)
  have "job_of ?s 0 = first_job" by (simp add: enter_def new_sys_def)
  note hist = sample_history [OF s3(4) this ran]
  obtain xs where xs: "xs \<noteq> []" "hd xs = ?s" "last xs = s3" "is_run ?S (idle_after xs)" using finite_run [OF s3(1)] by blast
  let ?\<sigma> = "idle_after (?s1 # ?s2 # xs)"
  have "is_run ?S ?\<sigma>" using xs st st2 by (intro run_Cons) simp_all
  moreover have "?\<sigma> 0 = ?s1" "?\<sigma> 1 = ?s2" "?\<sigma> 2 = ?s"
    using xs(1,2) idle_after_ends(1) [OF xs(1)] by (simp_all add: idle_after_Cons numeral_2_eq_2)
  moreover have "\<forall>j<2. weakly_fair (handler_turn envelopes number_codec AppError k 2 j) ?\<sigma>"
    using no_turn [OF inv] s3(3) xs(1,3) by (auto intro!: idle_after_fair)
  moreover have "\<forall>v\<ge>length (?s1 # ?s2 # xs). ?\<sigma> v = s3" using idle_after_ends(2) [of "?s1 # ?s2 # xs"] xs(1,3) by simp
  ultimately show ?thesis
    using q h hist by (intro exI [of _ q] exI [of _ k] exI [of _ q1] exI [of _ h] exI [of _ sp] exI [of _ ?\<sigma>] exI [of _ "length (?s1 # ?s2 # xs)"]) auto
qed



end
