(* ===== verification/Fastpath.thy ===== *)
theory Fastpath
  imports Intrusive_List Job "HOL-Library.Multiset"
begin

text \<open>
  \<^verbatim>\<open>fastpath.go\<close>: the executor that bypasses the queue. Idle workers wait on a lock-free stack whose nodes come from, and
  return to, a \<^verbatim>\<open>sync.Pool\<close>; which pooled node an allocation gets is the argument \<open>pick\<close>. The
  first part has the stack operations run without interference, the second the stack in single
  loads and swaps, the third the workers, whose parking and waking is \<^verbatim>\<open>fast_park\<close> and
  \<^verbatim>\<open>safe_ready\<close> of \<^verbatim>\<open>lib_runtime_linkage.go\<close>. The stack of \<^verbatim>\<open>Invoke\<close> has the same code over
  \<^verbatim>\<open>dataItem\<close> and the pool's own \<^verbatim>\<open>alloc\<close> and \<^verbatim>\<open>free\<close>.
\<close>

section \<open>The stack\<close>

record 'a fast_node =
  fnode_next :: "nat option"
  fnode_value :: "'a option"

record 'a item_stack =
  stack_top :: "nat option"
  item :: "nat \<Rightarrow> 'a fast_node"
  items_free :: nat
  itemPool :: "nat list"

definition empty_stack :: "'a item_stack" where
  "empty_stack = \<lparr>stack_top = None, item = (\<lambda>_. \<lparr>fnode_next = None, fnode_value = None\<rparr>), items_free = 0, itemPool = []\<rparr>"

text \<open>\<^verbatim>\<open>itemAlloc\<close>: a pooled node, or a new one.\<close>

definition itemAlloc :: "nat option \<Rightarrow> 'a item_stack \<Rightarrow> nat \<times> 'a item_stack" where
  "itemAlloc pick st =
     (case pick of
        Some k \<Rightarrow>
          if k < length (itemPool st)
          then (itemPool st ! k, st\<lparr>itemPool := take k (itemPool st) @ drop (Suc k) (itemPool st)\<rparr>)
          else (items_free st, st\<lparr>items_free := Suc (items_free st)\<rparr>)
      | None \<Rightarrow> (items_free st, st\<lparr>items_free := Suc (items_free st)\<rparr>))"

definition itemFree :: "nat \<Rightarrow> 'a item_stack \<Rightarrow> 'a item_stack" where
  "itemFree x st = st\<lparr>itemPool := x # itemPool st\<rparr>"

definition set_item :: "nat \<Rightarrow> ('a fast_node \<Rightarrow> 'a fast_node) \<Rightarrow> 'a item_stack \<Rightarrow> 'a item_stack" where
  "set_item x f st = st\<lparr>item := (item st)(x := f (item st x))\<rparr>"

text \<open>What follows the successful swap of \<^verbatim>\<open>pop\<close>.\<close>

definition take_item :: "nat \<Rightarrow> 'a item_stack \<Rightarrow> 'a option \<times> 'a item_stack" where
  "take_item x st =
     (fnode_value (item st x),
      itemFree x (set_item x (\<lambda>n. n\<lparr>fnode_value := None, fnode_next := None\<rparr>) st))"

definition pop :: "'a item_stack \<Rightarrow> 'a option \<times> 'a item_stack" where
  "pop st =
     (case stack_top st of
        None \<Rightarrow> (None, st)
      | Some x \<Rightarrow> take_item x (st\<lparr>stack_top := fnode_next (item st x)\<rparr>))"

definition push :: "nat option \<Rightarrow> 'a \<Rightarrow> 'a item_stack \<Rightarrow> 'a item_stack" where
  "push pick v st =
     (let (x, st1) = itemAlloc pick st;
          st2 = set_item x (\<lambda>n. n\<lparr>fnode_value := Some v\<rparr>) st1;
          st3 = set_item x (\<lambda>n. n\<lparr>fnode_next := stack_top st2\<rparr>) st2
      in st3\<lparr>stack_top := Some x\<rparr>)"

text \<open>The stack of \<^verbatim>\<open>Invoke\<close>: \<^verbatim>\<open>alloc\<close> and \<^verbatim>\<open>free\<close> are fields of the pool, nil unless something sets them. A call
  of a nil function panics.\<close>

definition fnPop :: "(nat \<Rightarrow> 'a item_stack \<Rightarrow> 'a item_stack) option \<Rightarrow> 'a item_stack \<Rightarrow> ('a option \<times> 'a item_stack) option" where
  "fnPop free st =
     (case stack_top st of
        None \<Rightarrow> Some (None, st)
      | Some x \<Rightarrow>
          (case free of
             None \<Rightarrow> None
           | Some f \<Rightarrow>
               Some (fnode_value (item st x),
                     f x (set_item x (\<lambda>n. n\<lparr>fnode_value := None, fnode_next := None\<rparr>) (st\<lparr>stack_top := fnode_next (item st x)\<rparr>)))))"

definition fnPush :: "('a item_stack \<Rightarrow> nat \<times> 'a item_stack) option \<Rightarrow> 'a \<Rightarrow> 'a item_stack \<Rightarrow> 'a item_stack option" where
  "fnPush alloc v st =
     (case alloc of
        None \<Rightarrow> None
      | Some al \<Rightarrow>
          (let (x, st1) = al st;
               st2 = set_item x (\<lambda>n. n\<lparr>fnode_value := Some v\<rparr>) st1;
               st3 = set_item x (\<lambda>n. n\<lparr>fnode_next := stack_top st2\<rparr>) st2
           in Some (st3\<lparr>stack_top := Some x\<rparr>)))"

definition stack_holds :: "'a item_stack \<Rightarrow> 'a list \<Rightarrow> bool" where
  "stack_holds st vs \<longleftrightarrow>
     (\<exists>xs. chain (\<lambda>x. fnode_next (item st x)) (stack_top st) xs \<and> distinct (xs @ itemPool st) \<and>
        (\<forall>x\<in>set (xs @ itemPool st). x < items_free st) \<and> map (\<lambda>x. fnode_value (item st x)) xs = map Some vs)"

lemma stack_holds_empty: "stack_holds empty_stack []"
  by (auto simp: stack_holds_def empty_stack_def)

lemma chain_other: "(\<And>x. x \<in> set xs \<Longrightarrow> f x = g x) \<Longrightarrow> chain f h xs = chain g h xs"
  by (induction xs arbitrary: h) auto

lemma itemAlloc_fresh:
  assumes "itemAlloc pick st = (x, st')" "distinct (xs @ itemPool st)" "\<forall>y\<in>set (xs @ itemPool st). y < items_free st"
  shows "item st' = item st" "stack_top st' = stack_top st" "distinct (x # xs @ itemPool st')"
    "\<forall>y\<in>set (x # xs @ itemPool st'). y < items_free st'"
proof -
  consider k where "k < length (itemPool st)" "x = itemPool st ! k" "st' = st\<lparr>itemPool := take k (itemPool st) @ drop (Suc k) (itemPool st)\<rparr>"
    | "x = items_free st" "st' = st\<lparr>items_free := Suc (items_free st)\<rparr>"
    using assms(1) by (auto simp: itemAlloc_def split: option.splits if_split_asm)
  then have "item st' = item st \<and> stack_top st' = stack_top st \<and> distinct (x # xs @ itemPool st') \<and> (\<forall>y\<in>set (x # xs @ itemPool st'). y < items_free st')"
  proof cases
    case (1 k)
    have split: "itemPool st = take k (itemPool st) @ x # drop (Suc k) (itemPool st)" using 1 by (simp add: id_take_nth_drop)
    have "distinct (xs @ take k (itemPool st) @ x # drop (Suc k) (itemPool st))" using assms(2) split by metis
    moreover have "\<forall>y\<in>set (xs @ take k (itemPool st) @ x # drop (Suc k) (itemPool st)). y < items_free st" using assms(3) split by metis
    ultimately show ?thesis using 1(3) by auto
  next
    case 2
    then show ?thesis using assms(2,3) by (auto simp: less_Suc_eq)
  qed
  then show "item st' = item st" "stack_top st' = stack_top st" "distinct (x # xs @ itemPool st')"
    "\<forall>y\<in>set (x # xs @ itemPool st'). y < items_free st'" by blast+
qed

lemma push_refines:
  assumes "stack_holds st vs"
  shows "stack_holds (push pick v st) (v # vs)"
proof -
  obtain xs where xs: "chain (\<lambda>x. fnode_next (item st x)) (stack_top st) xs" "distinct (xs @ itemPool st)"
    "\<forall>x\<in>set (xs @ itemPool st). x < items_free st" "map (\<lambda>x. fnode_value (item st x)) xs = map Some vs"
    using assms by (auto simp: stack_holds_def)
  obtain x st1 where al: "itemAlloc pick st = (x, st1)" by (cases "itemAlloc pick st")
  note f = itemAlloc_fresh [OF al xs(2,3)]
  let ?st = "push pick v st"
  have p: "item ?st = (item st)(x := \<lparr>fnode_next = stack_top st, fnode_value = Some v\<rparr>)" "stack_top ?st = Some x"
    "itemPool ?st = itemPool st1" "items_free ?st = items_free st1"
    using f(1,2) by (cases "item st x"; simp add: push_def al set_item_def)+
  have nx: "x \<notin> set xs" using f(3) by simp
  have "chain (\<lambda>y. fnode_next (item ?st y)) (stack_top st) xs = chain (\<lambda>y. fnode_next (item st y)) (stack_top st) xs"
    using nx by (intro chain_other) (auto simp: p(1))
  moreover have "map (\<lambda>y. fnode_value (item ?st y)) xs = map (\<lambda>y. fnode_value (item st y)) xs" using nx by (auto simp: p(1))
  ultimately show ?thesis unfolding stack_holds_def
    using xs(1,4) f(3,4) p by (intro exI [of _ "x # xs"]) simp
qed

lemma pop_refines:
  assumes "stack_holds st vs" "pop st = (r, st')"
  shows "stack_holds st' (tl vs) \<and> r = (case vs of [] \<Rightarrow> None | v # _ \<Rightarrow> Some v)"
proof -
  obtain xs where xs: "chain (\<lambda>x. fnode_next (item st x)) (stack_top st) xs" "distinct (xs @ itemPool st)"
    "\<forall>x\<in>set (xs @ itemPool st). x < items_free st" "map (\<lambda>x. fnode_value (item st x)) xs = map Some vs"
    using assms(1) by (auto simp: stack_holds_def)
  show ?thesis
  proof (cases xs)
    case Nil
    then show ?thesis using assms xs by (auto simp: pop_def)
  next
    case (Cons x ys)
    obtain v ws where vs: "vs = v # ws" using xs(4) Cons by (cases vs) auto
    have st': "r = Some v" "stack_top st' = fnode_next (item st x)" "itemPool st' = x # itemPool st" "items_free st' = items_free st"
      "item st' = (item st)(x := \<lparr>fnode_next = None, fnode_value = None\<rparr>)"
      using assms(2) xs(1,4) Cons vs by (auto simp: pop_def take_item_def itemFree_def set_item_def)
    have nx: "x \<notin> set ys" using xs(2) Cons by simp
    have "chain (\<lambda>y. fnode_next (item st' y)) (fnode_next (item st x)) ys = chain (\<lambda>y. fnode_next (item st y)) (fnode_next (item st x)) ys"
      using nx by (intro chain_other) (auto simp: st'(5))
    moreover have mv: "map (\<lambda>y. fnode_value (item st' y)) ys = map Some ws"
    proof -
      have "map (\<lambda>y. fnode_value (item st' y)) ys = map (\<lambda>y. fnode_value (item st y)) ys" using nx by (auto simp: st'(5))
      also have "\<dots> = map Some ws" using xs(4) Cons vs by simp
      finally show ?thesis .
    qed
    ultimately have "stack_holds st' ws" unfolding stack_holds_def
      using xs(1-3) Cons st'(2-4) by (intro exI [of _ ys] conjI) auto
    then show ?thesis using st'(1) vs by simp
  qed
qed

datatype 'a stack_op = SPush "nat option" 'a | SPop

fun stack_run :: "'a stack_op list \<Rightarrow> 'a item_stack \<Rightarrow> 'a option list \<times> 'a item_stack" where
  "stack_run [] st = ([], st)"
| "stack_run (SPush pick v # ops) st = stack_run ops (push pick v st)"
| "stack_run (SPop # ops) st = (let (r, st') = pop st; (rs, st'') = stack_run ops st' in (r # rs, st''))"

fun list_run :: "'a stack_op list \<Rightarrow> 'a list \<Rightarrow> 'a option list \<times> 'a list" where
  "list_run [] vs = ([], vs)"
| "list_run (SPush pick v # ops) vs = list_run ops (v # vs)"
| "list_run (SPop # ops) vs =
     (let (rs, ws) = list_run ops (tl vs) in ((case vs of [] \<Rightarrow> None | v # _ \<Rightarrow> Some v) # rs, ws))"

lemma stack_run_refines:
  "stack_holds st vs \<Longrightarrow> fst (stack_run ops st) = fst (list_run ops vs) \<and> stack_holds (snd (stack_run ops st)) (snd (list_run ops vs))"
proof (induction ops arbitrary: st vs)
  case (Cons op ops)
  show ?case
  proof (cases op)
    case SPop
    obtain r st' where p: "pop st = (r, st')" by (cases "pop st")
    from pop_refines [OF Cons.prems p] Cons.IH [of st' "tl vs"] show ?thesis by (auto simp: SPop p split: prod.splits)
  next
    case (SPush pick v)
    then show ?thesis using Cons.IH [OF push_refines [OF Cons.prems]] by simp
  qed
qed simp

text \<open>Run without interference, the stack of idle workers is a last-in first-out list, whichever pooled nodes the
  allocations get: every sequence of pushes and pops on an empty stack returns what it returns on a
  list.\<close>

theorem fast_stack_lifo:
  "\<exists>st. stack_run ops empty_stack = (fst (list_run ops []), st) \<and> stack_holds st (snd (list_run ops []))"
  using stack_run_refines [OF stack_holds_empty, of ops] by (metis prod.collapse)

section \<open>The stack in single steps\<close>

text \<open>The positions of a goroutine in \<^verbatim>\<open>pop\<close> and \<^verbatim>\<open>push\<close>: each loads, stores or swaps one word at a step; clearing a
  node and returning it to the pool is one step, which only favours the code.\<close>

datatype 'a fast_pc =
    PopLoad
  | PopNext nat
  | PopCas nat "nat option"
  | PopTake nat
  | Popped "'a option"
  | PushAlloc 'a
  | PushLoad nat
  | PushNext nat "nat option"
  | PushCas nat "nat option"
  | Pushed

definition stack_step :: "nat option \<Rightarrow> 'a fast_pc \<times> 'a item_stack \<Rightarrow> 'a fast_pc \<times> 'a item_stack" where
  "stack_step pick = (\<lambda>(pc, st).
     case pc of
       PopLoad \<Rightarrow> (case stack_top st of None \<Rightarrow> (Popped None, st) | Some x \<Rightarrow> (PopNext x, st))
     | PopNext x \<Rightarrow> (PopCas x (fnode_next (item st x)), st)
     | PopCas x n \<Rightarrow> if stack_top st = Some x then (PopTake x, st\<lparr>stack_top := n\<rparr>) else (PopLoad, st)
     | PopTake x \<Rightarrow> (let (v, st') = take_item x st in (Popped v, st'))
     | Popped v \<Rightarrow> (Popped v, st)
     | PushAlloc v \<Rightarrow> (let (x, st1) = itemAlloc pick st in (PushLoad x, set_item x (\<lambda>n. n\<lparr>fnode_value := Some v\<rparr>) st1))
     | PushLoad x \<Rightarrow> (PushNext x (stack_top st), st)
     | PushNext x t \<Rightarrow> (PushCas x t, set_item x (\<lambda>n. n\<lparr>fnode_next := t\<rparr>) st)
     | PushCas x t \<Rightarrow> if stack_top st = t then (Pushed, st\<lparr>stack_top := Some x\<rparr>) else (PushLoad x, st)
     | Pushed \<Rightarrow> (Pushed, st))"

text \<open>Run alone, the steps are the operations of the first part.\<close>

lemma pop_steps:
  "\<exists>n. ((\<lambda>s. stack_step pick s) ^^ n) (PopLoad, st) = (Popped (fst (pop st)), snd (pop st))"
proof (cases "stack_top st")
  case None
  then show ?thesis by (intro exI [of _ 1]) (simp add: stack_step_def pop_def)
next
  case (Some x)
  then show ?thesis by (intro exI [of _ "Suc (Suc (Suc (Suc 0)))"]) (simp add: stack_step_def pop_def take_item_def)
qed

lemma push_steps: "\<exists>n. ((\<lambda>s. stack_step pick s) ^^ n) (PushAlloc v, st) = (Pushed, push pick v st)"
proof -
  obtain x st1 where "itemAlloc pick st = (x, st1)" by (cases "itemAlloc pick st")
  then show ?thesis by (intro exI [of _ "Suc (Suc (Suc (Suc 0)))"]) (simp add: stack_step_def push_def set_item_def)
qed

text \<open>Two goroutines, each with the calls it still has to make; the schedule says who moves and which pooled node an
  allocation gets.\<close>

fun finished :: "'a fast_pc \<Rightarrow> bool" where
  "finished (Popped v) = True"
| "finished Pushed = True"
| "finished _ = False"

fun goroutine_step ::
  "nat option \<Rightarrow> ('a fast_pc list \<times> 'a fast_pc list) \<times> 'a item_stack \<Rightarrow> ('a fast_pc list \<times> 'a fast_pc list) \<times> 'a item_stack" where
  "goroutine_step pick ((dn, []), st) = ((dn, []), st)"
| "goroutine_step pick ((dn, pc # todo), st) =
     (let (pc', st') = stack_step pick (pc, st)
      in if finished pc' then ((dn @ [pc'], todo), st') else ((dn, pc' # todo), st'))"

fun duo_run ::
  "(bool \<times> nat option) list \<Rightarrow> ('a fast_pc list \<times> 'a fast_pc list) \<Rightarrow> ('a fast_pc list \<times> 'a fast_pc list) \<Rightarrow> 'a item_stack \<Rightarrow>
   ('a fast_pc list \<times> 'a fast_pc list) \<times> ('a fast_pc list \<times> 'a fast_pc list) \<times> 'a item_stack" where
  "duo_run [] g h st = (g, h, st)"
| "duo_run ((b, pick) # bs) g h st =
     (if b then let (g', st') = goroutine_step pick (g, st) in duo_run bs g' h st'
      else let (h', st') = goroutine_step pick (h, st) in duo_run bs g h' st')"


section \<open>Workers\<close>

text \<open>
  A worker runs its task, pushes itself and parks; a caller of \<^verbatim>\<open>ScheduleFast\<close> pops a worker, writes the task into its
  slot and, in \<^verbatim>\<open>safe_ready\<close>, spins until the worker is parked before it makes it runnable. The
  counter of workers is a 64-bit word, and a caller that finds it above the maximum takes its increment back in a step
  of its own. A pop and a push are one step here. \<open>submitted\<close> and
  \<open>executed\<close> are the tasks that callers handed over and that workers have run.
\<close>

datatype worker_status = WRunning | WPushed | WWaiting

record 't fast_state =
  workers_stack :: "nat item_stack"
  status :: "nat \<Rightarrow> worker_status"
  slot_task :: "nat \<Rightarrow> 't option"
  waking :: "nat list"
  spawned :: nat
  counter :: u64
  undoing :: nat
  submitted :: "'t list"
  executed :: "'t list"

definition fast_start :: "'t fast_state" where
  "fast_start = \<lparr>workers_stack = empty_stack, status = (\<lambda>_. WRunning), slot_task = (\<lambda>_. None), waking = [], spawned = 0,
     counter = 0, undoing = 0, submitted = [], executed = []\<rparr>"

definition uint64SubtractionConstant :: u64 where
  "uint64SubtractionConstant = - 1"

text \<open>One round of the loop of \<^verbatim>\<open>ScheduleFast\<close>, up to the yield.\<close>

definition fast_dispatch :: "'t \<Rightarrow> nat \<Rightarrow> 't fast_state \<Rightarrow> 't fast_state" where
  "fast_dispatch task w s =
     s\<lparr>slot_task := (slot_task s)(w := Some task), waking := w # waking s, submitted := task # submitted s\<rparr>"

definition ScheduleFast_round :: "int \<Rightarrow> 't \<Rightarrow> 't fast_state \<Rightarrow> 't fast_state" where
  "ScheduleFast_round maxW task s =
     (case pop (workers_stack s) of
        (Some w, st) \<Rightarrow> fast_dispatch task w (s\<lparr>workers_stack := st\<rparr>)
      | (None, st) \<Rightarrow>
          (let c = counter s + 1
           in if c \<le> word_of_int maxW
              then s\<lparr>counter := c, spawned := spawned s + 1, slot_task := (slot_task s)(spawned s := Some task),
                     status := (status s)(spawned s := WRunning), submitted := task # submitted s\<rparr>
              else s\<lparr>counter := c, undoing := undoing s + 1\<rparr>))"

definition take_back :: "'t fast_state \<Rightarrow> 't fast_state" where
  "take_back s = s\<lparr>counter := counter s + uint64SubtractionConstant, undoing := undoing s - 1\<rparr>"

definition safe_ready :: "nat \<Rightarrow> 't fast_state \<Rightarrow> 't fast_state" where
  "safe_ready w s = (if status s w = WWaiting then s\<lparr>status := (status s)(w := WRunning), waking := remove1 w (waking s)\<rparr> else s)"

text \<open>One turn of \<^verbatim>\<open>loopQ\<close> up to the push, and the park after it.\<close>

definition loopQ_turn :: "nat option \<Rightarrow> nat \<Rightarrow> 't fast_state \<Rightarrow> 't fast_state" where
  "loopQ_turn pick w s =
     (case slot_task s w of
        None \<Rightarrow> s
      | Some t \<Rightarrow> s\<lparr>executed := t # executed s, workers_stack := push pick w (workers_stack s), status := (status s)(w := WPushed)\<rparr>)"

definition fast_park :: "nat \<Rightarrow> 't fast_state \<Rightarrow> 't fast_state" where
  "fast_park w s = s\<lparr>status := (status s)(w := WWaiting)\<rparr>"

inductive fast_step :: "int \<Rightarrow> 't fast_state \<Rightarrow> 't fast_state \<Rightarrow> bool" for maxW where
  schedule: "spawned s + undoing s < 2 ^ 64 - 1 \<Longrightarrow> fast_step maxW s (ScheduleFast_round maxW task s)"
| undo: "0 < undoing s \<Longrightarrow> fast_step maxW s (take_back s)"
| ready: "w \<in> set (waking s) \<Longrightarrow> fast_step maxW s (safe_ready w s)"
| turn: "w < spawned s \<Longrightarrow> status s w = WRunning \<Longrightarrow> fast_step maxW s (loopQ_turn pick w s)"
| park: "w < spawned s \<Longrightarrow> status s w = WPushed \<Longrightarrow> fast_step maxW s (fast_park w s)"

definition fast_reachable :: "int \<Rightarrow> 't fast_state \<Rightarrow> bool" where
  "fast_reachable maxW s \<longleftrightarrow> (fast_step maxW)\<^sup>*\<^sup>* fast_start s"

lemma unat_word_of_int:
  assumes "0 \<le> x" "x < 2 ^ 63"
  shows "unat (word_of_int x :: u64) = nat x"
proof -
  have "word_of_int x = (word_of_nat (nat x) :: u64)" using assms(1) by simp
  then show ?thesis using assms(2) by (simp only: unsigned_of_nat) (simp add: take_bit_nat_eq_self)
qed

definition held :: "'t fast_state \<Rightarrow> nat set" where
  "held s = {w. w < spawned s \<and> (status s w = WRunning \<or> w \<in> set (waking s))}"

definition open_tasks :: "'t fast_state \<Rightarrow> 't multiset" where
  "open_tasks s = (\<Sum>w\<in>held s. {#the (slot_task s w)#})"

definition fast_inv :: "int \<Rightarrow> 't fast_state \<Rightarrow> bool" where
  "fast_inv maxW s \<longleftrightarrow>
     (\<exists>ws. stack_holds (workers_stack s) ws \<and> distinct (ws @ waking s) \<and>
        set (ws @ waking s) = {w. w < spawned s \<and> status s w \<noteq> WRunning}) \<and>
     (\<forall>w < spawned s. slot_task s w \<noteq> None) \<and>
     unat (counter s) = spawned s + undoing s \<and> int (spawned s) \<le> maxW \<and> maxW < 2 ^ 63 \<and>
     mset (submitted s) = mset (executed s) + open_tasks s"

lemma fast_invI:
  assumes "stack_holds (workers_stack s) ws" "distinct (ws @ waking s)" "set (ws @ waking s) = {w. w < spawned s \<and> status s w \<noteq> WRunning}"
    "\<forall>w < spawned s. slot_task s w \<noteq> None" "unat (counter s) = spawned s + undoing s" "int (spawned s) \<le> maxW" "maxW < 2 ^ 63"
    "mset (submitted s) = mset (executed s) + open_tasks s"
  shows "fast_inv maxW s"
  using assms unfolding fast_inv_def by blast

lemma finite_held [simp]: "finite (held s)"
  by (simp add: held_def)

lemma fast_inv_start: "0 \<le> maxW \<Longrightarrow> maxW < 2 ^ 63 \<Longrightarrow> fast_inv maxW fast_start"
  by (auto simp: fast_inv_def fast_start_def open_tasks_def held_def stack_holds_empty intro!: exI [of _ "[]"])

lemma dispatch_inv:
  assumes "fast_inv maxW s" "pop (workers_stack s) = (Some w, st)"
  shows "fast_inv maxW (fast_dispatch task w (s\<lparr>workers_stack := st\<rparr>))"
proof -
  let ?s = "fast_dispatch task w (s\<lparr>workers_stack := st\<rparr>)"
  obtain ws where ws: "stack_holds (workers_stack s) ws" "distinct (ws @ waking s)"
    "set (ws @ waking s) = {w. w < spawned s \<and> status s w \<noteq> WRunning}" using assms(1) by (auto simp: fast_inv_def)
  obtain vs where vs: "ws = w # vs" "stack_holds st vs" using pop_refines [OF ws(1) assms(2)] by (cases ws) auto
  have w: "w < spawned s" "status s w \<noteq> WRunning" "w \<notin> set (waking s)" using ws vs by auto
  have h: "held ?s = insert w (held s)" "w \<notin> held s" using w by (auto simp: held_def fast_dispatch_def)
  have "open_tasks ?s = open_tasks s + {#task#}"
    using h(2) by (simp add: open_tasks_def h(1)) (auto simp: fast_dispatch_def intro!: sum.cong)
  moreover have "distinct (vs @ waking ?s)" "set (vs @ waking ?s) = {w. w < spawned s \<and> status s w \<noteq> WRunning}"
    using ws vs by (auto simp: fast_dispatch_def)
  ultimately show ?thesis using assms(1) vs(2) by (auto simp: fast_inv_def fast_dispatch_def intro!: exI [of _ vs])
qed

lemma spawn_inv:
  assumes "fast_inv maxW s" "counter s + 1 \<le> word_of_int maxW" "spawned s + undoing s < 2 ^ 64 - 1"
  shows "fast_inv maxW (s\<lparr>counter := counter s + 1, spawned := spawned s + 1, slot_task := (slot_task s)(spawned s := Some task),
                     status := (status s)(spawned s := WRunning), submitted := task # submitted s\<rparr>)"
proof -
  let ?s = "s\<lparr>counter := counter s + 1, spawned := spawned s + 1, slot_task := (slot_task s)(spawned s := Some task),
                     status := (status s)(spawned s := WRunning), submitted := task # submitted s\<rparr>"
  obtain ws where ws: "stack_holds (workers_stack s) ws" "distinct (ws @ waking s)"
    "set (ws @ waking s) = {w. w < spawned s \<and> status s w \<noteq> WRunning}" using assms(1) by (auto simp: fast_inv_def)
  have c: "unat (counter s) = spawned s + undoing s" "int (spawned s) \<le> maxW" "maxW < 2 ^ 63"
    using assms(1) by (simp_all add: fast_inv_def)
  have u: "unat (counter s + 1) = spawned s + undoing s + 1" using c(1) assms(3) by (subst unat_plus_simple [THEN iffD1]) (auto simp: word_le_nat_alt unat_word_ariths)
  have "unat (word_of_int maxW :: u64) = nat maxW" using c(2,3) by (intro unat_word_of_int) simp_all
  then have le: "int (spawned s + 1) \<le> maxW" using assms(2) u c(2) by (auto simp: word_le_nat_alt)
  have n: "spawned s \<notin> held s" "spawned s \<notin> set (waking s)" using ws(3) by (auto simp: held_def)
  have h: "held ?s = insert (spawned s) (held s)" using n(2) by (auto simp: held_def less_Suc_eq)
  have "open_tasks ?s = open_tasks s + {#task#}"
    unfolding open_tasks_def h using n(1) by simp (auto intro!: sum.cong)
  moreover have "set (ws @ waking s) = {w. w < spawned ?s \<and> status ?s w \<noteq> WRunning}" using ws(3) by (auto simp: less_Suc_eq)
  ultimately show ?thesis using assms(1) ws(1,2) u le by (intro fast_invI [of _ ws]) (auto simp: fast_inv_def less_Suc_eq)
qed

lemma turn_inv:
  assumes "fast_inv maxW s" "w < spawned s" "status s w = WRunning"
  shows "fast_inv maxW (loopQ_turn pick w s)"
proof -
  obtain ws where ws: "stack_holds (workers_stack s) ws" "distinct (ws @ waking s)"
    "set (ws @ waking s) = {w. w < spawned s \<and> status s w \<noteq> WRunning}" using assms(1) by (auto simp: fast_inv_def)
  obtain t where t: "slot_task s w = Some t" using assms(1,2) by (auto simp: fast_inv_def)
  let ?s = "loopQ_turn pick w s"
  have s: "?s = s\<lparr>executed := t # executed s, workers_stack := push pick w (workers_stack s), status := (status s)(w := WPushed)\<rparr>"
    by (simp add: loopQ_turn_def t)
  have n: "w \<notin> set ws" "w \<notin> set (waking s)" using ws(3) assms(3) by auto
  have h: "held s = insert w (held ?s)" "w \<notin> held ?s" using n(2) assms(2,3) by (auto simp: held_def s)
  have "finite (held ?s)" by simp
  then have "open_tasks s = open_tasks ?s + {#t#}"
    using h(2) t by (simp add: open_tasks_def h(1)) (simp add: s)
  moreover have "distinct ((w # ws) @ waking s)" "set ((w # ws) @ waking s) = {w. w < spawned s \<and> status ?s w \<noteq> WRunning}"
    using ws(2,3) n assms(2) by (auto simp: s)
  ultimately show ?thesis using assms(1) push_refines [OF ws(1), of pick w]
    unfolding fast_inv_def s by (auto intro!: exI [of _ "w # ws"])
qed

lemma ready_inv:
  assumes "fast_inv maxW s" "w \<in> set (waking s)"
  shows "fast_inv maxW (safe_ready w s)"
proof (cases "status s w = WWaiting")
  case True
  obtain ws where ws: "stack_holds (workers_stack s) ws" "distinct (ws @ waking s)"
    "set (ws @ waking s) = {w. w < spawned s \<and> status s w \<noteq> WRunning}" using assms(1) by (auto simp: fast_inv_def)
  let ?s = "s\<lparr>status := (status s)(w := WRunning), waking := remove1 w (waking s)\<rparr>"
  have w: "w < spawned s" "distinct (waking s)" "w \<notin> set ws" using ws(2,3) assms(2) by auto
  have "held ?s = held s" using w(1,2) assms(2) by (auto simp: held_def)
  then have "open_tasks ?s = open_tasks s" by (simp add: open_tasks_def)
  moreover have "distinct (ws @ waking ?s)" "set (ws @ waking ?s) = {v. v < spawned s \<and> status ?s v \<noteq> WRunning}"
    using ws(2,3) w by (auto dest: in_set_remove1 [THEN iffD1, rotated] notin_set_remove1)
  ultimately have "fast_inv maxW ?s" using assms(1) ws(1) by (intro fast_invI [of _ ws]) (auto simp: fast_inv_def)
  then show ?thesis using True by (simp add: safe_ready_def)
qed (use assms(1) in \<open>simp add: safe_ready_def\<close>)

lemma park_inv:
  assumes "fast_inv maxW s" "status s w = WPushed"
  shows "fast_inv maxW (fast_park w s)"
proof -
  have "held (fast_park w s) = held s" using assms(2) by (auto simp: held_def fast_park_def)
  then have "open_tasks (fast_park w s) = open_tasks s" by (simp add: open_tasks_def fast_park_def)
  moreover have "{v. v < spawned s \<and> status (fast_park w s) v \<noteq> WRunning} = {v. v < spawned s \<and> status s v \<noteq> WRunning}"
    using assms(2) by (auto simp: fast_park_def)
  ultimately show ?thesis using assms(1) by (simp add: fast_inv_def fast_park_def)
qed

lemma counter_inv:
  assumes "fast_inv maxW s"
  shows "spawned s + undoing s < 2 ^ 64 - 1 \<Longrightarrow> fast_inv maxW (s\<lparr>counter := counter s + 1, undoing := undoing s + 1\<rparr>)"
    "0 < undoing s \<Longrightarrow> fast_inv maxW (take_back s)"
proof -
  have c: "unat (counter s) = spawned s + undoing s" using assms by (simp add: fast_inv_def)
  have o: "open_tasks (s\<lparr>counter := x, undoing := y\<rparr>) = open_tasks s" for x y by (simp add: open_tasks_def held_def)
  show "fast_inv maxW (s\<lparr>counter := counter s + 1, undoing := undoing s + 1\<rparr>)" if "spawned s + undoing s < 2 ^ 64 - 1"
    using assms that c by (simp add: fast_inv_def o unat_word_ariths)
  show "fast_inv maxW (take_back s)" if "0 < undoing s"
  proof -
    have "unat (counter s + uint64SubtractionConstant) = spawned s + undoing s - 1"
      using c that by (simp add: uint64SubtractionConstant_def unat_sub word_le_nat_alt)
    then show ?thesis using assms that by (simp add: fast_inv_def take_back_def o)
  qed
qed

lemma fast_step_inv: "fast_step maxW s s' \<Longrightarrow> fast_inv maxW s \<Longrightarrow> fast_inv maxW s'"
proof (induction rule: fast_step.induct)
  case (schedule s task)
  obtain r st where p: "pop (workers_stack s) = (r, st)" by (cases "pop (workers_stack s)")
  then show ?case
    using dispatch_inv [of maxW s _ st task] spawn_inv [OF schedule(2) _ schedule(1), of task] counter_inv(1) [OF schedule(2,1)] schedule(2)
    by (cases r) (auto simp: ScheduleFast_round_def Let_def)
qed (auto intro: counter_inv(2) ready_inv turn_inv park_inv)



section \<open>Invoke\<close>

text \<open>\<^verbatim>\<open>Invoke\<close> and \<^verbatim>\<open>fnLoopQ\<close> with the pool's fields \<^verbatim>\<open>alloc\<close>, \<^verbatim>\<open>free\<close> and \<^verbatim>\<open>task\<close>; \<open>calls\<close> collects what \<^verbatim>\<open>task\<close> was
  called with.\<close>

record 'd fn_state =
  fn_stack :: "nat item_stack"
  fn_data :: "nat \<Rightarrow> 'd option"
  fn_waking :: "nat list"
  fn_spawned :: nat
  fn_counter :: u64
  calls :: "'d list"

definition fn_start :: "'d fn_state" where
  "fn_start = \<lparr>fn_stack = empty_stack, fn_data = (\<lambda>_. None), fn_waking = [], fn_spawned = 0, fn_counter = 0, calls = []\<rparr>"

definition Invoke_round :: "(nat \<Rightarrow> nat item_stack \<Rightarrow> nat item_stack) option \<Rightarrow> int \<Rightarrow> 'd \<Rightarrow> 'd fn_state \<Rightarrow> 'd fn_state option" where
  "Invoke_round free maxW v s =
     (case fnPop free (fn_stack s) of
        None \<Rightarrow> None
      | Some (Some w, st) \<Rightarrow> Some (s\<lparr>fn_stack := st, fn_data := (fn_data s)(w := Some v), fn_waking := w # fn_waking s\<rparr>)
      | Some (None, st) \<Rightarrow>
          (let c = fn_counter s + 1
           in if c \<le> word_of_int maxW
              then Some (s\<lparr>fn_counter := c, fn_data := (fn_data s)(fn_spawned s := Some v), fn_spawned := fn_spawned s + 1\<rparr>)
              else Some (s\<lparr>fn_counter := c + uint64SubtractionConstant\<rparr>)))"

definition fnLoopQ_turn ::
  "bool \<Rightarrow> (nat item_stack \<Rightarrow> nat \<times> nat item_stack) option \<Rightarrow> nat \<Rightarrow> 'd fn_state \<Rightarrow> 'd fn_state option" where
  "fnLoopQ_turn has_task alloc w s =
     (if \<not> has_task then None
      else case fn_data s w of
             None \<Rightarrow> Some s
           | Some d \<Rightarrow> map_option (\<lambda>st. s\<lparr>calls := d # calls s, fn_stack := st\<rparr>) (fnPush alloc w (fn_stack s)))"

text \<open>\<^verbatim>\<open>Invoke\<close> crashes on every pool that \<^verbatim>\<open>NewQ\<close> makes. No code of the package sets the fields \<^verbatim>\<open>task\<close>, \<^verbatim>\<open>alloc\<close> and \<^verbatim>\<open>free\<close>:
  the call starts a worker, and the worker's first turn calls the nil \<^verbatim>\<open>task\<close>; with a task alone it would call the nil
  \<^verbatim>\<open>alloc\<close>.\<close>

theorem invoke_panics:
  assumes "1 \<le> maxW" "maxW < 2 ^ 63"
  shows "\<exists>s. Invoke_round None maxW v fn_start = Some s \<and> fn_spawned s = 1 \<and> fn_data s 0 = Some v \<and>
    fnLoopQ_turn False None 0 s = None \<and> fnLoopQ_turn True None 0 s = None"
proof -
  have "unat (word_of_int maxW :: u64) = nat maxW" using assms by (intro unat_word_of_int) simp_all
  then have "(1 :: u64) \<le> word_of_int maxW" using assms(1) by (simp add: word_le_nat_alt)
  then show ?thesis
    by (simp add: Invoke_round_def fnPop_def fn_start_def empty_stack_def fnLoopQ_turn_def fnPush_def)
qed

theorem invoke_panics_witness: "\<exists>s. Invoke_round None 2 (9 :: nat) fn_start = Some s \<and> fnLoopQ_turn False None 0 s = None"
  using invoke_panics [of 2 "9 :: nat"] by auto

end
