(* ===== verification/Goroutine_Status.thy ===== *)
theory Goroutine_Status
  imports Prelude
begin

unbundle bit_operations_syntax

text \<open>
  \<^verbatim>\<open>lib_runtime_linkage.go\<close>: the status word of a goroutine, and \<^verbatim>\<open>fast_park\<close> and \<^verbatim>\<open>safe_ready\<close> in the single operations they make on it.
  The scene is one worker of the fast path that has pushed itself on the stack of idle workers and is about to park,
  the one caller that popped it and wakes it, and the garbage collector, which sets and clears the scan bit and may preempt
  a running goroutine as the comments on the statuses say: the goroutine stops itself as \<^verbatim>\<open>_Gpreempted\<close>, the collector
  takes it over as \<^verbatim>\<open>_Gwaiting\<close>, and makes it runnable again.

  Of the runtime, \<^verbatim>\<open>casgstatus\<close> waits until the word has the old value and throws when it waits for \<^verbatim>\<open>_Gwaiting\<close> and finds \<^verbatim>\<open>_Grunnable\<close>;
  \<^verbatim>\<open>goready\<close> throws when the goroutine is not waiting, and otherwise swaps \<^verbatim>\<open>_Gwaiting\<close> for \<^verbatim>\<open>_Grunnable\<close>.
\<close>

section \<open>Statuses\<close>

definition Gidle :: u32 where
  "Gidle = 0"

definition Grunnable :: u32 where
  "Grunnable = 1"

definition Grunning :: u32 where
  "Grunning = 2"

definition Gsyscall :: u32 where
  "Gsyscall = 3"

definition Gwaiting :: u32 where
  "Gwaiting = 4"

definition Gmoribund_unused :: u32 where
  "Gmoribund_unused = 5"

definition Gdead :: u32 where
  "Gdead = 6"

definition Genqueue_unused :: u32 where
  "Genqueue_unused = 7"

definition Gcopystack :: u32 where
  "Gcopystack = 8"

definition Gpreempted :: u32 where
  "Gpreempted = 9"

definition Gscan :: u32 where
  "Gscan = 0x1000"

definition Gscanrunnable :: u32 where
  "Gscanrunnable = Gscan + Grunnable"

definition Gscanrunning :: u32 where
  "Gscanrunning = Gscan + Grunning"

definition Gscansyscall :: u32 where
  "Gscansyscall = Gscan + Gsyscall"

definition Gscanwaiting :: u32 where
  "Gscanwaiting = Gscan + Gwaiting"

definition Gscanpreempted :: u32 where
  "Gscanpreempted = Gscan + Gpreempted"

lemmas g_defs =
  Gidle_def Grunnable_def Grunning_def Gsyscall_def Gwaiting_def Gmoribund_unused_def Gdead_def Genqueue_unused_def Gcopystack_def
  Gpreempted_def Gscan_def Gscanrunnable_def Gscanrunning_def Gscansyscall_def Gscanwaiting_def Gscanpreempted_def

text \<open>The test of \<^verbatim>\<open>safe_ready\<close>.\<close>

definition parked_status :: "u32 \<Rightarrow> bool" where
  "parked_status st \<longleftrightarrow> st AND NOT Gscan = Gwaiting"

lemma word_split_bit: "(x :: 'a::len word) = (x AND NOT (2 ^ n)) OR (x AND 2 ^ n)"
  by (rule bit_eqI) (auto simp: bit_simps)

lemma and_bit_cases: "(x :: 'a::len word) AND 2 ^ n = 0 \<or> x AND 2 ^ n = 2 ^ n"
  by (cases "bit x n") (auto intro!: bit_eqI simp: bit_simps)

lemma parked_status_iff: "parked_status st \<longleftrightarrow> st = Gwaiting \<or> st = Gscanwaiting"
proof
  have g: "Gscan = 2 ^ 12" by (simp add: Gscan_def)
  assume "parked_status st"
  then have "st = Gwaiting OR (st AND 2 ^ 12)" using word_split_bit [of st 12] by (simp add: parked_status_def g)
  then show "st = Gwaiting \<or> st = Gscanwaiting" using and_bit_cases [of st 12] by (auto simp: g_defs)
qed (auto simp: parked_status_def g_defs)

section \<open>Parking and waking\<close>

datatype cas_result = Swapped u32 | Retry | Throw

definition casgstatus :: "u32 \<Rightarrow> u32 \<Rightarrow> u32 \<Rightarrow> cas_result" where
  "casgstatus oldval newval st =
     (if st = oldval then Swapped newval else if oldval = Gwaiting \<and> st = Grunnable then Throw else Retry)"

text \<open>Where the caller is: in the loop of \<^verbatim>\<open>safe_ready\<close>, before the test that \<^verbatim>\<open>goready\<close> makes, at its swap, or done. \<open>parked\<close> says that the
  swap of \<^verbatim>\<open>fast_park\<close> is done, \<open>stopped\<close> that the collector has to make the goroutine runnable.\<close>

datatype waker_phase = Spinning | Checked | Swapping | Finished

record wake_state =
  g_status :: u32
  parked :: bool
  waker :: waker_phase
  stopped :: bool
  thrown :: bool

definition pushed_worker :: wake_state where
  "pushed_worker = \<lparr>g_status = Grunning, parked = False, waker = Spinning, stopped = False, thrown = False\<rparr>"

definition park_swap :: "wake_state \<Rightarrow> wake_state" where
  "park_swap s =
     (case casgstatus Grunning Gwaiting (g_status s) of
        Swapped st \<Rightarrow> s\<lparr>g_status := st, parked := True\<rparr>
      | Retry \<Rightarrow> s
      | Throw \<Rightarrow> s\<lparr>thrown := True\<rparr>)"

definition safe_ready_look :: "wake_state \<Rightarrow> wake_state" where
  "safe_ready_look s = (if parked_status (g_status s) then s\<lparr>waker := Checked\<rparr> else s)"

definition goready_check :: "wake_state \<Rightarrow> wake_state" where
  "goready_check s = (if parked_status (g_status s) then s\<lparr>waker := Swapping\<rparr> else s\<lparr>thrown := True\<rparr>)"

definition goready_swap :: "wake_state \<Rightarrow> wake_state" where
  "goready_swap s =
     (case casgstatus Gwaiting Grunnable (g_status s) of
        Swapped st \<Rightarrow> s\<lparr>g_status := st, waker := Finished\<rparr>
      | Retry \<Rightarrow> s
      | Throw \<Rightarrow> s\<lparr>thrown := True\<rparr>)"

text \<open>The collector makes a goroutine runnable that it stopped: the same test and swap.\<close>

definition resume_ready :: "wake_state \<Rightarrow> wake_state" where
  "resume_ready s =
     (if \<not> parked_status (g_status s) then s\<lparr>thrown := True\<rparr>
      else case casgstatus Gwaiting Grunnable (g_status s) of
             Swapped st \<Rightarrow> s\<lparr>g_status := st, stopped := False\<rparr>
           | Retry \<Rightarrow> s
           | Throw \<Rightarrow> s\<lparr>thrown := True\<rparr>)"

text \<open>\<open>preempts\<close> says whether the collector preempts the worker between its push and its park.\<close>

inductive wake_step :: "bool \<Rightarrow> wake_state \<Rightarrow> wake_state \<Rightarrow> bool" for preempts where
  park: "\<not> thrown s \<Longrightarrow> \<not> parked s \<Longrightarrow> g_status s \<in> {Grunning, Gscanrunning} \<Longrightarrow> wake_step preempts s (park_swap s)"
| look: "\<not> thrown s \<Longrightarrow> waker s = Spinning \<Longrightarrow> wake_step preempts s (safe_ready_look s)"
| check: "\<not> thrown s \<Longrightarrow> waker s = Checked \<Longrightarrow> wake_step preempts s (goready_check s)"
| swap: "\<not> thrown s \<Longrightarrow> waker s = Swapping \<Longrightarrow> wake_step preempts s (goready_swap s)"
| scan: "\<not> thrown s \<Longrightarrow> g_status s \<in> {Grunnable, Grunning, Gwaiting} \<Longrightarrow> wake_step preempts s (s\<lparr>g_status := g_status s + Gscan\<rparr>)"
| unscan: "\<not> thrown s \<Longrightarrow> g_status s \<in> {Gscanrunnable, Gscanrunning, Gscanwaiting} \<Longrightarrow>
    wake_step preempts s (s\<lparr>g_status := g_status s AND NOT Gscan\<rparr>)"
| run: "\<not> thrown s \<Longrightarrow> g_status s = Grunnable \<Longrightarrow> wake_step preempts s (s\<lparr>g_status := Grunning\<rparr>)"
| yield: "\<not> thrown s \<Longrightarrow> \<not> parked s \<Longrightarrow> g_status s = Grunning \<Longrightarrow> wake_step preempts s (s\<lparr>g_status := Grunnable\<rparr>)"
| preempt: "preempts \<Longrightarrow> \<not> thrown s \<Longrightarrow> \<not> parked s \<Longrightarrow> g_status s = Grunning \<Longrightarrow> wake_step preempts s (s\<lparr>g_status := Gpreempted\<rparr>)"
| suspend: "\<not> thrown s \<Longrightarrow> g_status s = Gpreempted \<Longrightarrow> wake_step preempts s (s\<lparr>g_status := Gwaiting, stopped := True\<rparr>)"
| resume: "\<not> thrown s \<Longrightarrow> stopped s \<Longrightarrow> wake_step preempts s (resume_ready s)"

lemmas step_defs = park_swap_def safe_ready_look_def goready_check_def goready_swap_def resume_ready_def casgstatus_def

definition awake :: "u32 \<Rightarrow> bool" where
  "awake st \<longleftrightarrow> st \<in> {Grunnable, Grunning, Gscanrunnable, Gscanrunning}"

definition wake_inv :: "wake_state \<Rightarrow> bool" where
  "wake_inv s \<longleftrightarrow> \<not> thrown s \<and> \<not> stopped s \<and> (\<not> parked s \<longrightarrow> waker s = Spinning) \<and>
     (if parked s \<and> waker s \<noteq> Finished then parked_status (g_status s) else awake (g_status s))"

lemma status_tests [simp]:
  "parked_status Gwaiting" "parked_status Gscanwaiting" "\<not> parked_status Gpreempted" "awake st \<Longrightarrow> \<not> parked_status st"
  "awake Grunnable" "awake Grunning" "\<not> awake Gpreempted" "parked_status st \<Longrightarrow> st \<noteq> Grunnable"
  by (auto simp: parked_status_iff awake_def g_defs)

lemma scan_tests:
  "st \<in> {Grunnable, Grunning, Gwaiting} \<Longrightarrow> parked_status (st + Gscan) = parked_status st \<and> awake (st + Gscan) = awake st"
  "st \<in> {Gscanrunnable, Gscanrunning, Gscanwaiting} \<Longrightarrow> parked_status (st AND NOT Gscan) = parked_status st \<and> awake (st AND NOT Gscan) = awake st"
  by (auto simp: parked_status_iff awake_def g_defs)

lemma wake_inv_step: "wake_step False s s' \<Longrightarrow> wake_inv s \<Longrightarrow> wake_inv s'"
proof (induction rule: wake_step.induct)
  case (scan s)
  then show ?case using scan_tests(1) [OF scan(2)] by (simp add: wake_inv_def)
next
  case (unscan s)
  then show ?case using scan_tests(2) [OF unscan(2)] by (simp add: wake_inv_def)
qed (auto simp: wake_inv_def step_defs parked_status_iff awake_def g_defs split: if_splits)

lemma wake_inv_run: "(wake_step False)\<^sup>*\<^sup>* pushed_worker s \<Longrightarrow> wake_inv s"
  by (induction rule: rtranclp_induct) (auto simp: wake_inv_step, simp add: wake_inv_def pushed_worker_def)

section \<open>Every wake-up arrives\<close>

lemma to_unscanned:
  assumes "wake_inv s"
  shows "\<exists>st. (wake_step False)\<^sup>*\<^sup>* s (s\<lparr>g_status := st\<rparr>) \<and> wake_inv (s\<lparr>g_status := st\<rparr>) \<and> st \<in> {Grunnable, Grunning, Gwaiting}"
proof (cases "g_status s \<in> {Grunnable, Grunning, Gwaiting}")
  case True
  then show ?thesis using assms by (intro exI [of _ "g_status s"]) simp
next
  case False
  then have sc: "g_status s \<in> {Gscanrunnable, Gscanrunning, Gscanwaiting}" using assms by (auto simp: wake_inv_def awake_def parked_status_iff split: if_splits)
  let ?st = "g_status s AND NOT Gscan"
  have step: "wake_step False s (s\<lparr>g_status := ?st\<rparr>)" using assms sc by (intro wake_step.unscan) (simp_all add: wake_inv_def)
  moreover have "?st \<in> {Grunnable, Grunning, Gwaiting}" using sc by (auto simp: g_defs)
  ultimately show ?thesis using wake_inv_step [OF step assms] by blast
qed

lemma to_running:
  assumes "wake_inv s" "awake (g_status s)"
  shows "(wake_step False)\<^sup>*\<^sup>* s (s\<lparr>g_status := Grunning\<rparr>)"
proof -
  obtain st where st: "(wake_step False)\<^sup>*\<^sup>* s (s\<lparr>g_status := st\<rparr>)" "wake_inv (s\<lparr>g_status := st\<rparr>)" "st \<in> {Grunnable, Grunning, Gwaiting}"
    using to_unscanned [OF assms(1)] by blast
  have "\<not> (parked s \<and> waker s \<noteq> Finished)" using assms by (auto simp: wake_inv_def)
  then have "st \<noteq> Gwaiting" using st(2) by (auto simp: wake_inv_def awake_def g_defs)
  then consider "st = Grunnable" | "st = Grunning" using st(3) by blast
  then show ?thesis
  proof cases
    case 1
    have "wake_step False (s\<lparr>g_status := st\<rparr>) (s\<lparr>g_status := st, g_status := Grunning\<rparr>)"
      using assms(1) 1 by (intro wake_step.run) (simp_all add: wake_inv_def)
    then show ?thesis using st(1) by simp
  qed (use st(1) in simp)
qed

lemma to_parked:
  assumes "wake_inv s"
  shows "\<exists>s'. (wake_step False)\<^sup>*\<^sup>* s s' \<and> wake_inv s' \<and> parked s'"
proof (cases "parked s")
  case False
  then have "awake (g_status s)" "\<not> thrown s" using assms by (simp_all add: wake_inv_def)
  note r = to_running [OF assms this(1)]
  let ?s = "s\<lparr>g_status := Grunning\<rparr>"
  have p: "wake_step False ?s (park_swap ?s)" using False \<open>\<not> thrown s\<close> by (intro wake_step.park) simp_all
  have "wake_inv ?s" using assms False by (simp add: wake_inv_def)
  then have "wake_inv (park_swap ?s)" by (rule wake_inv_step [OF p])
  moreover have "parked (park_swap ?s)" by (simp add: park_swap_def casgstatus_def)
  ultimately show ?thesis using r p by (meson rtranclp.rtrancl_into_rtrancl)
qed (use assms in blast)

lemma to_finished:
  assumes "wake_inv s" "parked s"
  shows "\<exists>s'. (wake_step False)\<^sup>*\<^sup>* s s' \<and> wake_inv s' \<and> waker s' = Finished \<and> parked s'"
  using assms
proof (induction "case waker s of Spinning \<Rightarrow> 3 | Checked \<Rightarrow> 2 | Swapping \<Rightarrow> 1 | Finished \<Rightarrow> (0 :: nat)" arbitrary: s rule: less_induct)
  case less
  obtain st where st: "(wake_step False)\<^sup>*\<^sup>* s (s\<lparr>g_status := st\<rparr>)" "wake_inv (s\<lparr>g_status := st\<rparr>)" "st \<in> {Grunnable, Grunning, Gwaiting}"
    using to_unscanned [OF less.prems(1)] by blast
  let ?s = "s\<lparr>g_status := st\<rparr>"
  show ?case
  proof (cases "waker s = Finished")
    case False
    then have w: "st = Gwaiting" using st(2,3) less.prems(2) by (auto simp: wake_inv_def parked_status_iff g_defs)
    define s' where "s' = (case waker s of Spinning \<Rightarrow> ?s\<lparr>waker := Checked\<rparr> | Checked \<Rightarrow> ?s\<lparr>waker := Swapping\<rparr> | _ \<Rightarrow> ?s\<lparr>g_status := Grunnable, waker := Finished\<rparr>)"
    have t: "\<not> thrown ?s" using less.prems(1) by (simp add: wake_inv_def)
    have step: "wake_step False ?s s'"
      using False wake_step.look [OF t] wake_step.check [OF t] wake_step.swap [OF t] w
      by (cases "waker s") (simp_all add: s'_def step_defs)
    have "parked s'" using less.prems(2) by (simp add: s'_def split: waker_phase.split)
    from less.hyps [OF _ wake_inv_step [OF step st(2)] this] False obtain s'' where
      "(wake_step False)\<^sup>*\<^sup>* s' s''" "wake_inv s''" "waker s'' = Finished" "parked s''"
      by (cases "waker s") (auto simp: s'_def)
    then show ?thesis using st(1) step by (meson rtranclp_trans converse_rtranclp_into_rtranclp)
  qed (use less.prems in blast)
qed

text \<open>As long as the collector does not preempt the worker between its push and its park, the runtime never throws, the caller's
  wake-up comes after the park, and from every state the wake-up can complete: the caller is done and the worker runs
  again. The test of the loop accepts exactly \<^verbatim>\<open>_Gwaiting\<close> and \<^verbatim>\<open>_Gscanwaiting\<close>.\<close>

theorem wake_up_arrives:
  assumes "(wake_step False)\<^sup>*\<^sup>* pushed_worker s"
  shows "\<not> thrown s \<and> (waker s \<noteq> Spinning \<longrightarrow> parked s) \<and> (\<forall>st. parked_status st \<longleftrightarrow> st = Gwaiting \<or> st = Gscanwaiting) \<and>
    (\<exists>s'. (wake_step False)\<^sup>*\<^sup>* s s' \<and> waker s' = Finished \<and> parked s' \<and> g_status s' = Grunning \<and> \<not> thrown s')"
proof -
  have inv: "wake_inv s" by (rule wake_inv_run [OF assms])
  obtain s1 where s1: "(wake_step False)\<^sup>*\<^sup>* s s1" "wake_inv s1" "parked s1" using to_parked [OF inv] by blast
  obtain s2 where s2: "(wake_step False)\<^sup>*\<^sup>* s1 s2" "wake_inv s2" "waker s2 = Finished" "parked s2" using to_finished [OF s1(2,3)] by blast
  have "awake (g_status s2)" using s2(2,3) by (simp add: wake_inv_def)
  note s3 = to_running [OF s2(2) this]
  have "\<not> thrown s2" using s2(2) by (simp add: wake_inv_def)
  then have "\<exists>s'. (wake_step False)\<^sup>*\<^sup>* s s' \<and> waker s' = Finished \<and> parked s' \<and> g_status s' = Grunning \<and> \<not> thrown s'"
    using rtranclp_trans [OF rtranclp_trans [OF s1(1) s2(1)] s3] s2(3,4) by (intro exI [of _ "s2\<lparr>g_status := Grunning\<rparr>"]) simp
  then show ?thesis using inv parked_status_iff by (auto simp: wake_inv_def)
qed

theorem wake_up_arrives_witness:
  "\<exists>s'. (wake_step False)\<^sup>*\<^sup>* pushed_worker s' \<and> waker s' = Finished \<and> parked s' \<and> g_status s' = Grunning"
  using wake_up_arrives [OF rtranclp.rtrancl_refl] by blast

text \<open>C37: A preemption in that window breaks it: the collector takes the preempted worker over as \<^verbatim>\<open>_Gwaiting\<close>, the
  caller takes it for parked and makes it runnable, and the collector, which has to make it runnable itself, throws. The
  worker has never parked.\<close>

theorem preempted_worker_throws: "\<exists>s. (wake_step True)\<^sup>*\<^sup>* pushed_worker s \<and> thrown s \<and> waker s = Finished \<and> \<not> parked s"
proof -
  let ?w = pushed_worker
  let ?s1 = "?w\<lparr>g_status := Gpreempted\<rparr>" and ?s2 = "?w\<lparr>g_status := Gwaiting, stopped := True\<rparr>"
  have i: "\<not> thrown ?w" "\<not> parked ?w" "g_status ?w = Grunning" "waker ?w = Spinning" by (simp_all add: pushed_worker_def)
  have "wake_step True ?w ?s1" using i by (intro wake_step.preempt) simp_all
  moreover have "wake_step True ?s1 ?s2" using wake_step.suspend [of ?s1 True] i by simp
  moreover have "wake_step True ?s2 (?s2\<lparr>waker := Checked\<rparr>)" using wake_step.look [of ?s2 True] i by (simp add: safe_ready_look_def)
  moreover have "wake_step True (?s2\<lparr>waker := Checked\<rparr>) (?s2\<lparr>waker := Swapping\<rparr>)"
    using wake_step.check [of "?s2\<lparr>waker := Checked\<rparr>" True] i by (simp add: goready_check_def)
  moreover have "wake_step True (?s2\<lparr>waker := Swapping\<rparr>) (?s2\<lparr>g_status := Grunnable, waker := Finished\<rparr>)"
    using wake_step.swap [of "?s2\<lparr>waker := Swapping\<rparr>" True] i by (simp add: goready_swap_def casgstatus_def)
  moreover have "wake_step True (?s2\<lparr>g_status := Grunnable, waker := Finished\<rparr>) (?s2\<lparr>g_status := Grunnable, waker := Finished, thrown := True\<rparr>)"
    using wake_step.resume [of "?s2\<lparr>g_status := Grunnable, waker := Finished\<rparr>" True] i by (simp add: resume_ready_def)
  ultimately have "(wake_step True)\<^sup>*\<^sup>* ?w (?s2\<lparr>g_status := Grunnable, waker := Finished, thrown := True\<rparr>)"
    by (meson converse_rtranclp_into_rtranclp rtranclp.rtrancl_refl)
  then show ?thesis using i(2) by (intro exI conjI) (assumption, simp_all)
qed

end
