(* ===== verification/Park_Refinement.thy ===== *)
theory Park_Refinement
  imports Fastpath Goroutine_Status
begin

text \<open>
  Two views of the same code. \<open>Fastpath\<close> takes \<^verbatim>\<open>fast_park\<close> and \<^verbatim>\<open>safe_ready\<close> as one step each; \<open>Goroutine_Status\<close> has them in
  single loads and swaps of the status word, beside a collector that sets and clears the scan bit. Here
  the second is shown to implement the first: seen through the function below, every operation on the status word of a worker is a
  step of the fast path or none at all.
\<close>

text \<open>The fast path as the status word of the worker \<open>w\<close>, and the progress of the caller that wakes it, show it.\<close>

definition worker_view :: "nat \<Rightarrow> wake_state \<Rightarrow> 't fast_state \<Rightarrow> 't fast_state" where
  "worker_view w g s =
     s\<lparr>status := (status s)(w := if \<not> parked g then WPushed else if waker g = Finished then WRunning else WWaiting),
       waking := if waker g = Finished then remove1 w (waking s) else waking s\<rparr>"

lemma worker_view_start: "status s w = WPushed \<Longrightarrow> worker_view w pushed_worker s = s"
  by (simp add: worker_view_def pushed_worker_def fun_upd_idem)

lemma worker_view_park:
  assumes "\<not> parked g" "waker g \<noteq> Finished"
  shows "worker_view w (g\<lparr>g_status := st, parked := True\<rparr>) s = fast_park w (worker_view w g s)"
  using assms by (simp add: worker_view_def fast_park_def)

lemma worker_view_ready:
  assumes "parked g" "waker g \<noteq> Finished"
  shows "worker_view w (g\<lparr>g_status := st, waker := Finished\<rparr>) s = safe_ready w (worker_view w g s)"
  using assms by (simp add: worker_view_def safe_ready_def)

lemma view_step:
  assumes "wake_step False g g'" "wake_inv g" "w < spawned s" "w \<in> set (waking s)"
  shows "worker_view w g' s = worker_view w g s \<or> fast_step maxW (worker_view w g s) (worker_view w g' s)"
  using assms(1)
proof cases
  case park
  have f: "waker g \<noteq> Finished" using assms(2) park(3) by (simp add: wake_inv_def)
  show ?thesis
  proof (cases "g_status g = Grunning")
    case True
    have "fast_step maxW (worker_view w g s) (fast_park w (worker_view w g s))"
      using park(3) assms(3) by (intro fast_step.park) (simp_all add: worker_view_def)
    then show ?thesis using park(1) True worker_view_park [OF park(3) f, of w Gwaiting s] by (simp add: park_swap_def casgstatus_def)
  next
    case False
    then show ?thesis using park by (simp add: park_swap_def casgstatus_def g_defs)
  qed
next
  case swap
  have p: "parked g" "waker g \<noteq> Finished" "parked_status (g_status g)" using assms(2) swap(3) by (auto simp: wake_inv_def)
  show ?thesis
  proof (cases "g_status g = Gwaiting")
    case True
    have "fast_step maxW (worker_view w g s) (safe_ready w (worker_view w g s))"
      using p(2) assms(4) by (intro fast_step.ready) (simp add: worker_view_def)
    then show ?thesis using swap(1) True worker_view_ready [OF p(1,2), of w Grunnable s] by (simp add: goready_swap_def casgstatus_def)
  next
    case False
    then show ?thesis using swap p(3) by (auto simp: goready_swap_def casgstatus_def parked_status_iff g_defs)
  qed
qed (use assms(2) in \<open>auto simp: worker_view_def safe_ready_look_def goready_check_def wake_inv_def\<close>)



end
