(* ===== verification/Runtime_Events.thy ===== *)
theory Runtime_Events
  imports Prelude
begin

text \<open>
  \<^verbatim>\<open>lib_runtime_linkage.go\<close>: the reasons for which a goroutine waits and the events of a trace, which the declarations of the linked
  runtime functions take as arguments, with their codes. A reason is a byte counted from zero. Of the byte of an event only six
  bits are for its type, so the codes have to stay below 64, as the comment there says. \<^verbatim>\<open>runtime_doSpin\<close> is the one function
  here with a body; \<^verbatim>\<open>spin\<close> is linked, and so an argument.
\<close>

section \<open>Wait reasons\<close>

datatype waitReason =
  waitReasonZero | waitReasonGCAssistMarking | waitReasonIOWait | waitReasonChanReceiveNilChan | waitReasonChanSendNilChan | waitReasonDumpingHeap
  | waitReasonGarbageCollection | waitReasonGarbageCollectionScan | waitReasonPanicWait | waitReasonSelect | waitReasonSelectNoCases
  | waitReasonGCAssistWait | waitReasonGCSweepWait | waitReasonGCScavengeWait | waitReasonChanReceive | waitReasonChanSend | waitReasonFinalizerWait
  | waitReasonForceGCIdle | waitReasonSemacquire | waitReasonSleep | waitReasonSyncCondWait | waitReasonTimerGoroutineIdle
  | waitReasonTraceReaderBlocked | waitReasonWaitForGCCycle | waitReasonGCWorkerIdle | waitReasonPreempted | waitReasonDebugCall

definition waitReasons :: "waitReason list" where
  "waitReasons =
    [waitReasonZero, waitReasonGCAssistMarking, waitReasonIOWait, waitReasonChanReceiveNilChan, waitReasonChanSendNilChan, waitReasonDumpingHeap
     , waitReasonGarbageCollection, waitReasonGarbageCollectionScan, waitReasonPanicWait, waitReasonSelect, waitReasonSelectNoCases
     , waitReasonGCAssistWait, waitReasonGCSweepWait, waitReasonGCScavengeWait, waitReasonChanReceive, waitReasonChanSend, waitReasonFinalizerWait
     , waitReasonForceGCIdle, waitReasonSemacquire, waitReasonSleep, waitReasonSyncCondWait, waitReasonTimerGoroutineIdle
     , waitReasonTraceReaderBlocked, waitReasonWaitForGCCycle, waitReasonGCWorkerIdle, waitReasonPreempted, waitReasonDebugCall]"

primrec waitReason_code :: "waitReason \<Rightarrow> 8 word" where
  "waitReason_code waitReasonZero = 0"
| "waitReason_code waitReasonGCAssistMarking = 1"
| "waitReason_code waitReasonIOWait = 2"
| "waitReason_code waitReasonChanReceiveNilChan = 3"
| "waitReason_code waitReasonChanSendNilChan = 4"
| "waitReason_code waitReasonDumpingHeap = 5"
| "waitReason_code waitReasonGarbageCollection = 6"
| "waitReason_code waitReasonGarbageCollectionScan = 7"
| "waitReason_code waitReasonPanicWait = 8"
| "waitReason_code waitReasonSelect = 9"
| "waitReason_code waitReasonSelectNoCases = 10"
| "waitReason_code waitReasonGCAssistWait = 11"
| "waitReason_code waitReasonGCSweepWait = 12"
| "waitReason_code waitReasonGCScavengeWait = 13"
| "waitReason_code waitReasonChanReceive = 14"
| "waitReason_code waitReasonChanSend = 15"
| "waitReason_code waitReasonFinalizerWait = 16"
| "waitReason_code waitReasonForceGCIdle = 17"
| "waitReason_code waitReasonSemacquire = 18"
| "waitReason_code waitReasonSleep = 19"
| "waitReason_code waitReasonSyncCondWait = 20"
| "waitReason_code waitReasonTimerGoroutineIdle = 21"
| "waitReason_code waitReasonTraceReaderBlocked = 22"
| "waitReason_code waitReasonWaitForGCCycle = 23"
| "waitReason_code waitReasonGCWorkerIdle = 24"
| "waitReason_code waitReasonPreempted = 25"
| "waitReason_code waitReasonDebugCall = 26"

lemma waitReason_at: "waitReasons ! unat (waitReason_code r) = r" "unat (waitReason_code r) < 27"
  by (cases r; simp add: waitReasons_def)+

section \<open>Trace events\<close>

datatype (plugins del: size transfer) traceEv =
  traceEvNone | traceEvBatch | traceEvFrequency | traceEvStack | traceEvGomaxprocs | traceEvProcStart | traceEvProcStop | traceEvGCStart
  | traceEvGCDone | traceEvGCSTWStart | traceEvGCSTWDone | traceEvGCSweepStart | traceEvGCSweepDone | traceEvGoCreate | traceEvGoStart | traceEvGoEnd
  | traceEvGoStop | traceEvGoSched | traceEvGoPreempt | traceEvGoSleep | traceEvGoBlock | traceEvGoUnblock | traceEvGoBlockSend | traceEvGoBlockRecv
  | traceEvGoBlockSelect | traceEvGoBlockSync | traceEvGoBlockCond | traceEvGoBlockNet | traceEvGoSysCall | traceEvGoSysExit | traceEvGoSysBlock
  | traceEvGoWaiting | traceEvGoInSyscall | traceEvHeapAlloc | traceEvHeapGoal | traceEvTimerGoroutine | traceEvFutileWakeup | traceEvString
  | traceEvGoStartLocal | traceEvGoUnblockLocal | traceEvGoSysExitLocal | traceEvGoStartLabel | traceEvGoBlockGC | traceEvGCMarkAssistStart
  | traceEvGCMarkAssistDone | traceEvUserTaskCreate | traceEvUserTaskEnd | traceEvUserRegion | traceEvUserLog

definition traceEvs :: "traceEv list" where
  "traceEvs =
    [traceEvNone, traceEvBatch, traceEvFrequency, traceEvStack, traceEvGomaxprocs, traceEvProcStart, traceEvProcStop, traceEvGCStart, traceEvGCDone
     , traceEvGCSTWStart, traceEvGCSTWDone, traceEvGCSweepStart, traceEvGCSweepDone, traceEvGoCreate, traceEvGoStart, traceEvGoEnd, traceEvGoStop
     , traceEvGoSched, traceEvGoPreempt, traceEvGoSleep, traceEvGoBlock, traceEvGoUnblock, traceEvGoBlockSend, traceEvGoBlockRecv
     , traceEvGoBlockSelect, traceEvGoBlockSync, traceEvGoBlockCond, traceEvGoBlockNet, traceEvGoSysCall, traceEvGoSysExit, traceEvGoSysBlock
     , traceEvGoWaiting, traceEvGoInSyscall, traceEvHeapAlloc, traceEvHeapGoal, traceEvTimerGoroutine, traceEvFutileWakeup, traceEvString
     , traceEvGoStartLocal, traceEvGoUnblockLocal, traceEvGoSysExitLocal, traceEvGoStartLabel, traceEvGoBlockGC, traceEvGCMarkAssistStart
     , traceEvGCMarkAssistDone, traceEvUserTaskCreate, traceEvUserTaskEnd, traceEvUserRegion, traceEvUserLog]"

primrec traceEv_code :: "traceEv \<Rightarrow> 8 word" where
  "traceEv_code traceEvNone = 0"
| "traceEv_code traceEvBatch = 1"
| "traceEv_code traceEvFrequency = 2"
| "traceEv_code traceEvStack = 3"
| "traceEv_code traceEvGomaxprocs = 4"
| "traceEv_code traceEvProcStart = 5"
| "traceEv_code traceEvProcStop = 6"
| "traceEv_code traceEvGCStart = 7"
| "traceEv_code traceEvGCDone = 8"
| "traceEv_code traceEvGCSTWStart = 9"
| "traceEv_code traceEvGCSTWDone = 10"
| "traceEv_code traceEvGCSweepStart = 11"
| "traceEv_code traceEvGCSweepDone = 12"
| "traceEv_code traceEvGoCreate = 13"
| "traceEv_code traceEvGoStart = 14"
| "traceEv_code traceEvGoEnd = 15"
| "traceEv_code traceEvGoStop = 16"
| "traceEv_code traceEvGoSched = 17"
| "traceEv_code traceEvGoPreempt = 18"
| "traceEv_code traceEvGoSleep = 19"
| "traceEv_code traceEvGoBlock = 20"
| "traceEv_code traceEvGoUnblock = 21"
| "traceEv_code traceEvGoBlockSend = 22"
| "traceEv_code traceEvGoBlockRecv = 23"
| "traceEv_code traceEvGoBlockSelect = 24"
| "traceEv_code traceEvGoBlockSync = 25"
| "traceEv_code traceEvGoBlockCond = 26"
| "traceEv_code traceEvGoBlockNet = 27"
| "traceEv_code traceEvGoSysCall = 28"
| "traceEv_code traceEvGoSysExit = 29"
| "traceEv_code traceEvGoSysBlock = 30"
| "traceEv_code traceEvGoWaiting = 31"
| "traceEv_code traceEvGoInSyscall = 32"
| "traceEv_code traceEvHeapAlloc = 33"
| "traceEv_code traceEvHeapGoal = 34"
| "traceEv_code traceEvTimerGoroutine = 35"
| "traceEv_code traceEvFutileWakeup = 36"
| "traceEv_code traceEvString = 37"
| "traceEv_code traceEvGoStartLocal = 38"
| "traceEv_code traceEvGoUnblockLocal = 39"
| "traceEv_code traceEvGoSysExitLocal = 40"
| "traceEv_code traceEvGoStartLabel = 41"
| "traceEv_code traceEvGoBlockGC = 42"
| "traceEv_code traceEvGCMarkAssistStart = 43"
| "traceEv_code traceEvGCMarkAssistDone = 44"
| "traceEv_code traceEvUserTaskCreate = 45"
| "traceEv_code traceEvUserTaskEnd = 46"
| "traceEv_code traceEvUserRegion = 47"
| "traceEv_code traceEvUserLog = 48"

definition traceEvCount :: "8 word" where
  "traceEvCount = 49"

lemma traceEv_at: "traceEvs ! unat (traceEv_code e) = e" "unat (traceEv_code e) < 49"
  by (cases e; simp add: traceEvs_def)+

text \<open>The codes are those of an enumeration: every one is below the count, no two are the same, every smaller number is a code, and the two upper
  bits of the byte, which hold the number of arguments, are free.\<close>

lemma inj_by_list: "(\<And>x. xs ! f x = x) \<Longrightarrow> inj f"
  by (metis injI)

theorem event_codes_enumerate:
  "inj waitReason_code \<and> (unat \<circ> waitReason_code) ` UNIV = {..<27} \<and>
   inj traceEv_code \<and> (unat \<circ> traceEv_code) ` UNIV = {..<unat traceEvCount} \<and> (\<forall>e. drop_bit 6 (traceEv_code e) = 0)"
proof -
  have inj: "inj (unat \<circ> waitReason_code)" "inj (unat \<circ> traceEv_code)"
    by (rule inj_by_list [of waitReasons], simp add: waitReason_at(1)) (rule inj_by_list [of traceEvs], simp add: traceEv_at(1))
  have "map (unat \<circ> waitReason_code) waitReasons = [0..<27]" "map (unat \<circ> traceEv_code) traceEvs = [0..<49]"
    by (simp_all add: waitReasons_def traceEvs_def upt_rec)
  then have "set [0..<27] \<subseteq> (unat \<circ> waitReason_code) ` UNIV" "set [0..<49] \<subseteq> (unat \<circ> traceEv_code) ` UNIV"
    by (metis image_mono set_map subset_UNIV)+
  moreover have "drop_bit 6 (traceEv_code e) = 0" for e by (cases e) simp_all
  ultimately show ?thesis
    using inj waitReason_at(2) traceEv_at(2) inj_on_imageI2 [of unat waitReason_code UNIV] inj_on_imageI2 [of unat traceEv_code UNIV]
    by (auto simp: traceEvCount_def)
qed

section \<open>Spinning\<close>

record mutex =
  mutex_key :: u64

definition runtime_doSpin :: "(u32 \<Rightarrow> 's \<Rightarrow> 's) \<Rightarrow> 's \<Rightarrow> 's" where
  "runtime_doSpin spin = spin 30"

end
