(* ===== verification/Layout.thy ===== *)
theory Layout
  imports Prelude
begin

text \<open>
  The memory layout of \<^verbatim>\<open>Q[T]\<close>. \<^verbatim>\<open>erased.go\<close> turns a \<^verbatim>\<open>*Q[T]\<close> into a \<^verbatim>\<open>*Q[erasedAny]\<close> by an unsafe pointer conversion, which is
  sound only if the fields of the two types lie at the same places; the fast path updates the plain \<^verbatim>\<open>uint64\<close>
  field \<^verbatim>\<open>workerCount\<close> with \<^verbatim>\<open>atomic.AddUint64\<close>, which on 32-bit processors needs an offset divisible by eight; and the
  lengths of the padding arrays are constant expressions that must not be negative on any processor of \<^verbatim>\<open>constants/\<close>.
  The layout function is the one of the Go compiler: fields in order, each at the next multiple of its alignment. A type that is
  only ever pointed at is \<open>GNamed\<close>, and has no layout of its own here.
\<close>

section \<open>Go types and their layout\<close>

datatype gotype =
  GByte | GUint32 | GUint64 | GInt | GAlign64 | GInterface
| GPointer gotype | GFunc "gotype list" | GArray int gotype | GStruct "gotype list" | GNamed string "gotype list"

datatype goarch = Go386 | GoAmd64 | GoArm | GoArm64 | GoMips | GoMips64 | GoMips64le | GoMipsle | GoPpc64x | GoRiscv64 | GoS390x | GoWasm

definition ptr_size :: "goarch \<Rightarrow> nat" where
  "ptr_size a = (if a \<in> {Go386, GoArm, GoMips, GoMipsle} then 4 else 8)"

definition align_up :: "nat \<Rightarrow> nat \<Rightarrow> nat" where
  "align_up o' al = (o' + al - 1) div al * al"

fun offsets :: "nat \<Rightarrow> (nat \<times> nat) list \<Rightarrow> nat list" where
  "offsets o' [] = []"
| "offsets o' ((sz, al) # fs) = align_up o' al # offsets (align_up o' al + sz) fs"

fun end_offset :: "nat \<Rightarrow> (nat \<times> nat) list \<Rightarrow> nat" where
  "end_offset o' [] = o'"
| "end_offset o' ((sz, al) # fs) = end_offset (align_up o' al + sz) fs"

text \<open>A struct is padded to its alignment; one that ends in an empty field gets a byte more.\<close>

definition struct_layout :: "(nat \<times> nat) list \<Rightarrow> nat \<times> nat" where
  "struct_layout fs =
     (let al = foldr max (map snd fs) 1; e = end_offset 0 fs;
          e' = (if fs \<noteq> [] \<and> fst (last fs) = 0 \<and> 0 < e then e + 1 else e)
      in (align_up e' al, al))"

text \<open>Size and alignment; \<open>None\<close> for an array of negative length, which the compiler refuses.\<close>

fun layout :: "nat \<Rightarrow> gotype \<Rightarrow> (nat \<times> nat) option" where
  "layout p GByte = Some (1, 1)"
| "layout p GUint32 = Some (4, 4)"
| "layout p GUint64 = Some (8, p)"
| "layout p GInt = Some (p, p)"
| "layout p GAlign64 = Some (0, 8)"
| "layout p GInterface = Some (2 * p, p)"
| "layout p (GPointer t) = Some (p, p)"
| "layout p (GFunc ts) = Some (p, p)"
| "layout p (GArray n t) = (if n < 0 then None else map_option (\<lambda>(sz, al). (nat n * sz, al)) (layout p t))"
| "layout p (GStruct ts) = map_option struct_layout (those (map (layout p) ts))"
| "layout p (GNamed x ts) = None"

section \<open>Padding per processor\<close>

definition CacheLinePadSize_386 :: int where "CacheLinePadSize_386 = 64"
definition CacheLinePadSize_amd64 :: int where "CacheLinePadSize_amd64 = 64"
definition CacheLinePadSize_arm :: int where "CacheLinePadSize_arm = 32"
definition CacheLinePadSize_arm64 :: int where "CacheLinePadSize_arm64 = 64"
definition CacheLinePadSize_mips :: int where "CacheLinePadSize_mips = 32"
definition CacheLinePadSize_mips64 :: int where "CacheLinePadSize_mips64 = 32"
definition CacheLinePadSize_mips64le :: int where "CacheLinePadSize_mips64le = 32"
definition CacheLinePadSize_mipsle :: int where "CacheLinePadSize_mipsle = 32"
definition CacheLinePadSize_ppc64x :: int where "CacheLinePadSize_ppc64x = 128"
definition CacheLinePadSize_riscv64 :: int where "CacheLinePadSize_riscv64 = 32"
definition CacheLinePadSize_s390x :: int where "CacheLinePadSize_s390x = 256"
definition CacheLinePadSize_wasm :: int where "CacheLinePadSize_wasm = 64"

lemmas pad_defs =
  CacheLinePadSize_386_def CacheLinePadSize_amd64_def CacheLinePadSize_arm_def CacheLinePadSize_arm64_def CacheLinePadSize_mips_def
  CacheLinePadSize_mips64_def CacheLinePadSize_mips64le_def CacheLinePadSize_mipsle_def CacheLinePadSize_ppc64x_def
  CacheLinePadSize_riscv64_def CacheLinePadSize_s390x_def CacheLinePadSize_wasm_def

fun cacheLinePadSize :: "goarch \<Rightarrow> int" where
  "cacheLinePadSize Go386 = CacheLinePadSize_386"
| "cacheLinePadSize GoAmd64 = CacheLinePadSize_amd64"
| "cacheLinePadSize GoArm = CacheLinePadSize_arm"
| "cacheLinePadSize GoArm64 = CacheLinePadSize_arm64"
| "cacheLinePadSize GoMips = CacheLinePadSize_mips"
| "cacheLinePadSize GoMips64 = CacheLinePadSize_mips64"
| "cacheLinePadSize GoMips64le = CacheLinePadSize_mips64le"
| "cacheLinePadSize GoMipsle = CacheLinePadSize_mipsle"
| "cacheLinePadSize GoPpc64x = CacheLinePadSize_ppc64x"
| "cacheLinePadSize GoRiscv64 = CacheLinePadSize_riscv64"
| "cacheLinePadSize GoS390x = CacheLinePadSize_s390x"
| "cacheLinePadSize GoWasm = CacheLinePadSize_wasm"

section \<open>The pool in memory\<close>

text \<open>The types of \<^verbatim>\<open>sync/atomic\<close>: a pointer, a word behind a marker of its alignment, and a flag in a 32-bit word. Their
  \<^verbatim>\<open>noCopy\<close> fields are empty structs, and \<^verbatim>\<open>atomic.Pointer\<close> starts with an empty array of pointers.\<close>

definition atomic_Pointer :: "gotype \<Rightarrow> gotype" where
  "atomic_Pointer t = GStruct [GArray 0 (GPointer t), GStruct [], GPointer (GNamed ''void'' [])]"

definition atomic_Uint64 :: gotype where
  "atomic_Uint64 = GStruct [GStruct [], GAlign64, GUint64]"

definition atomic_Bool :: gotype where
  "atomic_Bool = GStruct [GStruct [], GUint32]"

definition slotFunc :: "gotype \<Rightarrow> gotype" where
  "slotFunc T = GStruct [GPointer (GNamed ''void'' []), T]"

definition dataItem :: "gotype \<Rightarrow> gotype" where
  "dataItem T = GStruct [atomic_Pointer (GNamed ''dataItem'' [T]), GPointer (slotFunc T)]"

definition erasedAny :: gotype where
  "erasedAny = GInterface"

definition Q_fields :: "int \<Rightarrow> nat \<Rightarrow> gotype \<Rightarrow> (string \<times> gotype) list" where
  "Q_fields pad p T =
     [(''ctx'', GInterface),
      (''cancel'', GFunc []),
      (''err'', GInterface),
      (''_p1'', GArray (pad - 8) GByte),
      (''alloc'', GFunc [GInterface]),
      (''free'', GFunc [GInterface]),
      (''task'', GFunc [T]),
      (''_p2'', GArray (pad - 8 - 3 * int p) GByte),
      (''fnTop'', atomic_Pointer (dataItem T)),
      (''top'', atomic_Pointer (GNamed ''node'' [])),
      (''_p3'', GArray (pad - (case layout p (atomic_Pointer (dataItem T)) of Some (sz, _) \<Rightarrow> int sz | None \<Rightarrow> 0)) GByte),
      (''workerCount'', GUint64),
      (''deps'', GPointer (GNamed ''WaitGroup'' [])),
      (''scalerWG'', GPointer (GNamed ''WaitGroup'' [])),
      (''jobQueue'', GPointer (GNamed ''jobDisruptorQueue'' [])),
      (''stopping'', atomic_Bool),
      (''minWorkers'', GInt),
      (''maxWorkers'', GInt),
      (''space'', GPointer (GNamed ''QSpace'' [])),
      (''scaler'', GPointer (GNamed ''Scaler'' [])),
      (''metrics'', GPointer (GNamed ''Metrics'' [])),
      (''breakers'', GPointer (GNamed ''circuitBreakerCache'' [])),
      (''registry'', GPointer (GNamed ''workerRegistry'' [])),
      (''nextWorker'', atomic_Uint64),
      (''config'', GPointer (GNamed ''Config'' []))]"

text \<open>Where each field lies, and how long it is.\<close>

definition Q_places :: "goarch \<Rightarrow> gotype \<Rightarrow> (string \<times> nat \<times> nat) list option" where
  "Q_places a T =
     (let fs = Q_fields (cacheLinePadSize a) (ptr_size a) T
      in map_option (\<lambda>ls. zip (map fst fs) (zip (offsets 0 ls) (map fst ls))) (those (map (layout (ptr_size a) \<circ> snd) fs)))"

definition offset_of :: "goarch \<Rightarrow> gotype \<Rightarrow> string \<Rightarrow> nat option" where
  "offset_of a T f = Option.bind (Q_places a T) (\<lambda>ps. map_option fst (map_of ps f))"

text \<open>Reading a field of a pool of type \<^verbatim>\<open>Q[T]\<close> through a pointer, and the conversion of the pointer, which keeps the address.\<close>

definition load_field :: "goarch \<Rightarrow> gotype \<Rightarrow> (nat \<Rightarrow> 8 word) \<Rightarrow> nat \<Rightarrow> string \<Rightarrow> 8 word list option" where
  "load_field a T mem q f =
     Option.bind (Q_places a T) (\<lambda>ps. map_option (\<lambda>(off, sz). map (\<lambda>k. mem (q + off + k)) [0..<sz]) (map_of ps f))"

definition qAny :: "nat \<Rightarrow> nat" where
  "qAny q = q"

lemma layout_erased [simp]: "layout p (atomic_Pointer (dataItem T)) = layout p (atomic_Pointer (GNamed ''node'' []))"
  by (simp add: atomic_Pointer_def)

lemma Q_places_erased: "Q_places a T = Q_places a T'"
  by (simp add: Q_places_def Q_fields_def)

lemma Q_fields_names: "map fst (Q_fields pad p T) = map fst (Q_fields 0 0 erasedAny)"
  by (simp add: Q_fields_def)

lemmas layout_defs =
  Q_places_def Q_fields_def pad_defs ptr_size_def atomic_Pointer_def atomic_Uint64_def atomic_Bool_def struct_layout_def align_up_def Let_def

lemma Q_places_returns: "\<exists>ps. Q_places a T = Some ps \<and> map fst ps = map fst (Q_fields 0 0 erasedAny)"
  by (cases a) (simp_all add: layout_defs)

text \<open>The conversion of \<^verbatim>\<open>erased.go\<close> is sound: whatever the type argument and the processor, every field of the pool has a place, and
  reading it through the converted pointer reads the same bytes.\<close>

theorem erasure_keeps_fields:
  assumes "f \<in> set (map fst (Q_fields pad p T))"
  shows "\<exists>bytes. load_field a T mem q f = Some bytes \<and> load_field a erasedAny mem (qAny q) f = Some bytes"
proof -
  obtain ps where ps: "Q_places a T = Some ps" "map fst ps = map fst (Q_fields 0 0 erasedAny)" using Q_places_returns by blast
  have "f \<in> set (map fst ps)" using assms Q_fields_names [of pad p T] ps(2) by metis
  then obtain place where "map_of ps f = Some place" by (metis map_of_eq_None_iff not_None_eq set_map)
  then show ?thesis using ps(1) Q_places_erased [of a erasedAny T] by (simp add: load_field_def qAny_def split: prod.split)
qed

theorem erasure_keeps_fields_witness:
  "\<exists>bytes. load_field GoArm (GArray 3 GUint64) (\<lambda>x. of_nat x) 512 ''metrics'' = Some bytes \<and>
     load_field GoArm erasedAny (\<lambda>x. of_nat x) (qAny 512) ''metrics'' = Some bytes \<and> length bytes = 4"
proof -
  have f: "''metrics'' \<in> set (map fst (Q_fields 32 4 (GArray 3 GUint64)))" by (simp add: Q_fields_def)
  have "map_option length (load_field GoArm erasedAny (\<lambda>x. of_nat x) (qAny 512) ''metrics'') = Some 4" by code_simp
  with erasure_keeps_fields [OF f, of GoArm "\<lambda>x. of_nat x" 512] show ?thesis by fastforce
qed

text \<open>C34: On every processor, and for every type argument, the two counters that are updated with 64-bit atomic
  operations lie at multiples of eight bytes, as \<^verbatim>\<open>sync/atomic\<close> demands on 32-bit processors, and the counter of the fast path is at least a cache
  line away from the tops of its stacks.\<close>

theorem worker_count_aligned:
  "\<exists>w n t u. offset_of a T ''workerCount'' = Some w \<and> offset_of a T ''nextWorker'' = Some n \<and> w mod 8 = 0 \<and> n mod 8 = 0 \<and>
     offset_of a T ''fnTop'' = Some t \<and> offset_of a T ''top'' = Some u \<and>
     int t + cacheLinePadSize a \<le> int w \<and> int u + cacheLinePadSize a \<le> int w"
  by (cases a) (simp_all add: offset_of_def layout_defs)

end
